(* ===== verification/Sip_Prelude.thy ===== *)
theory Sip_Prelude
  imports Main "HOL-Library.Word" "HOL-Library.Monad_Syntax" "HOL-Library.Sublist"
begin

unbundle bit_operations_syntax

text \<open>
  Shared vocabulary of the development: the machine types of the C sources, the
  collections of rewrite rules the component theories add to, generic lemmas on lists,
  and the interface of a state machine that keeps an invariant.
\<close>

subsection \<open>Machine types\<close>

text \<open>
  The server is built for LP64: \<open>unsigned int\<close> is a 32-bit word whose arithmetic wraps,
  \<open>unsigned long long\<close> a 64-bit one. A \<open>str\<close> (pointer and length) is the list of
  its bytes.
\<close>

type_synonym u8 = "8 word"
type_synonym u16 = "16 word"
type_synonym u32 = "32 word"
type_synonym u64 = "64 word"
type_synonym str = string
type_synonym addr = nat

subsection \<open>Collections\<close>

named_theorems heap_simps \<open>reading a heap cell after a write\<close>
named_theorems path_frame \<open>writes outside a linked path keep the path\<close>
named_theorems step_inv \<open>an operation keeps the component's invariant\<close>

subsection \<open>Lists\<close>

lemma takeWhile_all: "\<forall>x \<in> set xs. P x \<Longrightarrow> takeWhile P xs = xs"
  by simp

lemma last_notin_butlast: "distinct xs \<Longrightarrow> xs \<noteq> [] \<Longrightarrow> last xs \<notin> set (butlast xs)"
  by (cases xs rule: rev_cases) auto

lemma successively_butlast_mono:
  assumes "successively P xs" and "\<And>a b. a \<in> set (butlast xs) \<Longrightarrow> P a b \<Longrightarrow> Q a b"
  shows "successively Q xs"
  using assms by (induction xs rule: induct_list012) auto

lemma sorted_map_eqI:
  "(\<And>x. x \<in> set xs \<Longrightarrow> f x = g x) \<Longrightarrow> sorted (map g xs) \<Longrightarrow> sorted (map f xs)"
  by (metis map_cong)

lemma sorted_takeWhile_filter:
  fixes f :: "'a \<Rightarrow> 'b::linorder"
  assumes "sorted (map f xs)"
  shows "takeWhile (\<lambda>x. f x \<le> k) xs = filter (\<lambda>x. f x \<le> k) xs"
  using assms
proof (induction xs)
  case (Cons x xs)
  show ?case
  proof (cases "f x \<le> k")
    case False
    with Cons.prems have "\<forall>y \<in> set xs. \<not> f y \<le> k" by fastforce
    with False show ?thesis by simp
  qed (use Cons in simp)
qed simp

lemma sorted_dropWhile_filter:
  fixes f :: "'a \<Rightarrow> 'b::linorder"
  assumes "sorted (map f xs)"
  shows "dropWhile (\<lambda>x. f x \<le> k) xs = filter (\<lambda>x. \<not> f x \<le> k) xs"
  using assms
proof (induction xs)
  case (Cons x xs)
  show ?case
  proof (cases "f x \<le> k")
    case False
    with Cons.prems have "\<forall>y \<in> set xs. \<not> f y \<le> k" by fastforce
    with False show ?thesis by (simp add: filter_id_conv)
  qed (use Cons in simp)
qed simp

subsection \<open>State machines\<close>

text \<open>
  The interface of a component that is a state machine: its initial states, one step per
  operation and event, and the invariant every step keeps. A client may rely on the
  invariant in every reachable state, whatever the order in which the operations run.
\<close>

locale state_machine =
  fixes init :: "'s \<Rightarrow> bool"
    and step :: "'s \<Rightarrow> 'e \<Rightarrow> 's \<Rightarrow> bool"
    and inv :: "'s \<Rightarrow> bool"
  assumes init_inv: "init s \<Longrightarrow> inv s"
    and step_keeps: "inv s \<Longrightarrow> step s e s' \<Longrightarrow> inv s'"
begin

inductive reach :: "'s \<Rightarrow> bool" where
  start: "init s \<Longrightarrow> reach s"
| more: "reach s \<Longrightarrow> step s e s' \<Longrightarrow> reach s'"

inductive run :: "'s \<Rightarrow> 'e list \<Rightarrow> 's \<Rightarrow> bool" where
  run_nil: "run s [] s"
| run_cons: "step s e s' \<Longrightarrow> run s' es s'' \<Longrightarrow> run s (e # es) s''"

lemma reach_inv: "reach s \<Longrightarrow> inv s"
  by (induction rule: reach.induct) (auto intro: init_inv step_keeps)

lemma run_inv: "run s es s' \<Longrightarrow> inv s \<Longrightarrow> inv s'"
  by (induction rule: run.induct) (auto intro: step_keeps)

end

end
