(* ===== verification/Dlg_Timer.thy ===== *)
theory Dlg_Timer
  imports Sip_Prelude
begin

text \<open>
  The dialog timer of the dialog module (modules/dialog/dlg_timer.c): a circular doubly
  linked list of \<open>struct dlg_tl\<close> links around the sentinel \<open>timer->first\<close>, kept in
  the order of the timeouts. The links are modelled as cells of a heap, with the
  \<open>next\<close> and \<open>prev\<close> pointers the code writes, so that a read through a null or dead
  pointer is a failed computation (\<open>None\<close>), and so is a walk that never meets its end.
  The lemmas show that every operation succeeds on a well-formed timer, keeps it
  well-formed, and refines the obvious operation on a sorted list.
\<close>

subsection \<open>The heap of timer links\<close>

text \<open>Pointer values: 0, \<open>FAKE_DIALOG_TL\<close>, \<open>&timer->first\<close>, the link of a dialog.\<close>

datatype tl_ptr = NULL | FAKE_DIALOG_TL | First | Tl addr

record dlg_tl =
  tl_next :: tl_ptr
  tl_prev :: tl_ptr
  tl_timeout :: u32

type_synonym tl_heap = "tl_ptr \<rightharpoonup> dlg_tl"

definition set_next :: "tl_heap \<Rightarrow> tl_ptr \<Rightarrow> tl_ptr \<Rightarrow> tl_heap option" where
  "set_next t p q = do { n \<leftarrow> t p; Some (t(p \<mapsto> n\<lparr>tl_next := q\<rparr>)) }"

definition set_prev :: "tl_heap \<Rightarrow> tl_ptr \<Rightarrow> tl_ptr \<Rightarrow> tl_heap option" where
  "set_prev t p q = do { n \<leftarrow> t p; Some (t(p \<mapsto> n\<lparr>tl_prev := q\<rparr>)) }"

definition set_timeout :: "tl_heap \<Rightarrow> tl_ptr \<Rightarrow> u32 \<Rightarrow> tl_heap option" where
  "set_timeout t p v = do { n \<leftarrow> t p; Some (t(p \<mapsto> n\<lparr>tl_timeout := v\<rparr>)) }"

subsection \<open>The operations\<close>

text \<open>\<open>_init_gen_dlg_timer\<close> once the allocations have succeeded: the sentinel points to itself.\<close>

definition init_gen_dlg_timer :: tl_heap where
  "init_gen_dlg_timer =
     [First \<mapsto> \<lparr>tl_next = First, tl_prev = First, tl_timeout = 0\<rparr>]"

text \<open>
  The backward search of \<open>insert_gen_timer_unsafe\<close>: from the last link towards the
  sentinel, stopping at the first timeout that is not greater than the new one.
\<close>

partial_function (option) insert_scan :: "tl_heap \<Rightarrow> u32 \<Rightarrow> tl_ptr \<Rightarrow> tl_ptr option" where
  "insert_scan t v ptr =
     (if ptr = First then Some ptr
      else do {
        n \<leftarrow> t ptr;
        if tl_timeout n \<le> v then Some ptr else insert_scan t v (tl_prev n) })"

definition insert_gen_timer_unsafe :: "tl_heap \<Rightarrow> tl_ptr \<Rightarrow> tl_heap option" where
  "insert_gen_timer_unsafe t tlp = do {
     n \<leftarrow> t tlp;
     f \<leftarrow> t First;
     ptr \<leftarrow> insert_scan t (tl_timeout n) (tl_prev f);
     t \<leftarrow> set_prev t tlp ptr;
     p \<leftarrow> t ptr;
     t \<leftarrow> set_next t tlp (tl_next p);
     n \<leftarrow> t tlp;
     t \<leftarrow> set_next t (tl_prev n) tlp;
     n \<leftarrow> t tlp;
     set_prev t (tl_next n) tlp }"

definition insert_dlg_timer :: "u32 \<Rightarrow> tl_heap \<Rightarrow> tl_ptr \<Rightarrow> u32 \<Rightarrow> (tl_heap \<times> int) option" where
  "insert_dlg_timer get_ticks t tlp interval = do {
     n \<leftarrow> t tlp;
     if tl_next n \<noteq> NULL \<or> tl_prev n \<noteq> NULL then Some (t, -1)
     else do {
       t \<leftarrow> set_timeout t tlp (get_ticks + interval);
       t \<leftarrow> insert_gen_timer_unsafe t tlp;
       Some (t, 0) } }"

definition insert_attempt_dlg_del_timer ::
    "u32 \<Rightarrow> tl_heap \<Rightarrow> tl_ptr \<Rightarrow> u32 \<Rightarrow> (tl_heap \<times> int) option" where
  "insert_attempt_dlg_del_timer get_ticks t tlp interval = do {
     n \<leftarrow> t tlp;
     if tl_prev n = NULL then
       if tl_next n \<noteq> NULL then Some (t, -2)
       else do {
         t \<leftarrow> set_timeout t tlp (get_ticks + interval);
         t \<leftarrow> insert_gen_timer_unsafe t tlp;
         Some (t, 0) }
     else Some (t, -1) }"

definition remove_dlg_timer_unsafe :: "tl_heap \<Rightarrow> tl_ptr \<Rightarrow> tl_heap option" where
  "remove_dlg_timer_unsafe t tlp = do {
     n \<leftarrow> t tlp;
     t \<leftarrow> set_next t (tl_prev n) (tl_next n);
     n \<leftarrow> t tlp;
     set_prev t (tl_next n) (tl_prev n) }"

definition remove_dlg_timer :: "tl_heap \<Rightarrow> tl_ptr \<Rightarrow> (tl_heap \<times> int) option" where
  "remove_dlg_timer t tlp = do {
     n \<leftarrow> t tlp;
     if tl_prev n = NULL \<and> tl_timeout n = 0 then Some (t, 1)
     else if tl_prev n = NULL \<or> tl_next n = NULL \<or> tl_next n = FAKE_DIALOG_TL
     then Some (t, -1)
     else do {
       t \<leftarrow> remove_dlg_timer_unsafe t tlp;
       t \<leftarrow> set_next t tlp FAKE_DIALOG_TL;
       t \<leftarrow> set_prev t tlp NULL;
       t \<leftarrow> set_timeout t tlp 0;
       Some (t, 0) } }"

definition update_dlg_timer :: "u32 \<Rightarrow> tl_heap \<Rightarrow> tl_ptr \<Rightarrow> u32 \<Rightarrow> (tl_heap \<times> int) option" where
  "update_dlg_timer get_ticks t tlp timeout = do {
     n \<leftarrow> t tlp;
     if tl_next n = FAKE_DIALOG_TL then Some (t, 0)
     else if tl_next n \<noteq> NULL \<and> tl_prev n = NULL then Some (t, -1)
     else do {
       t1 \<leftarrow> (if tl_next n \<noteq> NULL then remove_dlg_timer_unsafe t tlp else Some t);
       t2 \<leftarrow> set_timeout t1 tlp (get_ticks + timeout);
       t3 \<leftarrow> insert_gen_timer_unsafe t2 tlp;
       Some (t3, if tl_next n \<noteq> NULL then 0 else 1) } }"





subsection \<open>Well-formed timers\<close>

definition nxt :: "tl_heap \<Rightarrow> tl_ptr \<rightharpoonup> tl_ptr" where
  "nxt t p = map_option tl_next (t p)"

definition prv :: "tl_heap \<Rightarrow> tl_ptr \<rightharpoonup> tl_ptr" where
  "prv t p = map_option tl_prev (t p)"

definition tmo :: "tl_heap \<Rightarrow> addr \<Rightarrow> u32" where
  "tmo t a = (case t (Tl a) of None \<Rightarrow> 0 | Some n \<Rightarrow> tl_timeout n)"

definition link :: "tl_heap \<Rightarrow> tl_ptr \<Rightarrow> tl_ptr \<Rightarrow> bool" where
  "link t p q \<longleftrightarrow> nxt t p = Some q \<and> prv t q = Some p"

text \<open>The ring: the sentinel, the links in order, the sentinel again.\<close>

definition ring :: "addr list \<Rightarrow> tl_ptr list" where
  "ring xs = First # map Tl xs @ [First]"

definition linked :: "tl_heap \<Rightarrow> addr list \<Rightarrow> bool" where
  "linked t xs \<longleftrightarrow> distinct xs \<and> successively (link t) (ring xs)"

text \<open>
  The invariant of a timer that holds the links \<open>xs\<close>: the ring is linked both ways and
  sorted by timeout, and a link outside it carries no \<open>prev\<close> pointer and no timeout.
\<close>

definition timer_inv :: "tl_heap \<Rightarrow> addr list \<Rightarrow> bool" where
  "timer_inv t xs \<longleftrightarrow>
     t NULL = None \<and> t FAKE_DIALOG_TL = None \<and> linked t xs \<and> sorted (map (tmo t) xs) \<and>
     (\<forall>a n. t (Tl a) = Some n \<longrightarrow> a \<notin> set xs \<longrightarrow> tl_prev n = NULL \<and> tl_timeout n = 0)"

text \<open>A timer at work: dialogs 1 and 2 are due at 20 and 30, dialog 3 is in no timer yet.\<close>

definition sample_timer :: tl_heap where
  "sample_timer =
     [First \<mapsto> \<lparr>tl_next = Tl 1, tl_prev = Tl 2, tl_timeout = 0\<rparr>,
      Tl 1 \<mapsto> \<lparr>tl_next = Tl 2, tl_prev = First, tl_timeout = 20\<rparr>,
      Tl 2 \<mapsto> \<lparr>tl_next = First, tl_prev = Tl 1, tl_timeout = 30\<rparr>,
      Tl 3 \<mapsto> \<lparr>tl_next = NULL, tl_prev = NULL, tl_timeout = 0\<rparr>]"

lemma set_next_Some [simp]: "t p = Some n \<Longrightarrow> set_next t p q = Some (t(p \<mapsto> n\<lparr>tl_next := q\<rparr>))"
  by (simp add: set_next_def)

lemma set_prev_Some [simp]: "t p = Some n \<Longrightarrow> set_prev t p q = Some (t(p \<mapsto> n\<lparr>tl_prev := q\<rparr>))"
  by (simp add: set_prev_def)

lemma set_timeout_Some [simp]:
  "t p = Some n \<Longrightarrow> set_timeout t p v = Some (t(p \<mapsto> n\<lparr>tl_timeout := v\<rparr>))"
  by (simp add: set_timeout_def)

lemma nxt_upd [heap_simps]: "nxt (t(p \<mapsto> n)) = (nxt t)(p \<mapsto> tl_next n)"
  by (auto simp: nxt_def)

lemma prv_upd [heap_simps]: "prv (t(p \<mapsto> n)) = (prv t)(p \<mapsto> tl_prev n)"
  by (auto simp: prv_def)

lemma tmo_upd [heap_simps]:
  "tmo (t(p \<mapsto> n)) = (case p of Tl a \<Rightarrow> (tmo t)(a := tl_timeout n) | _ \<Rightarrow> tmo t)"
  by (cases p) (auto simp: tmo_def)

lemma nxt_Some: "nxt t p = Some q \<longleftrightarrow> (\<exists>n. t p = Some n \<and> tl_next n = q)"
  by (auto simp: nxt_def)

lemma prv_Some: "prv t p = Some q \<longleftrightarrow> (\<exists>n. t p = Some n \<and> tl_prev n = q)"
  by (auto simp: prv_def)

lemma linkD: "link t p q \<Longrightarrow> \<exists>n m. t p = Some n \<and> t q = Some m \<and> tl_next n = q \<and> tl_prev m = p"
  by (auto simp: link_def nxt_Some prv_Some)

lemma linkI: "t p = Some n \<Longrightarrow> t q = Some m \<Longrightarrow> tl_next n = q \<Longrightarrow> tl_prev m = p \<Longrightarrow> link t p q"
  by (simp add: link_def nxt_def prv_def)

text \<open>A chain of links depends on the \<open>next\<close> of all but its last and the \<open>prev\<close> of all but its first.\<close>

lemma successively_link_frame [path_frame]:
  assumes "successively (link t) ps"
    and "\<forall>p \<in> set (butlast ps). nxt t' p = nxt t p"
    and "\<forall>p \<in> set (tl ps). prv t' p = prv t p"
  shows "successively (link t') ps"
  using assms
proof (induction ps rule: induct_list012)
  case (3 p q ps)
  then show ?case by (auto simp: link_def)
qed auto

lemma successively_link_dom:
  assumes "successively (link t) (p # q # ps)" "r \<in> set (p # q # ps)"
  shows "\<exists>n. t r = Some n"
  using assms
proof (induction ps arbitrary: p q)
  case Nil
  then show ?case by (auto dest: linkD)
next
  case (Cons a ps)
  then show ?case by (metis linkD list.set_intros(1) set_ConsD successively.simps(3))
qed

lemma linked_dom:
  assumes "linked t xs" "p \<in> set (ring xs)"
  shows "\<exists>n. t p = Some n"
proof -
  obtain q ps where "map Tl xs @ [First] = q # ps" by (cases xs) auto
  with assms show ?thesis
    by (metis linked_def ring_def successively_link_dom)
qed

text \<open>Splitting the ring between two consecutive parts.\<close>

lemma ring_split:
  "ring (ys @ zs) = (First # map Tl ys) @ (map Tl zs @ [First])"
  by (simp add: ring_def)

lemma successively_ring_split:
  "successively R (ring (ys @ zs)) \<longleftrightarrow>
     successively R (First # map Tl ys) \<and> successively R (map Tl zs @ [First]) \<and>
     R (last (First # map Tl ys)) (hd (map Tl zs @ [First]))"
  unfolding ring_split successively_append_iff by auto


lemma insert_scan_prefix:
  assumes "successively (link t) (First # map Tl ys)" and "sorted (map (tmo t) ys)"
  shows "insert_scan t v (last (First # map Tl ys)) =
         Some (last (First # map Tl (takeWhile (\<lambda>a. tmo t a \<le> v) ys)))"
  using assms
proof (induction ys rule: rev_induct)
  case Nil
  show ?case by (simp add: insert_scan.simps)
next
  case (snoc y ys)
  have chain: "successively (link t) (First # map Tl ys)"
    and lnk: "link t (last (First # map Tl ys)) (Tl y)"
    using snoc.prems(1) successively_append_iff [of "link t" "First # map Tl ys" "[Tl y]"] by auto
  from lnk obtain n where n: "t (Tl y) = Some n" "tl_prev n = last (First # map Tl ys)"
    by (blast dest: linkD)
  have y: "tmo t y = tl_timeout n" using n by (simp add: tmo_def)
  show ?case
  proof (cases "tmo t y \<le> v")
    case True
    with snoc.prems(2) have "\<forall>a \<in> set ys. tmo t a \<le> v" by (auto simp: sorted_append intro: order_trans)
    with True n y show ?thesis by (subst insert_scan.simps) (simp add: takeWhile_append2)
  next
    case False
    have "sorted (map (tmo t) ys)" using snoc.prems(2) by (simp add: sorted_append)
    from snoc.IH [OF chain this] False n y show ?thesis
      by (subst insert_scan.simps) (simp add: takeWhile_tail)
  qed
qed

text \<open>Linking a fresh link between two neighbours, and taking one out.\<close>

lemma linked_insert:
  assumes inv: "linked t (ys @ zs)" and a: "a \<notin> set (ys @ zs)" "t (Tl a) = Some n"
    and p: "p = last (First # map Tl ys)" "t p = Some np"
    and q: "q = hd (map Tl zs @ [First])" "t q = Some nq"
  defines "t1 \<equiv> t(Tl a \<mapsto> n\<lparr>tl_next := q, tl_prev := p\<rparr>)"
  defines "t2 \<equiv> t1(p \<mapsto> (the (t1 p))\<lparr>tl_next := Tl a\<rparr>)"
  defines "t3 \<equiv> t2(q \<mapsto> (the (t2 q))\<lparr>tl_prev := Tl a\<rparr>)"
  shows "linked t3 (ys @ a # zs)"
proof -
  have pa: "p \<noteq> Tl a" and qa: "q \<noteq> Tl a"
    using a p q by (cases ys rule: rev_cases; cases zs; auto)+
  have dist: "distinct (ys @ zs)" using inv by (simp add: linked_def)
  have nx: "nxt t3 = (nxt t)(Tl a \<mapsto> q, p \<mapsto> Tl a)"
    using pa qa p q a unfolding t3_def t2_def t1_def
    by (auto simp: nxt_def fun_eq_iff)
  have pv: "prv t3 = (prv t)(Tl a \<mapsto> p, q \<mapsto> Tl a)"
    using pa qa p q a unfolding t3_def t2_def t1_def
    by (auto simp: prv_def fun_eq_iff)
  have L: "successively (link t) (First # map Tl ys)"
    and R: "successively (link t) (map Tl zs @ [First])"
    using inv by (auto simp: linked_def successively_ring_split)
  have pL: "p \<notin> set (butlast (First # map Tl ys))" "Tl a \<notin> set (First # map Tl ys)" 
    using dist a p(1) by (cases ys rule: rev_cases; auto dest: in_set_butlastD)+
  have "q \<notin> set (map Tl ys)"
    using dist q(1) by (cases zs) auto
  with L pL have L': "successively (link t3) (First # map Tl ys)"
    by (intro successively_link_frame [OF L]) (auto simp: nx pv dest: in_set_butlastD)
  have "p \<notin> set (map Tl zs)" using dist p(1) by (cases ys rule: rev_cases) auto
  moreover have "q \<notin> set (tl (map Tl zs @ [First]))" "Tl a \<notin> set (map Tl zs)"
    if "zs \<noteq> []" using dist q(1) a(1) that by (cases zs; auto)+
  moreover have "set (tl (map Tl zs)) \<subseteq> Tl ` set zs" by (cases zs) auto
  ultimately have R': "successively (link t3) (map Tl zs @ [First])"
    using a(1) by (cases "zs = []") (auto intro!: successively_link_frame [OF R] simp: nx pv)
  have "link t3 p (Tl a)" "link t3 (Tl a) q" using pa qa by (auto simp: link_def nx pv)
  then have "successively (link t3) (ring (ys @ a # zs))"
    using L' R' p(1) q(1) successively_ring_split [of "link t3" ys "a # zs"]
    by (cases zs) (auto simp: successively_append_iff)
  with dist a(1) show ?thesis by (auto simp: linked_def)
qed


lemma linked_remove:
  assumes inv: "linked t (ys @ a # zs)" and n: "t (Tl a) = Some n"
  defines "t1 \<equiv> t(tl_prev n \<mapsto> (the (t (tl_prev n)))\<lparr>tl_next := tl_next n\<rparr>)"
  defines "t2 \<equiv> t1(tl_next n \<mapsto> (the (t1 (tl_next n)))\<lparr>tl_prev := tl_prev n\<rparr>)"
  shows "linked t2 (ys @ zs)"
    and "tl_prev n = last (First # map Tl ys)" and "tl_next n = hd (map Tl zs @ [First])"
proof -
  define p q where "p = last (First # map Tl ys)" and "q = hd (map Tl zs @ [First])"
  have dist: "distinct (ys @ a # zs)" using inv by (simp add: linked_def)
  have L: "successively (link t) (First # map Tl ys)"
    and R1: "successively (link t) (Tl a # map Tl zs @ [First])"
    and pl: "link t p (Tl a)"
    using inv successively_ring_split [of "link t" ys "a # zs"] by (auto simp: linked_def p_def)
  then have R: "successively (link t) (map Tl zs @ [First])" and ql: "link t (Tl a) q"
    by (cases zs; auto simp: q_def)+
  show prev: "tl_prev n = last (First # map Tl ys)"
    using pl n by (auto simp: p_def dest!: linkD)
  show nex: "tl_next n = hd (map Tl zs @ [First])"
    using ql n by (auto simp: q_def dest!: linkD)
  have pa: "p \<noteq> Tl a" and qa: "q \<noteq> Tl a"
    using dist by (cases ys rule: rev_cases; cases zs; auto simp: p_def q_def)+
  have nx: "nxt t2 = (nxt t)(p \<mapsto> q)" and pv: "prv t2 = (prv t)(q \<mapsto> p)"
    using linkD [OF pl] linkD [OF ql] pa qa n unfolding t2_def t1_def
    by (auto simp: nxt_def prv_def fun_eq_iff)
  have pL: "p \<notin> set (butlast (First # map Tl ys))" "q \<notin> set (map Tl ys)"
    using dist by (cases ys rule: rev_cases; cases zs; auto simp: p_def q_def dest: in_set_butlastD)+
  then have L': "successively (link t2) (First # map Tl ys)"
    by (intro successively_link_frame [OF L]) (auto simp: nx pv)
  have "p \<notin> set (map Tl zs)" using dist by (cases ys rule: rev_cases) (auto simp: p_def)
  moreover have "q \<notin> set (tl (map Tl zs @ [First]))" if "zs \<noteq> []"
    using dist that by (cases zs) (auto simp: q_def)
  ultimately have R': "successively (link t2) (map Tl zs @ [First])"
    by (cases "zs = []") (auto intro!: successively_link_frame [OF R] simp: nx pv)
  have "link t2 p q" by (simp add: link_def nx pv)
  with L' R' dist show "linked t2 (ys @ zs)"
    by (auto simp: linked_def successively_ring_split p_def q_def)
qed


subsection \<open>Refinement of the list operations\<close>

text \<open>What inserting means on the abstract list: behind every link that is due no later.\<close>

definition tl_insert :: "(addr \<Rightarrow> u32) \<Rightarrow> addr \<Rightarrow> addr list \<Rightarrow> addr list" where
  "tl_insert due a xs =
     takeWhile (\<lambda>b. due b \<le> due a) xs @ a # dropWhile (\<lambda>b. due b \<le> due a) xs"

lemma set_tl_insert [simp]: "set (tl_insert due a xs) = insert a (set xs)"
proof -
  have "set xs = set (takeWhile (\<lambda>b. due b \<le> due a) xs @ dropWhile (\<lambda>b. due b \<le> due a) xs)"
    by simp
  also have "\<dots> = set (takeWhile (\<lambda>b. due b \<le> due a) xs) \<union> set (dropWhile (\<lambda>b. due b \<le> due a) xs)"
    by (rule set_append)
  finally show ?thesis by (auto simp: tl_insert_def)
qed

lemma sorted_tl_insert: "sorted (map due xs) \<Longrightarrow> sorted (map due (tl_insert due a xs))"
  by (induction xs) (auto simp: tl_insert_def dest: set_takeWhileD set_dropWhileD)

lemma insert_gen_timer_unsafe_ok:
  assumes inv: "linked t xs" "sorted (map (tmo t) xs)" and a: "a \<notin> set xs" "t (Tl a) = Some n"
  shows "\<exists>t'. insert_gen_timer_unsafe t (Tl a) = Some t' \<and> linked t' (tl_insert (tmo t) a xs) \<and>
           tmo t' = tmo t \<and> (\<forall>p. p \<notin> set (ring (a # xs)) \<longrightarrow> t' p = t p)"
proof -
  define ys where "ys = takeWhile (\<lambda>b. tmo t b \<le> tmo t a) xs"
  define zs where "zs = dropWhile (\<lambda>b. tmo t b \<le> tmo t a) xs"
  have xs: "xs = ys @ zs" by (simp add: ys_def zs_def)
  define p where "p = last (First # map Tl ys)"
  define q where "q = hd (map Tl zs @ [First])"
  have ps: "p \<in> set (First # map Tl ys)" "q \<in> set (map Tl zs @ [First])"
    by (auto simp: p_def q_def hd_append hd_map last_map)
  then have "p \<in> set (ring xs)" "q \<in> set (ring xs)" by (auto simp: xs ring_def)
  then obtain np nq where np: "t p = Some np" and nq: "t q = Some nq"
    using linked_dom [OF inv(1)] by blast
  obtain f where f: "t First = Some f" using linked_dom [OF inv(1)] by (auto simp: ring_def)
  have lnk: "link t p q" and cF: "successively (link t) (First # map Tl xs)"
    and lastF: "link t (last (First # map Tl xs)) First"
    using inv(1) successively_ring_split [of "link t" ys zs] successively_ring_split [of "link t" xs "[]"]
    by (auto simp: linked_def p_def q_def xs)
  have prevF: "tl_prev f = last (First # map Tl xs)" using linkD [OF lastF] f by auto
  have tn: "tmo t a = tl_timeout n" using a(2) by (simp add: tmo_def)
  have scan: "insert_scan t (tl_timeout n) (tl_prev f) = Some p"
    using insert_scan_prefix [OF cF inv(2), of "tmo t a"] unfolding prevF p_def ys_def tn by simp
  have nxp: "tl_next np = q" using linkD [OF lnk] np by auto
  have pa: "p \<noteq> Tl a" and qa: "q \<noteq> Tl a" using ps a(1) by (auto simp: xs)
  define t1 where "t1 = t(Tl a \<mapsto> n\<lparr>tl_next := q, tl_prev := p\<rparr>)"
  define t2 where "t2 = t1(p \<mapsto> (the (t1 p))\<lparr>tl_next := Tl a\<rparr>)"
  define t3 where "t3 = t2(q \<mapsto> (the (t2 q))\<lparr>tl_prev := Tl a\<rparr>)"
  have comp: "insert_gen_timer_unsafe t (Tl a) = Some t3"
    using a(2) f scan np nq nxp pa qa
    by (auto simp: insert_gen_timer_unsafe_def t3_def t2_def t1_def)
  moreover have "linked t3 (ys @ a # zs)"
    unfolding t3_def t2_def t1_def
    using linked_insert [OF inv(1) [unfolded xs] a(1) [unfolded xs] a(2) p_def np q_def nq] by simp
  moreover have "tmo t3 = tmo t"
    using np nq pa qa a(2) unfolding t3_def t2_def t1_def
    by (auto simp: tmo_def fun_eq_iff)
  moreover have "\<forall>r. r \<notin> set (ring (a # xs)) \<longrightarrow> t3 r = t r"
    using ps unfolding t3_def t2_def t1_def by (auto simp: ring_def xs)
  ultimately show ?thesis by (auto simp: tl_insert_def ys_def zs_def)
qed

lemma remove_dlg_timer_unsafe_ok:
  assumes inv: "linked t xs" and a: "a \<in> set xs"
  shows "\<exists>t'. remove_dlg_timer_unsafe t (Tl a) = Some t' \<and> linked t' (remove1 a xs) \<and>
           tmo t' = tmo t \<and> t' (Tl a) = t (Tl a) \<and> (\<forall>p. p \<notin> set (ring xs) \<longrightarrow> t' p = t p)"
proof -
  obtain ys zs where xs: "xs = ys @ a # zs" using a by (meson split_list)
  have dist: "distinct xs" using inv by (simp add: linked_def)
  obtain n where n: "t (Tl a) = Some n" using linked_dom [OF inv] a by (auto simp: ring_def)
  define t1 where "t1 = t(tl_prev n \<mapsto> (the (t (tl_prev n)))\<lparr>tl_next := tl_next n\<rparr>)"
  define t2 where "t2 = t1(tl_next n \<mapsto> (the (t1 (tl_next n)))\<lparr>tl_prev := tl_prev n\<rparr>)"
  note R = linked_remove [OF inv [unfolded xs] n]
  have ps: "tl_prev n \<in> set (First # map Tl ys)" "tl_next n \<in> set (map Tl zs @ [First])"
    by (auto simp: R(2,3) hd_append hd_map last_map)
  obtain np nq where np: "t (tl_prev n) = Some np" "t (tl_next n) = Some nq"
    using linked_dom [OF inv, of "tl_prev n"] linked_dom [OF inv, of "tl_next n"] ps
    by (auto simp: ring_def xs)
  have ne: "tl_prev n \<noteq> Tl a" "tl_next n \<noteq> Tl a" using ps dist by (auto simp: xs)
  have "remove_dlg_timer_unsafe t (Tl a) = Some t2"
    using n np ne by (auto simp: remove_dlg_timer_unsafe_def t2_def t1_def)
  moreover have "linked t2 (remove1 a xs)"
    using R(1) dist by (simp add: t2_def t1_def xs remove1_append)
  moreover have "tmo t2 = tmo t" "t2 (Tl a) = t (Tl a)"
    using np ne unfolding t2_def t1_def by (auto simp: tmo_def fun_eq_iff)
  moreover have "\<forall>r. r \<notin> set (ring xs) \<longrightarrow> t2 r = t r"
    using ps unfolding t2_def t1_def by (auto simp: ring_def xs)
  ultimately show ?thesis by auto
qed


lemma timer_invD:
  assumes "timer_inv t xs"
  shows "linked t xs" "sorted (map (tmo t) xs)" "distinct xs" "t NULL = None" "t FAKE_DIALOG_TL = None"
  using assms by (auto simp: timer_inv_def linked_def)

lemma ring_prev:
  assumes "linked t xs" "a \<in> set xs" "t (Tl a) = Some n"
  shows "tl_prev n \<in> set (ring xs)" "tl_next n \<in> set (ring xs)"
proof -
  obtain ys zs where xs: "xs = ys @ a # zs" using assms(2) by (meson split_list)
  show "tl_prev n \<in> set (ring xs)" "tl_next n \<in> set (ring xs)"
    using linked_remove(2,3) [OF assms(1) [unfolded xs] assms(3)]
    by (auto simp: xs ring_def hd_append hd_map last_map)
qed

lemma timer_inv_member:
  assumes "timer_inv t xs" "t (Tl a) = Some n"
  shows "a \<in> set xs \<longleftrightarrow> tl_prev n \<noteq> NULL"
    and "a \<in> set xs \<Longrightarrow> tl_next n \<noteq> NULL \<and> tl_next n \<noteq> FAKE_DIALOG_TL"
  using assms ring_prev [of t xs a n] by (auto simp: timer_inv_def ring_def)

text \<open>The links a ring operation leaves alone stay detached.\<close>

lemma timer_invI:
  assumes "timer_inv t xs" "linked t' xs'" "sorted (map (tmo t') xs')"
    and "\<forall>p. p \<notin> set (ring ys) \<longrightarrow> t' p = t p" and "set xs \<subseteq> set ys"
    and "\<forall>a \<in> set ys. a \<notin> set xs' \<longrightarrow>
           (\<forall>n. t' (Tl a) = Some n \<longrightarrow> tl_prev n = NULL \<and> tl_timeout n = 0)"
  shows "timer_inv t' xs'"
proof -
  have "t' NULL = None" "t' FAKE_DIALOG_TL = None"
    using assms(1,4) by (auto simp: timer_inv_def ring_def)
  moreover have "tl_prev n = NULL \<and> tl_timeout n = 0" if "t' (Tl a) = Some n" "a \<notin> set xs'" for a n
  proof (cases "a \<in> set ys")
    case False
    then have "t (Tl a) = Some n" using assms(4) that(1) by (auto simp: ring_def)
    with False assms(1,5) show ?thesis by (auto simp: timer_inv_def)
  qed (use assms(6) that in blast)
  ultimately show ?thesis using assms(2,3) by (auto simp: timer_inv_def)
qed

lemma set_timeout_linked:
  assumes "linked t xs" "t (Tl a) = Some n"
  shows "linked (t(Tl a \<mapsto> n\<lparr>tl_timeout := v\<rparr>)) xs"
proof -
  have "nxt (t(Tl a \<mapsto> n\<lparr>tl_timeout := v\<rparr>)) = nxt t" "prv (t(Tl a \<mapsto> n\<lparr>tl_timeout := v\<rparr>)) = prv t"
    using assms(2) by (auto simp: nxt_def prv_def fun_eq_iff)
  with assms(1) show ?thesis by (simp add: linked_def link_def cong: successively_cong)
qed

lemma insert_with_timeout:
  assumes "timer_inv t xs" "a \<notin> set xs" "t (Tl a) = Some n"
  shows "\<exists>t'. insert_gen_timer_unsafe (t(Tl a \<mapsto> n\<lparr>tl_timeout := v\<rparr>)) (Tl a) = Some t' \<and>
           timer_inv t' (tl_insert (tmo t') a xs) \<and> tmo t' = (tmo t)(a := v)"
proof -
  let ?t = "t(Tl a \<mapsto> n\<lparr>tl_timeout := v\<rparr>)"
  note inv = timer_invD [OF assms(1)]
  have tm: "tmo ?t = (tmo t)(a := v)" by (auto simp: tmo_def)
  then have s: "sorted (map (tmo ?t) xs)" using inv(2) assms(2)
    by (intro sorted_map_eqI [where g = "tmo t" and f = "tmo ?t"]) auto
  from insert_gen_timer_unsafe_ok [OF set_timeout_linked [OF inv(1) assms(3)] s assms(2)]
  obtain t' where t': "insert_gen_timer_unsafe ?t (Tl a) = Some t'"
    "linked t' (tl_insert (tmo ?t) a xs)" "tmo t' = tmo ?t"
    "\<forall>p. p \<notin> set (ring (a # xs)) \<longrightarrow> t' p = ?t p" by auto
  have "timer_inv t' (tl_insert (tmo t') a xs)"
    using t' s by (intro timer_invI [OF assms(1), where ys = "a # xs"])
                  (auto simp: sorted_tl_insert ring_def)
  with t' tm show ?thesis by auto
qed

text \<open>C9. \<open>insert_dlg_timer\<close> refines the insertion into a sorted list: on a well-formed timer and
  a link that is in no list it returns 0 without reading an invalid pointer, the timer stays
  well-formed with the link behind all the links that are due no later, and no other timeout
  changes.\<close>

theorem insert_dlg_timer_refines:
  assumes "timer_inv t xs" and "t (Tl a) = Some n" and "tl_next n = NULL" "tl_prev n = NULL"
  shows "\<exists>t'. insert_dlg_timer now t (Tl a) interval = Some (t', 0) \<and>
           timer_inv t' (tl_insert (tmo t') a xs) \<and> tmo t' = (tmo t)(a := now + interval)"
proof -
  have "a \<notin> set xs" using timer_inv_member [OF assms(1,2)] assms(4) by blast
  from insert_with_timeout [OF assms(1) this assms(2), of "now + interval"]
  show ?thesis using assms(2-4) by (auto simp: insert_dlg_timer_def)
qed

lemma remove_dlg_timer_refines:
  assumes "timer_inv t xs" and "t (Tl a) = Some n"
  shows "\<exists>t'. remove_dlg_timer t (Tl a) = Some (t', if a \<in> set xs then 0 else 1) \<and>
           timer_inv t' (remove1 a xs)"
proof (cases "a \<in> set xs")
  case False
  with assms have "tl_prev n = NULL \<and> tl_timeout n = 0" by (auto simp: timer_inv_def)
  with False assms show ?thesis by (auto simp: remove_dlg_timer_def remove1_idem)
next
  case True
  note inv = timer_invD [OF assms(1)]
  from remove_dlg_timer_unsafe_ok [OF inv(1) True] obtain t' where t':
    "remove_dlg_timer_unsafe t (Tl a) = Some t'" "linked t' (remove1 a xs)" "tmo t' = tmo t"
    "t' (Tl a) = Some n" "\<forall>p. p \<notin> set (ring xs) \<longrightarrow> t' p = t p" using assms(2) by auto
  let ?t = "t'(Tl a \<mapsto> n\<lparr>tl_next := FAKE_DIALOG_TL, tl_prev := NULL, tl_timeout := 0\<rparr>)"
  have fr: "a \<notin> set (remove1 a xs)" using inv(3) by simp
  have "linked ?t (remove1 a xs)"
    using t'(2) fr unfolding linked_def
    by (auto intro!: successively_link_frame [where t = t'] simp: heap_simps ring_def
             dest: in_set_butlastD list.set_sel(2))
  moreover have "sorted (map (tmo ?t) (remove1 a xs))"
    using fr t'(3) inv(2)
    by (intro sorted_map_eqI [where g = "tmo t" and f = "tmo ?t"] sorted_map_remove1) (auto simp: heap_simps)
  ultimately have "timer_inv ?t (remove1 a xs)"
    using t'(5) inv(3) True
    by (intro timer_invI [OF assms(1), where ys = xs]) (auto simp: ring_def)
  with t' True timer_inv_member [OF assms] assms(2) show ?thesis
    by (auto simp: remove_dlg_timer_def)
qed

text \<open>C14. \<open>update_dlg_timer\<close> moves a link to the place of its new timeout, or inserts a link that
  was never in a timer; a link that a timer already removed is left alone with the return code 0,
  and one whose pointers contradict each other is refused with -1.\<close>

theorem update_dlg_timer_refines:
  assumes "timer_inv t xs" and "t (Tl a) = Some n"
  shows "\<exists>t' r. update_dlg_timer now t (Tl a) timeout = Some (t', r) \<and>
    (if tl_next n = FAKE_DIALOG_TL then t' = t \<and> r = 0
     else if a \<notin> set xs \<and> tl_next n \<noteq> NULL then t' = t \<and> r = -1
     else r = (if a \<in> set xs then 0 else 1) \<and> tmo t' = (tmo t)(a := now + timeout) \<and>
          timer_inv t' (tl_insert (tmo t') a (remove1 a xs)))"
proof (cases "a \<in> set xs")
  case False
  with timer_inv_member(1) [OF assms] have "tl_prev n = NULL" by blast
  with False assms(2) insert_with_timeout [OF assms(1) False assms(2), of "now + timeout"]
  show ?thesis by (auto simp: update_dlg_timer_def remove1_idem)
next
  case True
  note inv = timer_invD [OF assms(1)]
  note mem = timer_inv_member(1) [OF assms, THEN iffD1, OF True] timer_inv_member(2) [OF assms True]
  from remove_dlg_timer_unsafe_ok [OF inv(1) True] obtain t1 where t1:
    "remove_dlg_timer_unsafe t (Tl a) = Some t1" "linked t1 (remove1 a xs)" "tmo t1 = tmo t"
    "t1 (Tl a) = Some n" "\<forall>p. p \<notin> set (ring xs) \<longrightarrow> t1 p = t p" using assms(2) by auto
  let ?t = "t1(Tl a \<mapsto> n\<lparr>tl_timeout := now + timeout\<rparr>)"
  have fr: "a \<notin> set (remove1 a xs)" using inv(3) by simp
  have tm: "tmo ?t = (tmo t)(a := now + timeout)" using t1(3) by (auto simp: heap_simps)
  have s: "sorted (map (tmo ?t) (remove1 a xs))" using inv(2) fr
    by (intro sorted_map_eqI [where g = "tmo t" and f = "tmo ?t"] sorted_map_remove1) (auto simp: tm)
  from insert_gen_timer_unsafe_ok [OF set_timeout_linked [OF t1(2,4)] s fr]
  obtain t' where t': "insert_gen_timer_unsafe ?t (Tl a) = Some t'"
    "linked t' (tl_insert (tmo ?t) a (remove1 a xs))" "tmo t' = tmo ?t"
    "\<forall>p. p \<notin> set (ring (a # remove1 a xs)) \<longrightarrow> t' p = ?t p" by auto
  have eqs: "set (ring (a # remove1 a xs)) = set (ring xs)" using inv(3) True by (auto simp: ring_def)
  have "timer_inv t' (tl_insert (tmo t') a (remove1 a xs))"
    using t' s t1(5) inv(3) True unfolding eqs
    by (intro timer_invI [OF assms(1), where ys = xs]) (auto simp: sorted_tl_insert ring_def)
  with t' t1 tm mem True assms(2) show ?thesis by (auto simp: update_dlg_timer_def)
qed



















text \<open>The properties at the sample timer.\<close>

lemma sample_timer_inv: "timer_inv sample_timer [1, 2]"
  by (simp add: timer_inv_def linked_def ring_def link_def nxt_def prv_def tmo_def sample_timer_def)

lemma tmo_sample: "tmo sample_timer = (\<lambda>a. if a = 1 then 20 else if a = 2 then 30 else 0)"
  by (simp add: tmo_def sample_timer_def fun_eq_iff)

theorem insert_dlg_timer_refines_witness:
  "\<exists>t'. insert_dlg_timer 5 sample_timer (Tl 3) 20 = Some (t', 0) \<and> timer_inv t' [1, 3, 2] \<and> tmo t' 3 = 25"
proof -
  have "sample_timer (Tl 3) = Some \<lparr>tl_next = NULL, tl_prev = NULL, tl_timeout = 0\<rparr>"
    by (simp add: sample_timer_def)
  from insert_dlg_timer_refines [OF sample_timer_inv this, of 5 20] show ?thesis
    by (auto simp: tl_insert_def tmo_sample)
qed

theorem update_dlg_timer_refines_witness:
  "\<exists>t'. update_dlg_timer 5 sample_timer (Tl 1) 40 = Some (t', 0) \<and> timer_inv t' [2, 1] \<and> tmo t' 1 = 45"
proof -
  have "sample_timer (Tl 1) = Some \<lparr>tl_next = Tl 2, tl_prev = First, tl_timeout = 20\<rparr>"
    by (simp add: sample_timer_def)
  from update_dlg_timer_refines [OF sample_timer_inv this, of 5 40] show ?thesis
    by (auto simp: tl_insert_def tmo_sample)
qed


end
