(* ===== verification/Codec.thy ===== *)
theory Codec
  imports Sip_Prelude
begin

text \<open>
  The binary-to-text codecs of ut.c: base64, base64url, word64 (base64 over characters
  that SIP allows in a word) and base32. The buffers are byte lists; a read behind the
  end of the input is a failed computation (\<open>None\<close>). The three radix-64 codecs
  differ in their tables and in the pad character only, so their encoder, their decoder
  and the round trip are stated once, for any pair of tables that fit each other.
\<close>

subsection \<open>The tables\<close>

definition BAD :: u8 where
  "BAD = 255"

definition bytes_of :: "string \<Rightarrow> u8 list" where
  "bytes_of s = map (\<lambda>c. word_of_nat (of_char c)) s"

definition base64digits :: "u8 list" where
  "base64digits = bytes_of ''ABCDEFGHIJKLMNOPQRSTUVWXYZabcdefghijklmnopqrstuvwxyz0123456789+/''"

definition base64urldigits :: "u8 list" where
  "base64urldigits = bytes_of ''ABCDEFGHIJKLMNOPQRSTUVWXYZabcdefghijklmnopqrstuvwxyz0123456789-_''"

definition word64digits :: "u8 list" where
  "word64digits = bytes_of ''ABCDEFGHIJKLMNOPQRSTUVWXYZabcdefghijklmnopqrstuvwxyz0123456789+.''"

definition base32digits :: "u8 list" where
  "base32digits = bytes_of ''ABCDEFGHIJKLMNOPQRSTUVWXYZ234567''"

definition base64val :: "u8 list" where
  "base64val =
    [255, 255, 255, 255, 255, 255, 255, 255, 255, 255, 255, 255, 255, 255, 255, 255,
     255, 255, 255, 255, 255, 255, 255, 255, 255, 255, 255, 255, 255, 255, 255, 255,
     255, 255, 255, 255, 255, 255, 255, 255, 255, 255, 255, 62, 255, 255, 255, 63,
     52, 53, 54, 55, 56, 57, 58, 59, 60, 61, 255, 255, 255, 255, 255, 255,
     255, 0, 1, 2, 3, 4, 5, 6, 7, 8, 9, 10, 11, 12, 13, 14,
     15, 16, 17, 18, 19, 20, 21, 22, 23, 24, 25, 255, 255, 255, 255, 255,
     255, 26, 27, 28, 29, 30, 31, 32, 33, 34, 35, 36, 37, 38, 39, 40,
     41, 42, 43, 44, 45, 46, 47, 48, 49, 50, 51, 255, 255, 255, 255, 255,
     255, 255, 255, 255, 255, 255, 255, 255, 255, 255, 255, 255, 255, 255, 255, 255,
     255, 255, 255, 255, 255, 255, 255, 255, 255, 255, 255, 255, 255, 255, 255, 255,
     255, 255, 255, 255, 255, 255, 255, 255, 255, 255, 255, 255, 255, 255, 255, 255,
     255, 255, 255, 255, 255, 255, 255, 255, 255, 255, 255, 255, 255, 255, 255, 255,
     255, 255, 255, 255, 255, 255, 255, 255, 255, 255, 255, 255, 255, 255, 255, 255,
     255, 255, 255, 255, 255, 255, 255, 255, 255, 255, 255, 255, 255, 255, 255, 255,
     255, 255, 255, 255, 255, 255, 255, 255, 255, 255, 255, 255, 255, 255, 255, 255,
     255, 255, 255, 255, 255, 255, 255, 255, 255, 255, 255, 255, 255, 255, 255, 255]"

definition base64urlval :: "u8 list" where
  "base64urlval =
    [255, 255, 255, 255, 255, 255, 255, 255, 255, 255, 255, 255, 255, 255, 255, 255,
     255, 255, 255, 255, 255, 255, 255, 255, 255, 255, 255, 255, 255, 255, 255, 255,
     255, 255, 255, 255, 255, 255, 255, 255, 255, 255, 255, 255, 255, 62, 255, 255,
     52, 53, 54, 55, 56, 57, 58, 59, 60, 61, 255, 255, 255, 255, 255, 255,
     255, 0, 1, 2, 3, 4, 5, 6, 7, 8, 9, 10, 11, 12, 13, 14,
     15, 16, 17, 18, 19, 20, 21, 22, 23, 24, 25, 255, 255, 255, 255, 63,
     255, 26, 27, 28, 29, 30, 31, 32, 33, 34, 35, 36, 37, 38, 39, 40,
     41, 42, 43, 44, 45, 46, 47, 48, 49, 50, 51, 255, 255, 255, 255, 255,
     255, 255, 255, 255, 255, 255, 255, 255, 255, 255, 255, 255, 255, 255, 255, 255,
     255, 255, 255, 255, 255, 255, 255, 255, 255, 255, 255, 255, 255, 255, 255, 255,
     255, 255, 255, 255, 255, 255, 255, 255, 255, 255, 255, 255, 255, 255, 255, 255,
     255, 255, 255, 255, 255, 255, 255, 255, 255, 255, 255, 255, 255, 255, 255, 255,
     255, 255, 255, 255, 255, 255, 255, 255, 255, 255, 255, 255, 255, 255, 255, 255,
     255, 255, 255, 255, 255, 255, 255, 255, 255, 255, 255, 255, 255, 255, 255, 255,
     255, 255, 255, 255, 255, 255, 255, 255, 255, 255, 255, 255, 255, 255, 255, 255,
     255, 255, 255, 255, 255, 255, 255, 255, 255, 255, 255, 255, 255, 255, 255, 255]"

definition word64val :: "u8 list" where
  "word64val =
    [255, 255, 255, 255, 255, 255, 255, 255, 255, 255, 255, 255, 255, 255, 255, 255,
     255, 255, 255, 255, 255, 255, 255, 255, 255, 255, 255, 255, 255, 255, 255, 255,
     255, 255, 255, 255, 255, 255, 255, 255, 255, 255, 255, 62, 255, 255, 63, 255,
     52, 53, 54, 55, 56, 57, 58, 59, 60, 61, 255, 255, 255, 255, 255, 255,
     255, 0, 1, 2, 3, 4, 5, 6, 7, 8, 9, 10, 11, 12, 13, 14,
     15, 16, 17, 18, 19, 20, 21, 22, 23, 24, 25, 255, 255, 255, 255, 255,
     255, 26, 27, 28, 29, 30, 31, 32, 33, 34, 35, 36, 37, 38, 39, 40,
     41, 42, 43, 44, 45, 46, 47, 48, 49, 50, 51, 255, 255, 255, 255, 255,
     255, 255, 255, 255, 255, 255, 255, 255, 255, 255, 255, 255, 255, 255, 255, 255,
     255, 255, 255, 255, 255, 255, 255, 255, 255, 255, 255, 255, 255, 255, 255, 255,
     255, 255, 255, 255, 255, 255, 255, 255, 255, 255, 255, 255, 255, 255, 255, 255,
     255, 255, 255, 255, 255, 255, 255, 255, 255, 255, 255, 255, 255, 255, 255, 255,
     255, 255, 255, 255, 255, 255, 255, 255, 255, 255, 255, 255, 255, 255, 255, 255,
     255, 255, 255, 255, 255, 255, 255, 255, 255, 255, 255, 255, 255, 255, 255, 255,
     255, 255, 255, 255, 255, 255, 255, 255, 255, 255, 255, 255, 255, 255, 255, 255,
     255, 255, 255, 255, 255, 255, 255, 255, 255, 255, 255, 255, 255, 255, 255, 255]"

definition base32val :: "u8 list" where
  "base32val =
    [255, 255, 255, 255, 255, 255, 255, 255, 255, 255, 255, 255, 255, 255, 255, 255,
     255, 255, 255, 255, 255, 255, 255, 255, 255, 255, 255, 255, 255, 255, 255, 255,
     255, 255, 255, 255, 255, 255, 255, 255, 255, 255, 255, 255, 255, 255, 255, 255,
     255, 255, 26, 27, 28, 29, 30, 31, 255, 255, 255, 255, 255, 255, 255, 255,
     255, 0, 1, 2, 3, 4, 5, 6, 7, 8, 9, 10, 11, 12, 13, 14,
     15, 16, 17, 18, 19, 20, 21, 22, 23, 24, 25, 255, 255, 255, 255, 255,
     255, 0, 1, 2, 3, 4, 5, 6, 7, 8, 9, 10, 11, 12, 13, 14,
     15, 16, 17, 18, 19, 20, 21, 22, 23, 24, 25, 255, 255, 255, 255, 255,
     255, 255, 255, 255, 255, 255, 255, 255, 255, 255, 255, 255, 255, 255, 255, 255,
     255, 255, 255, 255, 255, 255, 255, 255, 255, 255, 255, 255, 255, 255, 255, 255,
     255, 255, 255, 255, 255, 255, 255, 255, 255, 255, 255, 255, 255, 255, 255, 255,
     255, 255, 255, 255, 255, 255, 255, 255, 255, 255, 255, 255, 255, 255, 255, 255,
     255, 255, 255, 255, 255, 255, 255, 255, 255, 255, 255, 255, 255, 255, 255, 255,
     255, 255, 255, 255, 255, 255, 255, 255, 255, 255, 255, 255, 255, 255, 255, 255,
     255, 255, 255, 255, 255, 255, 255, 255, 255, 255, 255, 255, 255, 255, 255, 255,
     255, 255, 255, 255, 255, 255, 255, 255, 255, 255, 255, 255, 255, 255, 255, 255]"

subsection \<open>Radix 64\<close>

text \<open>The C functions index the tables with bytes; every index they form is in range.\<close>

definition at :: "u8 list \<Rightarrow> u8 \<Rightarrow> u8" where
  "at tab i = tab ! unat i"

fun encode64 :: "u8 list \<Rightarrow> u8 \<Rightarrow> u8 list \<Rightarrow> u8 list" where
  "encode64 digits pad (a # b # c # rest) =
     at digits (drop_bit 2 a) #
     at digits ((push_bit 4 a AND 0x30) OR drop_bit 4 b) #
     at digits ((push_bit 2 b AND 0x3c) OR drop_bit 6 c) #
     at digits (c AND 0x3f) # encode64 digits pad rest"
| "encode64 digits pad [a, b] =
     [at digits (drop_bit 2 a), at digits ((push_bit 4 a AND 0x30) OR drop_bit 4 b),
      at digits (push_bit 2 b AND 0x3c), pad]"
| "encode64 digits pad [a] =
     [at digits (drop_bit 2 a), at digits (push_bit 4 a AND 0x30), pad, pad]"
| "encode64 digits pad [] = []"

definition base64encode :: "u8 list \<Rightarrow> u8 list" where
  "base64encode inp = encode64 base64digits 61 inp"

definition base64urlencode :: "u8 list \<Rightarrow> u8 list" where
  "base64urlencode inp = encode64 base64urldigits 61 inp"

definition word64encode :: "u8 list \<Rightarrow> u8 list" where
  "word64encode inp = encode64 word64digits 45 inp"

text \<open>
  The decoder's inner loops read at least one byte, \<open>in[i++]\<close>, whatever \<open>i\<close> is, and go
  on while the byte is no digit and input is left. The last two of them stop the whole
  decoding at a pad character, here \<open>Some None\<close>.
\<close>

fun next_digit :: "u8 list \<Rightarrow> u8 list \<Rightarrow> (u8 \<times> u8 list) option" where
  "next_digit val [] = None"
| "next_digit val (x # xs) =
     (if at val x = BAD \<and> xs \<noteq> [] then next_digit val xs else Some (at val x, xs))"

fun next_digit_pad :: "u8 list \<Rightarrow> u8 \<Rightarrow> u8 list \<Rightarrow> (u8 \<times> u8 list) option option" where
  "next_digit_pad val pad [] = None"
| "next_digit_pad val pad (x # xs) =
     (if x = pad then Some None
      else if at val x = BAD \<and> xs \<noteq> [] then next_digit_pad val pad xs
      else Some (Some (at val x, xs)))"

lemma next_digit_shorter: "next_digit val xs = Some (c, ys) \<Longrightarrow> length ys < length xs"
  by (induction val xs rule: next_digit.induct) (auto split: if_splits)

lemma next_digit_pad_shorter:
  "next_digit_pad val pad xs = Some (Some (c, ys)) \<Longrightarrow> length ys < length xs"
  by (induction val pad xs rule: next_digit_pad.induct) (auto split: if_splits)

function decode64 :: "u8 list \<Rightarrow> u8 list \<Rightarrow> u8 list \<Rightarrow> u8 list option" where
  "decode64 val inp out =
     (if inp = [] then Some out
      else case next_digit val inp of
        None \<Rightarrow> None
      | Some (c1, r1) \<Rightarrow>
         if c1 = BAD then Some out
         else case next_digit val r1 of
           None \<Rightarrow> None
         | Some (c2, r2) \<Rightarrow>
            if c2 = BAD then Some out
            else let out2 = out @ [push_bit 2 c1 OR drop_bit 4 (c2 AND 0x30)] in
              case next_digit_pad val 61 r2 of
                None \<Rightarrow> None
              | Some None \<Rightarrow> Some out2
              | Some (Some (c3, r3)) \<Rightarrow>
                 if c3 = BAD then Some out2
                 else let out3 = out2 @ [push_bit 4 (c2 AND 0x0f) OR drop_bit 2 (c3 AND 0x3c)] in
                   case next_digit_pad val 61 r3 of
                     None \<Rightarrow> None
                   | Some None \<Rightarrow> Some out3
                   | Some (Some (c4, r4)) \<Rightarrow>
                      if c4 = BAD then Some out3
                      else decode64 val r4 (out3 @ [push_bit 6 (c3 AND 0x03) OR c4]))"
  by pat_completeness auto
termination
  by (relation "measure (\<lambda>(val, inp, out). length inp)")
     (auto dest!: next_digit_shorter next_digit_pad_shorter)

declare decode64.simps [simp del]

definition base64decode :: "u8 list \<Rightarrow> u8 list option" where
  "base64decode inp = decode64 base64val inp []"

definition base64urldecode :: "u8 list \<Rightarrow> u8 list option" where
  "base64urldecode inp = decode64 base64urlval inp []"

definition word64decode :: "u8 list \<Rightarrow> u8 list option" where
  "word64decode inp = decode64 word64val inp []"


subsection \<open>Radix 32\<close>

fun base32encode :: "u8 \<Rightarrow> u8 list \<Rightarrow> u8 list" where
  "base32encode pad (a # b # c # d # e # rest) =
     at base32digits (drop_bit 3 a) #
     at base32digits ((push_bit 2 a AND 0x1c) OR drop_bit 6 b) #
     at base32digits (drop_bit 1 b AND 0x1f) #
     at base32digits ((push_bit 4 b AND 0x10) OR drop_bit 4 c) #
     at base32digits ((push_bit 1 c AND 0x1e) OR drop_bit 7 d) #
     at base32digits (drop_bit 2 d AND 0x1f) #
     at base32digits ((push_bit 3 d AND 0x18) OR drop_bit 5 e) #
     at base32digits (e AND 0x1f) # base32encode pad rest"
| "base32encode pad [a, b, c, d] =
     [at base32digits (drop_bit 3 a),
      at base32digits ((push_bit 2 a AND 0x1c) OR drop_bit 6 b),
      at base32digits (drop_bit 1 b AND 0x1f),
      at base32digits ((push_bit 4 b AND 0x10) OR drop_bit 4 c),
      at base32digits ((push_bit 1 c AND 0x1e) OR drop_bit 7 d),
      at base32digits (drop_bit 2 d AND 0x1f),
      at base32digits (push_bit 3 d AND 0x18), pad]"
| "base32encode pad [a, b, c] =
     [at base32digits (drop_bit 3 a),
      at base32digits ((push_bit 2 a AND 0x1c) OR drop_bit 6 b),
      at base32digits (drop_bit 1 b AND 0x1f),
      at base32digits ((push_bit 4 b AND 0x10) OR drop_bit 4 c),
      at base32digits (push_bit 1 c AND 0x1e), pad, pad, pad]"
| "base32encode pad [a, b] =
     [at base32digits (drop_bit 3 a),
      at base32digits ((push_bit 2 a AND 0x1c) OR drop_bit 6 b),
      at base32digits (drop_bit 1 b AND 0x1f),
      at base32digits (push_bit 4 b AND 0x10), pad, pad, pad, pad]"
| "base32encode pad [a] =
     [at base32digits (drop_bit 3 a),
      at base32digits (push_bit 2 a AND 0x1c), pad, pad, pad, pad, pad, pad]"
| "base32encode pad [] = []"

text \<open>
  One padded digit of the decoder: \<open>Inl\<close> of the decoder's result when it stops here
  (a fault, a pad character, no further digit), else the digit and the remaining input.
\<close>

definition take_digit :: "u8 \<Rightarrow> u8 list \<Rightarrow> u8 list \<Rightarrow> u8 list option + u8 \<times> u8 list" where
  "take_digit pad inp out =
     (case next_digit_pad base32val pad inp of
        None \<Rightarrow> Inl None
      | Some None \<Rightarrow> Inl (Some out)
      | Some (Some (c, rest)) \<Rightarrow> if c = BAD then Inl (Some out) else Inr (c, rest))"

lemma take_digit_shorter: "take_digit pad xs out = Inr (c, ys) \<Longrightarrow> length ys < length xs"
  by (auto simp: take_digit_def dest: next_digit_pad_shorter split: option.splits if_splits)

function base32decode_loop :: "u8 \<Rightarrow> u8 list \<Rightarrow> u8 list \<Rightarrow> u8 list option" where
  "base32decode_loop pad inp out0 =
     (if inp = [] then Some out0
      else case next_digit base32val inp of
        None \<Rightarrow> None
      | Some (c1, r1) \<Rightarrow>
      if c1 = BAD then Some out0
      else case next_digit base32val r1 of
        None \<Rightarrow> None
      | Some (c2, r2) \<Rightarrow>
      if c2 = BAD then Some out0
      else let out1 = out0 @ [push_bit 3 c1 OR drop_bit 2 (c2 AND 0x1c)] in
      case take_digit pad r2 out1 of Inl res \<Rightarrow> res | Inr (c3, r3) \<Rightarrow>
      case take_digit pad r3 out1 of Inl res \<Rightarrow> res | Inr (c4, r4) \<Rightarrow>
      let out2 = out1 @ [push_bit 6 (c2 AND 0x03) OR push_bit 1 c3 OR drop_bit 4 (c4 AND 0x10)] in
      case take_digit pad r4 out2 of Inl res \<Rightarrow> res | Inr (c5, r5) \<Rightarrow>
      let out3 = out2 @ [push_bit 4 (c4 AND 0x0f) OR drop_bit 1 (c5 AND 0x1e)] in
      case take_digit pad r5 out3 of Inl res \<Rightarrow> res | Inr (c6, r6) \<Rightarrow>
      case take_digit pad r6 out3 of Inl res \<Rightarrow> res | Inr (c7, r7) \<Rightarrow>
      let out4 = out3 @ [push_bit 7 (c5 AND 0x01) OR push_bit 2 c6 OR drop_bit 3 (c7 AND 0x18)] in
      case take_digit pad r7 out4 of Inl res \<Rightarrow> res | Inr (c8, r8) \<Rightarrow>
      base32decode_loop pad r8 (out4 @ [push_bit 5 (c7 AND 0x07) OR c8]))"
  by pat_completeness auto
termination
  by (relation "measure (\<lambda>(pad, inp, out). length inp)")
     (auto dest!: next_digit_shorter take_digit_shorter)

declare base32decode_loop.simps [simp del]

definition base32decode :: "u8 \<Rightarrow> u8 list \<Rightarrow> u8 list option" where
  "base32decode pad inp = base32decode_loop pad inp []"

subsection \<open>Digits fit their tables\<close>

lemma less_8_cases:
  "n < (8::nat) \<longleftrightarrow> n = 0 \<or> n = 1 \<or> n = 2 \<or> n = 3 \<or> n = 4 \<or> n = 5 \<or> n = 6 \<or> n = 7"
  by auto

lemma u8_eqI:
  fixes x y :: u8
  assumes "bit x 0 = bit y 0" "bit x 1 = bit y 1" "bit x 2 = bit y 2" "bit x 3 = bit y 3"
    "bit x 4 = bit y 4" "bit x 5 = bit y 5" "bit x 6 = bit y 6" "bit x 7 = bit y 7"
  shows "x = y"
proof (rule bit_word_eqI)
  fix n
  assume "n < LENGTH(8)"
  then have "n < 8" by simp
  with assms show "bit x n = bit y n" unfolding less_8_cases by auto
qed

lemma u8_bit_high [simp]: "8 \<le> n \<Longrightarrow> \<not> bit (a :: u8) n"
  using bit_imp_le_length [of a n] by auto

lemma u8_less_64:
  fixes x :: u8
  assumes "x AND 0x3f = x"
  shows "x < 64"
proof -
  have "x AND 0x3f \<le> 0x3f" by (rule word_and_le1)
  with assms have "x \<le> 0x3f" by simp
  then show ?thesis by (simp add: word_le_nat_alt word_less_nat_alt)
qed

lemma u8_less_32:
  fixes x :: u8
  assumes "x AND 0x1f = x"
  shows "x < 32"
proof -
  have "x AND 0x1f \<le> 0x1f" by (rule word_and_le1)
  with assms have "x \<le> 0x1f" by simp
  then show ?thesis by (simp add: word_le_nat_alt word_less_nat_alt)
qed

lemma radix64_small:
  fixes a b c :: u8
  shows "drop_bit 2 a < 64" "(push_bit 4 a AND 0x30) OR drop_bit 4 b < 64"
    "push_bit 4 a AND 0x30 < 64" "(push_bit 2 b AND 0x3c) OR drop_bit 6 c < 64"
    "push_bit 2 b AND 0x3c < 64" "c AND 0x3f < 64"
  by (rule u8_less_64; rule u8_eqI; simp add: bit_simps)+

text \<open>Bit by bit, shifting the digits together restores the bytes.\<close>

lemma u8_bit_times_2: "bit ((x :: u8) * 2) n \<longleftrightarrow> 0 < n \<and> n < 8 \<and> bit x (n - 1)"
  by (subst mult.commute) (auto simp: bit_double_iff)

lemmas byte_bits = bit_simps u8_bit_times_2 numeral_2_eq_2 [symmetric]

lemma small_not_BAD: "x < 64 \<Longrightarrow> x \<noteq> BAD" "x < 32 \<Longrightarrow> x \<noteq> BAD"
  by (auto simp: BAD_def word_less_nat_alt)

lemma table_lookup:
  assumes "list_all (\<lambda>n. P (word_of_nat n :: u8)) [0..<k]" and "unat i < k"
  shows "P i"
proof -
  have "P (word_of_nat (unat i))"
    using assms(1) [unfolded list_all_iff, rule_format, of "unat i"] assms(2) by simp
  then show ?thesis by simp
qed

text \<open>
  The contract between a digit table and its inverse that the round trip needs. The pad
  character is either the one the decoder stops at or no digit at all.
\<close>

locale radix64 =
  fixes digits vals :: "u8 list" and pad :: u8
  assumes val_digit: "i < 64 \<Longrightarrow> at vals (at digits i) = i"
    and digit_no_pad: "i < 64 \<Longrightarrow> at digits i \<noteq> 61"
    and pad_stops: "pad = 61 \<or> at vals pad = BAD"
begin

lemma next_digit_digit: "i < 64 \<Longrightarrow> next_digit vals (at digits i # xs) = Some (i, xs)"
  by (simp add: val_digit small_not_BAD)

lemma next_digit_pad_digit:
  "i < 64 \<Longrightarrow> next_digit_pad vals 61 (at digits i # xs) = Some (Some (i, xs))"
  by (simp add: val_digit digit_no_pad small_not_BAD)

lemma next_digit_pad_pads:
  "next_digit_pad vals 61 [pad] \<in> {Some None, Some (Some (BAD, []))}"
  "next_digit_pad vals 61 [pad, pad] \<in> {Some None, Some (Some (BAD, []))}"
  using pad_stops by auto

lemmas digit_step = Let_def next_digit_digit next_digit_pad_digit radix64_small small_not_BAD

declare next_digit.simps [simp del] next_digit_pad.simps [simp del]

lemma decode_encode: "decode64 vals (encode64 digits pad xs) out = Some (out @ xs)"
proof (induction xs arbitrary: out rule: measure_induct_rule [of length])
  case (less xs)
  consider "xs = []" | a where "xs = [a]" | a b where "xs = [a, b]"
    | a b c rest where "xs = a # b # c # rest"
    by (metis remdups_adj.cases)
  then show ?case
  proof cases
    case 1
    then show ?thesis by (simp add: decode64.simps)
  next
    case (2 a)
    then show ?thesis using next_digit_pad_pads(2)
      by (subst decode64.simps) (auto simp: digit_step, (rule u8_eqI; simp add: byte_bits)+)
  next
    case (3 a b)
    then show ?thesis using next_digit_pad_pads(1)
      by (subst decode64.simps) (auto simp: digit_step, (rule u8_eqI; simp add: byte_bits)+)
  next
    case (4 a b c rest)
    then show ?thesis using less [of rest]
      by (subst decode64.simps) (simp add: digit_step, intro conjI; rule u8_eqI; simp add: byte_bits)
  qed
qed

lemma decode_groups:
  "length xs mod 3 = 0 \<Longrightarrow>
   decode64 vals (encode64 digits pad xs @ ys) out = decode64 vals ys (out @ xs)"
proof (induction xs arbitrary: out rule: measure_induct_rule [of length])
  case (less xs)
  consider "xs = []" | a b c rest where "xs = a # b # c # rest"
    using less.prems by (cases xs; cases "tl xs"; cases "tl (tl xs)") auto
  then show ?case
  proof cases
    case (2 a b c rest)
    then have "length rest mod 3 = 0" using less.prems by (simp add: mod_Suc split: if_splits)
    with 2 show ?thesis using less.IH [of rest]
      by (subst decode64.simps) (simp add: digit_step, rule arg_cong [where f = "decode64 vals ys"], simp, intro conjI; rule u8_eqI; simp add: byte_bits)
  qed simp
qed

end

interpretation base64: radix64 base64digits base64val 61
proof unfold_locales
  fix i :: u8
  assume "i < 64"
  then have i: "unat i < 64" by (simp add: word_less_nat_alt)
  show "at base64val (at base64digits i) = i"
    by (rule table_lookup [OF _ i]) code_simp
  show "at base64digits i \<noteq> 61"
    by (rule table_lookup [OF _ i]) code_simp
qed simp

interpretation base64url: radix64 base64urldigits base64urlval 61
proof unfold_locales
  fix i :: u8
  assume "i < 64"
  then have i: "unat i < 64" by (simp add: word_less_nat_alt)
  show "at base64urlval (at base64urldigits i) = i"
    by (rule table_lookup [OF _ i]) code_simp
  show "at base64urldigits i \<noteq> 61"
    by (rule table_lookup [OF _ i]) code_simp
qed simp

interpretation word64: radix64 word64digits word64val 45
proof unfold_locales
  fix i :: u8
  assume "i < 64"
  then have i: "unat i < 64" by (simp add: word_less_nat_alt)
  show "at word64val (at word64digits i) = i"
    by (rule table_lookup [OF _ i]) code_simp
  show "at word64digits i \<noteq> 61"
    by (rule table_lookup [OF _ i]) code_simp
next
  show "45 = (61::u8) \<or> at word64val 45 = BAD" by code_simp
qed


subsection \<open>Radix 32\<close>

lemma radix32_small:
  fixes a b c d e :: u8
  shows "drop_bit 3 a < 32" "(push_bit 2 a AND 0x1c) OR drop_bit 6 b < 32" "push_bit 2 a AND 0x1c < 32"
    "drop_bit (Suc 0) b AND 0x1f < 32" "(push_bit 4 b AND 0x10) OR drop_bit 4 c < 32" "push_bit 4 b AND 0x10 < 32"
    "(c * 2 AND 0x1e) OR drop_bit 7 d < 32" "c * 2 AND 0x1e < 32"
    "drop_bit 2 d AND 0x1f < 32" "(push_bit 3 d AND 0x18) OR drop_bit 5 e < 32"
    "push_bit 3 d AND 0x18 < 32" "e AND 0x1f < 32"
  by (rule u8_less_32; rule u8_eqI; simp add: byte_bits)+

lemma base32_val_digit: "i < 32 \<Longrightarrow> at base32val (at base32digits i) = i"
  and base32_digit_no_pad: "i < 32 \<Longrightarrow> at base32digits i \<noteq> 61 \<and> at base32digits i \<noteq> 45"
proof -
  assume "i < 32"
  then have i: "unat i < 32" by (simp add: word_less_nat_alt)
  show "at base32val (at base32digits i) = i" by (rule table_lookup [OF _ i]) code_simp
  show "at base32digits i \<noteq> 61 \<and> at base32digits i \<noteq> 45" by (rule table_lookup [OF _ i]) code_simp
qed

lemma next_digit_base32: "i < 32 \<Longrightarrow> next_digit base32val (at base32digits i # xs) = Some (i, xs)"
  by (simp add: next_digit.simps base32_val_digit small_not_BAD)

lemma take_digit_base32:
  "pad \<in> {61, 45} \<Longrightarrow> i < 32 \<Longrightarrow> take_digit pad (at base32digits i # xs) out = Inr (i, xs)"
  "take_digit pad (pad # xs) out = Inl (Some out)"
  using base32_digit_no_pad by (auto simp: take_digit_def next_digit_pad.simps base32_val_digit small_not_BAD)

lemmas base32_step = Let_def next_digit_base32 take_digit_base32 small_not_BAD radix32_small

lemma base32decode_loop_encode:
  assumes "pad \<in> {61, 45}"
  shows "base32decode_loop pad (base32encode pad xs) out = Some (out @ xs)"
proof (induction xs arbitrary: out rule: measure_induct_rule [of length])
  case (less xs)
  consider "xs = []" | a where "xs = [a]" | a b where "xs = [a, b]" | a b c where "xs = [a, b, c]"
    | a b c d where "xs = [a, b, c, d]" | a b c d e rest where "xs = a # b # c # d # e # rest"
    by (metis remdups_adj.cases)
  then show ?case
  proof cases
    case 1
    then show ?thesis by (simp add: base32decode_loop.simps)
  next
    case 2
    then show ?thesis using assms
      by (subst base32decode_loop.simps) (simp add: base32_step, (rule u8_eqI; simp add: byte_bits)+)
  next
    case 3
    then show ?thesis using assms
      by (subst base32decode_loop.simps) (simp add: base32_step, intro conjI; rule u8_eqI; simp add: byte_bits)
  next
    case 4
    then show ?thesis using assms
      by (subst base32decode_loop.simps) (simp add: base32_step, intro conjI; rule u8_eqI; simp add: byte_bits)
  next
    case 5
    then show ?thesis using assms
      by (subst base32decode_loop.simps) (simp add: base32_step, intro conjI; rule u8_eqI; simp add: byte_bits)
  next
    case (6 a b c d e rest)
    then show ?thesis using assms less [of rest]
      by (subst base32decode_loop.simps) (simp add: base32_step, intro conjI; rule u8_eqI; simp add: byte_bits)
  qed
qed


subsection \<open>Round trips\<close>

text \<open>
  C13. Decoding what the base64, base64url and word64 encoders produce gives back the
  bytes, for every byte string; the decoder never reads behind the end of the input.
\<close>

theorem radix64_roundtrip:
  "base64decode (base64encode xs) = Some xs \<and>
   base64urldecode (base64urlencode xs) = Some xs \<and>
   word64decode (word64encode xs) = Some xs"
  by (simp add: base64decode_def base64encode_def base64urldecode_def base64urlencode_def
      word64decode_def word64encode_def base64.decode_encode base64url.decode_encode
      word64.decode_encode)

text \<open>
  C15. The same for base32 with either pad character the code uses (\<open>=\<close> in base32,
  \<open>-\<close> in word32).
\<close>

theorem base32_roundtrip:
  assumes "pad = 61 \<or> pad = 45"
  shows "base32decode pad (base32encode pad xs) = Some xs"
  using base32decode_loop_encode [of pad xs "[]"] assms by (simp add: base32decode_def)

theorem base32_roundtrip_witness:
  "base32encode 45 [1, 2, 3] = [65, 69, 66, 65, 71, 45, 45, 45] \<and>
   base32decode 45 (base32encode 45 [1, 2, 3]) = Some [1, 2, 3]"
proof
  show "base32encode 45 [1, 2, 3] = [65, 69, 66, 65, 71, 45, 45, 45]" by code_simp
  show "base32decode 45 (base32encode 45 [1, 2, 3]) = Some [1, 2, 3]"
    by (rule base32_roundtrip) simp
qed

definition calc_base64_encode_len :: "nat \<Rightarrow> nat" where
  "calc_base64_encode_len l = (l div 3 + (if l mod 3 \<noteq> 0 then 1 else 0)) * 4"

definition calc_base32_encode_len :: "nat \<Rightarrow> nat" where
  "calc_base32_encode_len l = (l div 5 + (if l mod 5 \<noteq> 0 then 1 else 0)) * 8"

lemma length_encode64: "length (encode64 digits pad xs) = calc_base64_encode_len (length xs)"
  by (induction digits pad xs rule: encode64.induct) (auto simp: calc_base64_encode_len_def div_add_self1)

text \<open>
  The length of an encoding is what \<open>calc_base64_encode_len\<close> and
  \<open>calc_base32_encode_len\<close> promise, so an output buffer of that size is never overrun.
\<close>

theorem encode_length:
  "length (base64encode xs) = calc_base64_encode_len (length xs) \<and>
   length (base64urlencode xs) = calc_base64_encode_len (length xs) \<and>
   length (word64encode xs) = calc_base64_encode_len (length xs) \<and>
   length (base32encode pad xs) = calc_base32_encode_len (length xs)"
proof -
  have "length (base32encode pad xs) = calc_base32_encode_len (length xs)"
    by (induction pad xs rule: base32encode.induct) (auto simp: calc_base32_encode_len_def div_add_self1)
  then show ?thesis
    by (simp add: base64encode_def base64urlencode_def word64encode_def length_encode64)
qed

text \<open>
  C16. An input whose digits stop after the first one of a group makes the decoder read
  one byte behind the end of the input: the inner loops read before they test the length.
\<close>

theorem base64decode_reads_behind:
  assumes "length xs mod 3 = 0" and "i < 64"
  shows "base64decode (base64encode xs @ [at base64digits i]) = None"
proof -
  have "base64decode (base64encode xs @ [at base64digits i]) =
        decode64 base64val [at base64digits i] xs"
    using base64.decode_groups [OF assms(1), of "[at base64digits i]" "[]"]
    by (simp add: base64decode_def base64encode_def)
  also have "\<dots> = None"
    using base64.next_digit_digit [OF assms(2), of "[]"] assms(2)
    by (subst decode64.simps) (simp add: small_not_BAD next_digit.simps(1) del: next_digit.simps(2))
  finally show ?thesis .
qed

theorem base64decode_reads_behind_witness:
  "base64decode (base64encode [77, 97, 110] @ [at base64digits 4]) = None"
  by (rule base64decode_reads_behind) (simp_all add: word_less_nat_alt)

end
