(* ===== verification/Ut.thy ===== *)
theory Ut
  imports Sip_Prelude
begin

text \<open>
  The conversions and string helpers of ut.h that the whole server is built on: decimal
  and hexadecimal numbers in both directions at their machine widths, escaping, searching
  and comparing. A C function that returns a code and writes a result through a pointer
  returns the pair here; a position in a string is \<open>Some\<close> index, a null pointer \<open>None\<close>.
\<close>

subsection \<open>Characters\<close>

text \<open>\<open>char\<close> is signed: a comparison of two characters compares these values.\<close>

definition schar :: "char \<Rightarrow> int" where
  "schar c = (if of_char c < (128 :: int) then of_char c else of_char c - 256)"

definition isdigit :: "char \<Rightarrow> bool" where
  "isdigit c \<longleftrightarrow> 48 \<le> schar c \<and> schar c \<le> 57"

definition tolower :: "char \<Rightarrow> char" where
  "tolower c = (if 65 \<le> schar c \<and> schar c \<le> 90 then char_of (of_char c + 32 :: nat) else c)"

definition hex2int :: "char \<Rightarrow> int" where
  "hex2int c =
     (if 48 \<le> schar c \<and> schar c \<le> 57 then schar c - 48
      else if 97 \<le> schar c \<and> schar c \<le> 102 then schar c - 97 + 10
      else if 65 \<le> schar c \<and> schar c \<le> 70 then schar c - 65 + 10
      else -1)"

definition fourbits2char :: "nat \<Rightarrow> char" where
  "fourbits2char n = ''0123456789abcdef'' ! n"

subsection \<open>Decimal numbers\<close>

text \<open>The digit loop shared by \<open>str2short\<close>, \<open>str2int\<close> and \<open>str2int64\<close>, at any width.\<close>

fun dec_loop :: "'a::len word \<Rightarrow> str \<Rightarrow> int \<times> 'a word" where
  "dec_loop r [] = (0, r)"
| "dec_loop r (c # cs) =
     (if isdigit c then dec_loop (r * 10 + word_of_int (schar c - 48)) cs else (-1, r))"

definition str2short :: "str \<Rightarrow> u16 \<Rightarrow> int \<times> u16" where
  "str2short s r = (if s = [] then (-1, r) else dec_loop 0 s)"

definition str2int :: "str \<Rightarrow> u32 \<Rightarrow> int \<times> u32" where
  "str2int s r = (if s = [] then (-1, r) else dec_loop 0 s)"

definition str2int64 :: "str \<Rightarrow> u64 \<Rightarrow> int \<times> u64" where
  "str2int64 s r = (if s = [] then (-1, r) else dec_loop 0 s)"

text \<open>\<open>str2s\<close> also counts the digits; the pair is the number and \<open>*err\<close>.\<close>

fun str2s_loop :: "u16 \<Rightarrow> nat \<Rightarrow> str \<Rightarrow> u16 \<times> int" where
  "str2s_loop ret i [] = (ret, 0)"
| "str2s_loop ret i (c # cs) =
     (if isdigit c then
        (if Suc i > 5 then (0, 1)
         else str2s_loop (ret * 10 + word_of_int (schar c - 48)) (Suc i) cs)
      else (0, 1))"

definition str2s :: "str \<Rightarrow> u16 \<times> int" where
  "str2s s = str2s_loop 0 0 s"



text \<open>\<open>btostr\<close> and \<open>rctostr\<close>: at most three digits of a byte or a reply code.\<close>

definition digit_char :: "nat \<Rightarrow> char" where
  "digit_char d = char_of (d + 48)"

definition btostr :: "u8 \<Rightarrow> str" where
  "btostr val =
     (let v = unat val; a = v div 100; b = v mod 100 div 10
      in (if a \<noteq> 0 then [digit_char a] else []) @
         (if b \<noteq> 0 \<or> a \<noteq> 0 then [digit_char b] else []) @ [digit_char (v mod 10)])"

definition rctostr :: "u32 \<Rightarrow> str" where
  "rctostr val =
     (let v = unat val; a = v div 100; b = v mod 100 div 10
      in (if a \<noteq> 0 then [digit_char a] else []) @
         (if b \<noteq> 0 \<or> a \<noteq> 0 then [digit_char b] else []) @ [digit_char (v mod 10)])"






subsection \<open>Hexadecimal numbers\<close>

text \<open>\<open>reverse_hex2int\<close> walks the string from its last character to its first.\<close>

fun rhex_loop :: "'a::len word \<Rightarrow> str \<Rightarrow> int \<times> 'a word" where
  "rhex_loop r [] = (0, r)"
| "rhex_loop r (c # cs) =
     (if hex2int c \<ge> 0 then rhex_loop (push_bit 4 r + word_of_int (hex2int c)) cs
      else (-1, push_bit 4 r))"

definition reverse_hex2int :: "str \<Rightarrow> int \<times> u32" where
  "reverse_hex2int c = rhex_loop 0 (rev c)"

fun rhex64_loop :: "bool \<Rightarrow> u64 \<Rightarrow> str \<Rightarrow> int \<times> u64" where
  "rhex64_loop unsafe r [] = (0, r)"
| "rhex64_loop unsafe r (c # cs) =
     (if hex2int c \<ge> 0 then rhex64_loop unsafe (push_bit 4 r + word_of_int (hex2int c)) cs
      else if unsafe then (0, push_bit 4 r) else (-1, push_bit 4 r))"

definition reverse_hex2int64 :: "str \<Rightarrow> bool \<Rightarrow> int \<times> u64" where
  "reverse_hex2int64 c unsafe = rhex64_loop unsafe 0 (rev c)"

text \<open>
  \<open>int2reverse_hex\<close>: the digits of the number, least significant first, as long as the
  buffer has room; the result is the bytes written, the room left and the return code.
\<close>

fun to_rhex_loop :: "nat \<Rightarrow> 'a::len word \<Rightarrow> str \<times> nat \<times> 'a word" where
  "to_rhex_loop 0 nr = ([], 0, nr)"
| "to_rhex_loop (Suc room) nr =
     (if nr = 0 then ([], Suc room, nr)
      else case to_rhex_loop room (drop_bit 4 nr) of
             (s, rest) \<Rightarrow> (fourbits2char (unat (nr AND 0xf)) # s, rest))"

definition to_rhex :: "nat \<Rightarrow> 'a::len word \<Rightarrow> str \<times> nat \<times> int" where
  "to_rhex room nr =
     (if room \<noteq> 0 \<and> nr = 0 then (''0'', room - 1, 1)
      else case to_rhex_loop room nr of (s, room', nr') \<Rightarrow> (s, room', if nr' \<noteq> 0 then -1 else 1))"

definition int2reverse_hex :: "nat \<Rightarrow> u32 \<Rightarrow> str \<times> nat \<times> int" where
  "int2reverse_hex room nr = to_rhex room nr"

definition int64_2reverse_hex :: "nat \<Rightarrow> u64 \<Rightarrow> str \<times> nat \<times> int" where
  "int64_2reverse_hex room nr = to_rhex room nr"

text \<open>\<open>hexstr2int\<close> writes \<open>*val\<close> on success only; on an error the old value stays.\<close>

definition hexstr2int :: "str \<Rightarrow> u32 \<Rightarrow> int \<times> u32" where
  "hexstr2int c val = (case rhex_loop 0 c of (ret, r) \<Rightarrow> if ret = 0 then (0, r) else (-1, val))"

definition strno2int :: "str \<Rightarrow> u32 \<Rightarrow> int \<times> u32" where
  "strno2int val msk =
     (case val of
        CHR ''0'' # CHR ''x'' # d # ds \<Rightarrow> hexstr2int (d # ds) msk
      | _ \<Rightarrow> str2int val msk)"

fun string2hex_loop :: "str \<Rightarrow> str" where
  "string2hex_loop [] = []"
| "string2hex_loop (c # cs) =
     fourbits2char (of_char c div 16) # fourbits2char (of_char c mod 16) # string2hex_loop cs"

definition string2hex :: "str \<Rightarrow> str \<times> int" where
  "string2hex s = (if s = [] then (''0'', 1) else (string2hex_loop s, int (length s) * 2))"

fun hex2string_loop :: "str \<Rightarrow> str option" where
  "hex2string_loop (h # l # rest) =
     (if hex2int h \<ge> 0 \<and> hex2int l \<ge> 0
      then map_option (\<lambda>t. char_of (nat (hex2int h * 16 + hex2int l)) # t) (hex2string_loop rest)
      else None)"
| "hex2string_loop _ = Some []"

definition hex2string :: "str \<Rightarrow> str option \<times> int" where
  "hex2string s =
     (case hex2string_loop s of None \<Rightarrow> (None, -1) | Some t \<Rightarrow> (Some t, int (length s div 2)))"

subsection \<open>Escapes\<close>

text \<open>
  \<open>un_escape\<close>: the return code (the length, or -1) and the new user part, which on an
  error holds what was translated so far.
\<close>

fun un_escape_loop :: "str \<Rightarrow> str \<Rightarrow> int \<times> str" where
  "un_escape_loop out [] = (int (length out), out)"
| "un_escape_loop out (c # cs) =
     (if c = CHR ''%'' then
        (case cs of
           h # l # rest \<Rightarrow>
             if hex2int h < 0 then (-1, out)
             else if hex2int l < 0 then (-1, out)
             else (let value = hex2int h * 16 + hex2int l
                   in if value < 32 \<or> value > 126 then (-1, out)
                      else un_escape_loop (out @ [char_of (nat value)]) rest)
         | _ \<Rightarrow> (-1, out))
      else un_escape_loop (out @ [c]) cs)"

definition un_escape :: "str \<Rightarrow> int \<times> str" where
  "un_escape user = un_escape_loop [] user"

text \<open>
  \<open>unescape_crlf\<close> works in place: \<open>buf\<close> is the buffer, \<open>p\<close> the index and \<open>len\<close> the
  length that shrinks, while the limit of the walk stays the length at entry.
\<close>

definition memmove_left :: "str \<Rightarrow> nat \<Rightarrow> str" where
  "memmove_left buf p = take (p + 1) buf @ drop (p + 2) buf @ [last buf]"

function crlf_loop :: "str \<Rightarrow> nat \<Rightarrow> nat \<Rightarrow> str \<times> nat" where
  "crlf_loop buf p len =
     (if p < length buf then
        (if buf ! p = CHR 0x5C \<and> p + 1 < length buf then
           (if buf ! (p + 1) = CHR ''r''
            then crlf_loop (memmove_left (buf[p := CHR 0x0D]) p) (p + 1) (len - 1)
            else if buf ! (p + 1) = CHR ''n''
            then crlf_loop (memmove_left (buf[p := CHR 0x0A]) p) (p + 1) (len - 1)
            else crlf_loop buf (p + 1) len)
         else crlf_loop buf (p + 1) len)
      else (buf, len))"
  by pat_completeness auto
termination
  by (relation "measure (\<lambda>(buf, p, len). length buf - p)") (auto simp: memmove_left_def)

declare crlf_loop.simps [simp del]

definition unescape_crlf :: "str \<Rightarrow> str" where
  "unescape_crlf s =
     (if s = [] then s else case crlf_loop s 0 (length s) of (buf, len) \<Rightarrow> take len buf)"

subsection \<open>Classification\<close>

definition is_e164 :: "str \<Rightarrow> bool \<Rightarrow> nat \<Rightarrow> int" where
  "is_e164 user require_plus max_digits =
     (case user of
        [] \<Rightarrow> -1
      | c # cs \<Rightarrow>
         if c \<noteq> CHR ''+'' \<and> require_plus then -1
         else (let ds = (if c = CHR ''+'' then cs else user)
               in if length ds < 2 \<or> length ds > max_digits then -1
                  else if list_all isdigit ds then 1 else -1))"

definition strlower :: "str \<Rightarrow> str" where
  "strlower s = map tolower s"

text \<open>\<open>str_check_token\<close> walks from the last character to the first.\<close>

definition token_char :: "char \<Rightarrow> bool" where
  "token_char c \<longleftrightarrow>
     97 \<le> schar c \<and> schar c \<le> 122 \<or> 65 \<le> schar c \<and> schar c \<le> 90 \<or> 48 \<le> schar c \<and> schar c \<le> 57 \<or>
     c = CHR ''-'' \<or> c = CHR ''.'' \<or> c = CHR ''!'' \<or> c = CHR ''%'' \<or> c = CHR ''*'' \<or>
     c = CHR ''_'' \<or> c = CHR ''+'' \<or> c = CHR 0x60 \<or> c = CHR 0x27 \<or> c = CHR ''~''"

fun token_loop :: "str \<Rightarrow> int" where
  "token_loop [] = 1"
| "token_loop (c # cs) = (if \<not> token_char c then 0 else token_loop cs)"

definition str_check_token :: "str \<Rightarrow> int" where
  "str_check_token s = (if s = [] then -1 else token_loop (rev s))"

subsection \<open>Comparing\<close>

fun casematch_loop :: "str \<Rightarrow> str \<Rightarrow> bool" where
  "casematch_loop (p # ps) (q # qs) =
     (if tolower p \<noteq> tolower q then False else if ps = [] then True else casematch_loop ps qs)"
| "casematch_loop _ _ = True"

definition str_casematch :: "str \<Rightarrow> str \<Rightarrow> bool" where
  "str_casematch a b =
     (if length a \<noteq> length b then False else if length a = 0 then True else casematch_loop a b)"

definition str_match :: "str \<Rightarrow> str \<Rightarrow> bool" where
  "str_match a b \<longleftrightarrow> length a = length b \<and> take (length a) a = take (length a) b"

text \<open>The first difference among the common indices decides, then the lengths.\<close>

fun cmp_loop :: "(char \<Rightarrow> char) \<Rightarrow> str \<Rightarrow> str \<Rightarrow> int option" where
  "cmp_loop f (a # as) (b # bs) =
     (if schar (f a) < schar (f b) then Some (-1)
      else if schar (f a) > schar (f b) then Some 1
      else cmp_loop f as bs)"
| "cmp_loop f _ _ = None"

definition cmp_lengths :: "str \<Rightarrow> str \<Rightarrow> int" where
  "cmp_lengths a b = (if length a < length b then -1 else if length a > length b then 1 else 0)"

definition str_strcmp :: "str \<Rightarrow> str \<Rightarrow> int" where
  "str_strcmp a b = (case cmp_loop id a b of Some r \<Rightarrow> r | None \<Rightarrow> cmp_lengths a b)"

definition str_strcasecmp :: "str \<Rightarrow> str \<Rightarrow> int" where
  "str_strcasecmp a b = (case cmp_loop tolower a b of Some r \<Rightarrow> r | None \<Rightarrow> cmp_lengths a b)"

definition str_strncasecmp :: "str \<Rightarrow> str \<Rightarrow> nat \<Rightarrow> int" where
  "str_strncasecmp a b n =
     (if length a < n \<or> length b < n then -2
      else case cmp_loop tolower (take n a) (take n b) of Some r \<Rightarrow> r | None \<Rightarrow> 0)"

subsection \<open>Searching\<close>

text \<open>
  \<open>q_memchr\<close> and \<open>q_memrchr\<close> compare the signed \<open>*p\<close> with the unsigned \<open>(unsigned char)c\<close>.
\<close>

fun q_memchr :: "str \<Rightarrow> char \<Rightarrow> nat option" where
  "q_memchr [] c = None"
| "q_memchr (p # ps) c = (if schar p = of_char c then Some 0 else map_option Suc (q_memchr ps c))"

definition q_memrchr :: "str \<Rightarrow> char \<Rightarrow> nat option" where
  "q_memrchr s c = map_option (\<lambda>i. length s - 1 - i) (q_memchr (rev s) c)"

text \<open>The comparison from the second character on, in the inner loop of \<open>str_strstr\<close>.\<close>

fun tail_match :: "(char \<Rightarrow> char) \<Rightarrow> str \<Rightarrow> str \<Rightarrow> bool" where
  "tail_match f (a # as) (b # bs) = (if f a \<noteq> f b then False else tail_match f as bs)"
| "tail_match f as bs = (bs = [])"

function strstr_loop :: "(char \<Rightarrow> char) \<Rightarrow> str \<Rightarrow> str \<Rightarrow> nat \<Rightarrow> nat option" where
  "strstr_loop f a b len =
     (if length a < len + length b \<or> b = [] then None
      else if f (a ! len) \<noteq> f (b ! 0) then strstr_loop f a b (len + 1)
      else if tail_match f (drop (len + 1) a) (drop 1 b) then Some len
      else strstr_loop f a b (len + 1))"
  by pat_completeness auto
termination
  by (relation "measure (\<lambda>(f, a, b, len). Suc (length a) - len)") auto

declare strstr_loop.simps [simp del]

definition str_strstr :: "str \<Rightarrow> str \<Rightarrow> nat option" where
  "str_strstr a b =
     (if a = [] \<or> b = [] then None
      else if length b > length a then None else strstr_loop id a b 0)"

definition str_strcasestr :: "str \<Rightarrow> str \<Rightarrow> nat option" where
  "str_strcasestr a b =
     (if a = [] \<or> b = [] then None
      else if length b > length a then None else strstr_loop tolower a b 0)"

function memmem_loop :: "str \<Rightarrow> str \<Rightarrow> nat \<Rightarrow> nat option" where
  "memmem_loop b1 b2 sp =
     (if length b1 < sp + length b2 \<or> b2 = [] then None
      else if b1 ! sp = b2 ! 0 \<and> take (length b2) (drop sp b1) = b2 then Some sp
      else memmem_loop b1 b2 (sp + 1))"
  by pat_completeness auto
termination
  by (relation "measure (\<lambda>(b1, b2, sp). Suc (length b1) - sp)") auto

declare memmem_loop.simps [simp del]

definition l_memmem :: "str \<Rightarrow> str \<Rightarrow> nat option" where
  "l_memmem b1 b2 = (if b1 = [] \<or> b2 = [] then None else memmem_loop b1 b2 0)"

subsection \<open>Reference definitions\<close>

text \<open>The value of a decimal string, and the decimal string of a number.\<close>

definition digit_val :: "char \<Rightarrow> nat" where
  "digit_val c = of_char c - 48"

fun dec_val :: "nat \<Rightarrow> str \<Rightarrow> nat" where
  "dec_val v [] = v"
| "dec_val v (c # cs) = dec_val (10 * v + digit_val c) cs"



text \<open>The order of signed characters, and where a string occurs in another.\<close>

definition schar_less :: "(char \<times> char) set" where
  "schar_less = {(x, y). schar x < schar y}"

definition occurs :: "(char \<Rightarrow> char) \<Rightarrow> str \<Rightarrow> str \<Rightarrow> nat \<Rightarrow> bool" where
  "occurs f a b i \<longleftrightarrow>
     b \<noteq> [] \<and> i + length b \<le> length a \<and> map f (take (length b) (drop i a)) = map f b"

definition first_occurrence :: "(char \<Rightarrow> char) \<Rightarrow> str \<Rightarrow> str \<Rightarrow> nat option" where
  "first_occurrence f a b = List.find (occurs f a b) [0..<length a]"

text \<open>The reference for \<open>unescape_crlf\<close>: one pass over the string.\<close>

fun crlf_decode :: "str \<Rightarrow> str" where
  "crlf_decode (a # b # cs) =
     (if a = CHR 0x5C \<and> b = CHR ''r'' then CHR 0x0D # crlf_decode cs
      else if a = CHR 0x5C \<and> b = CHR ''n'' then CHR 0x0A # crlf_decode cs
      else a # crlf_decode (b # cs))"
| "crlf_decode [a] = [a]"
| "crlf_decode [] = []"

subsection \<open>Digits\<close>

lemma of_char_less: "int (of_char c) < 256"
proof -
  have "(of_char c :: nat) < 256" by (metis of_char_mod_256 mod_less_divisor zero_less_numeral)
  then show ?thesis by linarith
qed

lemma of_char_int: "(of_char c :: int) = int (of_char c)"
  by (metis of_nat_of_char)

lemma of_char_schar: "int (of_char c) = (if schar c < 0 then schar c + 256 else schar c)"
proof (cases "int (of_char c) < 128")
  case True
  then show ?thesis unfolding schar_def of_char_int by simp
next
  case False
  then show ?thesis using of_char_less [of c] unfolding schar_def of_char_int by (simp only: if_False split: if_split) linarith
qed

lemma schar_eq_iff [simp]: "schar a = schar b \<longleftrightarrow> a = b"
proof
  assume "schar a = schar b"
  then have "int (of_char a) = int (of_char b)" by (simp only: of_char_schar)
  then show "a = b" by simp
qed simp

lemma schar_bounds: "-128 \<le> schar c" "schar c \<le> 127"
  by (use of_char_less [of c] in \<open>simp_all only: schar_def of_char_int split: if_split\<close>) linarith+

lemma isdigit_of_char: "isdigit c \<longleftrightarrow> 48 \<le> (of_char c :: nat) \<and> (of_char c :: nat) \<le> 57"
  using schar_bounds(1) [of c] of_char_schar [of c] unfolding isdigit_def by (simp only: split: if_splits) linarith+

lemma isdigit_schar: "isdigit c \<Longrightarrow> schar c - 48 = int (digit_val c)"
  by (auto simp: isdigit_of_char schar_def digit_val_def of_char_int)

lemma digit_char [simp]:
  "d < 10 \<Longrightarrow> isdigit (digit_char d)" "d < 10 \<Longrightarrow> digit_val (digit_char d) = d"
  by (auto simp: isdigit_of_char digit_val_def digit_char_def)

lemma dec_loop_step:
  "isdigit c \<Longrightarrow> dec_loop (word_of_nat v) (c # cs) = dec_loop (word_of_nat (10 * v + digit_val c)) cs"
  by (simp add: isdigit_schar mult.commute)

lemma dec_loop_digits:
  "list_all isdigit s \<Longrightarrow> dec_loop (word_of_nat v :: 'a::len word) (s @ t) = dec_loop (word_of_nat (dec_val v s)) t"
proof (induction s arbitrary: v)
  case (Cons c s)
  have "dec_loop (word_of_nat v :: 'a word) ((c # s) @ t) = dec_loop (word_of_nat (10 * v + digit_val c)) (s @ t)"
    using dec_loop_step [of c v "s @ t"] Cons.prems by simp
  also have "\<dots> = dec_loop (word_of_nat (dec_val v (c # s))) t"
    using Cons.IH [of "10 * v + digit_val c"] Cons.prems by simp
  finally show ?case .
qed simp

lemma dec_loop_bad: "\<not> list_all isdigit s \<Longrightarrow> fst (dec_loop r s) = -1"
  by (induction r s rule: dec_loop.induct) auto

lemma dec_loop_value:
  "list_all isdigit s \<Longrightarrow> dec_loop (0 :: 'a::len word) s = (0, word_of_nat (dec_val 0 s))"
  using dec_loop_digits [of s 0 "[]"] by simp

lemma dec_loop_code: "fst (dec_loop (0 :: 'a::len word) s) = (if list_all isdigit s then 0 else -1)"
  by (simp add: dec_loop_value dec_loop_bad)


















subsection \<open>Hexadecimal digits\<close>

lemma hex2int_fourbits: "n < 16 \<Longrightarrow> hex2int (fourbits2char n) = int n"
proof -
  assume "n < 16"
  moreover have "list_all (\<lambda>n. hex2int (fourbits2char n) = int n) [0..<16]" by code_simp
  ultimately show ?thesis by (simp add: list_all_iff)
qed

lemma hex2string_string2hex_loop: "hex2string_loop (string2hex_loop s) = Some s"
proof (induction s)
  case (Cons c cs)
  have c: "of_char c div 16 < (16::nat)" using of_char_less [of c] by linarith
  have "int (of_char c div 16) * 16 + int (of_char c mod 16) = int (of_char c)"
    using div_mult_mod_eq [of "of_char c :: nat" 16] by linarith
  with Cons c show ?case by (simp add: hex2int_fourbits del: of_nat_of_char)
qed simp

lemma length_string2hex_loop: "length (string2hex_loop s) = 2 * length s"
  by (induction s) auto

lemma rhex_loop_append:
  "rhex_loop r s = (0, r') \<Longrightarrow> rhex_loop r (s @ t) = rhex_loop r' t"
  by (induction r s rule: rhex_loop.induct) (auto split: if_splits)

lemma rhex64_loop_append:
  "rhex64_loop u r s = (0, r') \<Longrightarrow> \<not> u \<Longrightarrow> rhex64_loop u r (s @ t) = rhex64_loop u r' t"
  by (induction u r s rule: rhex64_loop.induct) (auto split: if_splits)

lemma rhex64_loop_strict: "rhex64_loop False r s = rhex_loop r s"
  by (induction r s rule: rhex_loop.induct) auto

lemma nibble_take_bit: "(nr :: 'a::len word) AND 0xf = take_bit 4 nr"
  by (simp add: take_bit_eq_mask mask_eq_exp_minus_1)

lemma nibble: "unat ((nr :: 'a::len word) AND 0xf) < 16"
  using take_bit_nat_less_exp [of 4 "unat nr"] by (simp add: nibble_take_bit unsigned_take_bit_eq)

lemma nibble_join: "push_bit 4 (drop_bit 4 nr) + word_of_int (int (unat (nr AND 0xf))) = (nr :: 'a::len word)"
    and nibble_join': "push_bit 4 (drop_bit 4 nr) + (nr AND 0xf) = nr"
  using bits_ident [of 4 nr] by (simp_all add: nibble_take_bit)

lemma to_rhex_loop_spec:
  "case to_rhex_loop room nr of (s, room', nr') \<Rightarrow>
     length s + room' = room \<and> (nr' = 0 \<longleftrightarrow> unat nr < 16 ^ room) \<and>
     (nr' = 0 \<longrightarrow> rhex_loop 0 (rev s) = (0, nr))"
proof (induction room nr rule: to_rhex_loop.induct)
  case (2 room nr)
  obtain s room' nr' where rec: "to_rhex_loop room (drop_bit 4 nr) = (s, room', nr')"
    by (cases "to_rhex_loop room (drop_bit 4 nr)") auto
  have small: "unat nr < 16 ^ Suc room \<longleftrightarrow> unat (drop_bit 4 nr) < 16 ^ room"
    by (subst unat_drop_bit_eq) (simp add: drop_bit_eq_div div_less_iff_less_mult mult.commute)
  show ?case
  proof (cases "nr = 0")
    case False
    from "2.IH" [OF False] rec small False show ?thesis
      by (auto simp: rhex_loop_append hex2int_fourbits nibble nibble_join')
  qed simp
qed (auto simp: unat_eq_zero)

lemma to_rhex_spec:
  "case to_rhex room nr of (s, room', ret) \<Rightarrow>
     length s + room' = room \<and> ret \<in> {-1, 1} \<and> (ret = 1 \<longleftrightarrow> unat nr < 16 ^ room) \<and>
     (ret = 1 \<longrightarrow> rhex_loop 0 (rev s) = (0, nr))"
proof (cases "room \<noteq> 0 \<and> nr = 0")
  case True
  then show ?thesis by (simp add: to_rhex_def hex2int_def schar_def)
next
  case False
  then show ?thesis using to_rhex_loop_spec [of room nr]
    by (auto simp: to_rhex_def split: prod.splits)
qed

lemma char_index_first:
  "q_memchr s c = (if schar c < 0 then None else
     (if c \<in> set s then Some (length (takeWhile (\<lambda>x. x \<noteq> c) s)) else None))"
proof (induction s)
  case (Cons p ps)
  have "schar p = of_char c \<longleftrightarrow> \<not> schar c < 0 \<and> p = c"
    using schar_bounds [of p] schar_bounds [of c] of_char_schar [of c] schar_eq_iff [of p c]
    unfolding of_char_int by (cases "schar c < 0") simp_all
  with Cons show ?case by auto
qed simp

lemma cmp_loop_map: "cmp_loop f a b = cmp_loop id (map f a) (map f b)"
  by (induction f a b rule: cmp_loop.induct) auto

lemma str_strcmp_Cons:
  "str_strcmp (x # a) (y # b) =
     (if schar x < schar y then -1 else if schar y < schar x then 1 else str_strcmp a b)"
  by (simp add: str_strcmp_def cmp_lengths_def split: option.split)

lemma str_strcmp_lexord:
  "str_strcmp a b = (if a = b then 0 else if (a, b) \<in> lexord schar_less then -1 else 1)"
proof (induction a arbitrary: b)
  case Nil
  show ?case by (cases b) (auto simp: str_strcmp_def cmp_lengths_def)
next
  case (Cons x a)
  show ?case
  proof (cases b)
    case b: (Cons y b')
    have "schar x = schar y \<longleftrightarrow> x = y" by simp
    then consider "schar x < schar y" "x \<noteq> y" | "schar y < schar x" "x \<noteq> y" | "x = y" by linarith
    then show ?thesis by cases (simp_all add: b Cons.IH str_strcmp_Cons schar_less_def)
  qed (simp add: str_strcmp_def cmp_lengths_def)
qed

lemma str_strcasecmp_lower: "str_strcasecmp a b = str_strcmp (strlower a) (strlower b)"
  by (simp add: str_strcasecmp_def str_strcmp_def strlower_def cmp_loop_map [of tolower] cmp_lengths_def
      split: option.splits)

lemma casematch_loop_map: "length a = length b \<Longrightarrow> casematch_loop a b \<longleftrightarrow> map tolower a = map tolower b"
  by (induction a b rule: casematch_loop.induct) auto

lemma str_casematch_lower: "str_casematch a b \<longleftrightarrow> strlower a = strlower b"
  using map_eq_imp_length_eq [of tolower a tolower b] casematch_loop_map [of a b]
  by (auto simp: str_casematch_def strlower_def)

lemma tail_match_prefix:
  "length bs \<le> length as \<Longrightarrow> tail_match f as bs \<longleftrightarrow> map f (take (length bs) as) = map f bs"
  by (induction f as bs rule: tail_match.induct) auto

lemma strstr_hit:
  assumes "b \<noteq> []" "len + length b \<le> length a"
  shows "f (a ! len) = f (b ! 0) \<and> tail_match f (drop (len + 1) a) (drop 1 b) \<longleftrightarrow> occurs f a b len"
proof -
  from assms obtain y b' where b: "b = y # b'" by (cases b) auto
  then have "drop len a = a ! len # drop (len + 1) a" using assms by (simp add: Cons_nth_drop_Suc)
  with b assms show ?thesis by (auto simp: occurs_def tail_match_prefix)
qed

lemma strstr_loop_find: "strstr_loop f a b len = List.find (occurs f a b) [len..<length a]"
proof (induction f a b len rule: strstr_loop.induct)
  case (1 f a b len)
  show ?case
  proof (cases "length a < len + length b \<or> b = []")
    case True
    then have "\<not> occurs f a b i" if "len \<le> i" for i using that by (auto simp: occurs_def)
    then have "List.find (occurs f a b) [len..<length a] = None" by (auto simp: find_None_iff)
    with True show ?thesis by (simp add: strstr_loop.simps)
  next
    case False
    then have up: "[len..<length a] = len # [len + 1..<length a]"
      by (cases b) (simp_all add: upt_conv_Cons)
    from False have hit: "f (a ! len) = f (b ! 0) \<and> tail_match f (drop (len + 1) a) (drop 1 b) \<longleftrightarrow> occurs f a b len"
      by (intro strstr_hit) auto
    show ?thesis
    proof (cases "occurs f a b len")
      case True
      with hit False up show ?thesis by (subst strstr_loop.simps) simp
    next
      case no: False
      then have "strstr_loop f a b len = strstr_loop f a b (len + 1)"
        using hit False by (subst strstr_loop.simps) auto
      also have "\<dots> = List.find (occurs f a b) [len + 1..<length a]"
        using "1.IH" False hit no by (cases "f (a ! len) = f (b ! 0)") simp_all
      finally show ?thesis using no up by simp
    qed
  qed
qed

lemma memmem_loop_strstr: "memmem_loop a b len = strstr_loop id a b len"
proof (induction a b len rule: memmem_loop.induct)
  case (1 a b len)
  show ?case
  proof (cases "length a < len + length b \<or> b = []")
    case True
    then show ?thesis by (simp add: memmem_loop.simps strstr_loop.simps)
  next
    case False
    then have hit: "a ! len = b ! 0 \<and> tail_match id (drop (len + 1) a) (drop 1 b) \<longleftrightarrow> occurs id a b len"
      using strstr_hit [of b len a id] by auto
    have "a ! len = b ! 0 \<and> take (length b) (drop len a) = b \<longleftrightarrow> occurs id a b len"
      using hit False by (auto simp: occurs_def)
    with "1.IH" hit False show ?thesis
      by (subst memmem_loop.simps, subst strstr_loop.simps) (auto simp: id_def)
  qed
qed

lemma strstr_first:
  "str_strstr a b = first_occurrence id a b" "str_strcasestr a b = first_occurrence tolower a b"
  "l_memmem a b = first_occurrence id a b"
proof -
  have none: "first_occurrence f a b = None" if "a = [] \<or> b = [] \<or> length a < length b" for f
    using that by (auto simp: first_occurrence_def find_None_iff occurs_def)
  show "str_strstr a b = first_occurrence id a b" "str_strcasestr a b = first_occurrence tolower a b"
    using none by (auto simp: str_strstr_def str_strcasestr_def strstr_loop_find first_occurrence_def)
  show "l_memmem a b = first_occurrence id a b"
    using none by (auto simp: l_memmem_def memmem_loop_strstr strstr_loop_find first_occurrence_def)
qed

lemma to_rhex_loop_numeral:
  "to_rhex_loop (numeral k) nr =
     (if nr = 0 then ([], numeral k, nr)
      else case to_rhex_loop (pred_numeral k) (drop_bit 4 nr) of
             (s, rest) \<Rightarrow> (fourbits2char (unat (nr AND 0xf)) # s, rest))"
  by (simp add: numeral_eq_Suc)

subsection \<open>Escaped line ends\<close>

text \<open>Behind the shrinking string the buffer holds copies of its last byte.\<close>

lemma crlf_loop_stale:
  "crlf_loop (out @ replicate k x) (length out) len = (out @ replicate k x, len)"
proof (induction k arbitrary: out)
  case (Suc k)
  have "crlf_loop (out @ replicate (Suc k) x) (length out) len =
        crlf_loop (out @ replicate (Suc k) x) (length out + 1) len"
    by (subst crlf_loop.simps) (auto simp: nth_append)
  also have "\<dots> = (out @ replicate (Suc k) x, len)" using Suc.IH [of "out @ [x]"] by simp
  finally show ?case .
qed (simp add: crlf_loop.simps)

lemma crlf_memmove:
  "last (b # s @ replicate k x) = x \<Longrightarrow>
   memmove_left (out @ c # b # s @ replicate k x) (length out) = (out @ [c]) @ s @ replicate (Suc k) x"
  by (simp add: memmove_left_def replicate_append_same)

lemma crlf_step:
  assumes "last (b # s @ replicate k x) = x" "b = CHR ''r'' \<and> c = CHR 0x0D \<or> b = CHR ''n'' \<and> c = CHR 0x0A"
  shows "crlf_loop (out @ CHR 0x5C # b # s @ replicate k x) (length out) (length out + Suc (Suc (length s))) =
         crlf_loop ((out @ [c]) @ s @ replicate (Suc k) x) (length (out @ [c])) (length (out @ [c]) + length s)"
  using assms(2) crlf_memmove [OF assms(1), of out c]
  by (subst crlf_loop.simps) (auto simp: nth_append)

lemma crlf_skip:
  assumes "\<not> (a = CHR 0x5C \<and> (b = CHR ''r'' \<or> b = CHR ''n''))"
  shows "crlf_loop (out @ a # b # s) (length out) len = crlf_loop ((out @ [a]) @ b # s) (length (out @ [a])) len"
  using assms by (subst crlf_loop.simps) (auto simp: nth_append)

lemma crlf_loop_decode:
  "s \<noteq> [] \<longrightarrow> last s = x \<Longrightarrow>
   \<exists>t. crlf_loop (out @ s @ replicate k x) (length out) (length out + length s) =
       (out @ crlf_decode s @ t, length out + length (crlf_decode s))"
proof (induction s arbitrary: out k rule: crlf_decode.induct)
  case (1 a b s)
  have stale: "last (b # s @ replicate k x) = x" using "1.prems" by (cases k; cases s) auto
  have last: "s \<noteq> [] \<longrightarrow> last s = x" using "1.prems" by (auto split: if_splits)
  consider (r) "a = CHR 0x5C" "b = CHR ''r''" | (n) "a = CHR 0x5C" "b = CHR ''n''"
    | (other) "\<not> (a = CHR 0x5C \<and> (b = CHR ''r'' \<or> b = CHR ''n''))" by auto
  then show ?case
  proof cases
    case r
    with "1.IH"(1) [OF _ last, of "out @ [CHR 0x0D]" "Suc k"] crlf_step [OF stale, of "CHR 0x0D" out]
    show ?thesis by simp
  next
    case n
    with "1.IH"(2) [OF _ _ last, of "out @ [CHR 0x0A]" "Suc k"] crlf_step [OF stale, of "CHR 0x0A" out]
    show ?thesis by simp
  next
    case other
    then have "\<exists>t. crlf_loop ((out @ [a]) @ (b # s) @ replicate k x) (length (out @ [a])) (length (out @ [a]) + length (b # s)) =
       ((out @ [a]) @ crlf_decode (b # s) @ t, length (out @ [a]) + length (crlf_decode (b # s)))"
      using "1.prems" by (intro "1.IH"(3)) auto
    moreover have "crlf_decode (a # b # s) = a # crlf_decode (b # s)" using other by auto
    ultimately show ?thesis using crlf_skip [OF other, of out "s @ replicate k x"]
      by (simp del: crlf_decode.simps)
  qed
next
  case 3
  then show ?case using crlf_loop_stale [of out k x "length out"] by auto
next
  case (2 a)
  then show ?case using crlf_loop_stale [of out "Suc k" x "length out + 1"] by auto
qed

text \<open>C20. \<open>unescape_crlf\<close>, which shifts the rest of the buffer to the left at each escape and
  keeps walking to the old end of the buffer, computes the one-pass decoding: the stale bytes
  it walks over never form an escape.\<close>

theorem unescape_crlf_decode: "unescape_crlf s = crlf_decode s"
proof (cases "s = []")
  case False
  with crlf_loop_decode [of s "last s" "[]" 0] show ?thesis by (auto simp: unescape_crlf_def)
qed (simp add: unescape_crlf_def)

lemma str2s_loop_value:
  "str2s_loop r i s =
     (if list_all isdigit s \<and> i + length s \<le> 5 \<or> s = [] then (snd (dec_loop r s), 0) else (0, 1))"
  by (induction r i s rule: str2s_loop.induct) auto

lemma str2s_value:
  "str2s s =
     (if list_all isdigit s \<and> length s \<le> 5 then (word_of_nat (dec_val 0 s), 0) else (0, 1))"
  by (auto simp: str2s_def str2s_loop_value dec_loop_value)

text \<open>C17. The decimal readers \<open>str2short\<close>, \<open>str2int\<close> and \<open>str2int64\<close> accept exactly the
  non-empty strings of digits, and \<open>str2s\<close> those of at most five digits; the number they
  return is the decimal value modulo the width, so an overflow is no error: \<open>str2s\<close> reads
  the port 65541 as 5.\<close>

theorem str2int_value:
  "(fst (str2short s r16) = 0 \<longleftrightarrow> s \<noteq> [] \<and> list_all isdigit s) \<and>
   (fst (str2int s r32) = 0 \<longleftrightarrow> s \<noteq> [] \<and> list_all isdigit s) \<and>
   (fst (str2int64 s r64) = 0 \<longleftrightarrow> s \<noteq> [] \<and> list_all isdigit s) \<and>
   (snd (str2s s) = 0 \<longleftrightarrow> list_all isdigit s \<and> length s \<le> 5) \<and>
   (s \<noteq> [] \<and> list_all isdigit s \<longrightarrow>
      unat (snd (str2short s r16)) = dec_val 0 s mod 2 ^ 16 \<and>
      unat (snd (str2int s r32)) = dec_val 0 s mod 2 ^ 32 \<and>
      unat (snd (str2int64 s r64)) = dec_val 0 s mod 2 ^ 64 \<and>
      (length s \<le> 5 \<longrightarrow> unat (fst (str2s s)) = dec_val 0 s mod 2 ^ 16))"
  by (simp add: str2short_def str2int_def str2int64_def dec_loop_value dec_loop_code
      str2s_value unat_of_nat)

theorem str2int_value_witness:
  "unat (snd (str2int ''4294967301'' 0)) = 5 \<and> fst (str2int ''4294967301'' 0) = 0 \<and>
   unat (fst (str2s ''65541'')) = 5 \<and> snd (str2s ''65541'') = 0"
  using str2int_value [of "''4294967301''" 0 0 0] str2int_value [of "''65541''" 0 0 0]
  by (simp add: isdigit_def schar_def digit_val_def)


text \<open>C19. \<open>int2reverse_hex\<close> and \<open>int64_2reverse_hex\<close> succeed exactly when the number has no more
  hexadecimal digits than the buffer has room, account for the room they used, and are
  undone by \<open>reverse_hex2int\<close> and \<open>reverse_hex2int64\<close>; \<open>hex2string\<close> undoes \<open>string2hex\<close> on
  every string.\<close>

theorem reverse_hex_roundtrip:
  "(case int2reverse_hex room nr of (s, room', ret) \<Rightarrow>
      length s + room' = room \<and> ret \<in> {-1, 1} \<and> (ret = 1 \<longleftrightarrow> unat nr < 16 ^ room) \<and>
      (ret = 1 \<longrightarrow> reverse_hex2int s = (0, nr))) \<and>
   (case int64_2reverse_hex room nr64 of (s, room', ret) \<Rightarrow>
      length s + room' = room \<and> ret \<in> {-1, 1} \<and> (ret = 1 \<longleftrightarrow> unat nr64 < 16 ^ room) \<and>
      (ret = 1 \<longrightarrow> reverse_hex2int64 s False = (0, nr64))) \<and>
   hex2string (fst (string2hex t)) = (Some t, int (length t))"
proof -
  have "hex2string (fst (string2hex t)) = (Some t, int (length t))"
    by (cases t) (simp_all add: hex2string_def string2hex_def length_string2hex_loop
        hex2string_string2hex_loop del: string2hex_loop.simps)
  then show ?thesis
    using to_rhex_spec [of room nr] to_rhex_spec [of room nr64]
    by (simp add: int2reverse_hex_def int64_2reverse_hex_def reverse_hex2int_def
        reverse_hex2int64_def rhex64_loop_strict split: prod.splits)
qed

theorem reverse_hex_roundtrip_witness:
  "int2reverse_hex 4 0x1af = (''fa1'', 1, 1) \<and> reverse_hex2int ''fa1'' = (0, 0x1af) \<and>
   snd (snd (int64_2reverse_hex 2 0x1af)) = -1"
proof -
  have run: "int2reverse_hex 4 0x1af = (''fa1'', 1, 1)" 
    by (simp add: int2reverse_hex_def to_rhex_def to_rhex_loop_numeral fourbits2char_def)
  have "snd (snd (int64_2reverse_hex 2 0x1af)) = -1"
    by (simp add: int64_2reverse_hex_def to_rhex_def to_rhex_loop_numeral fourbits2char_def)
  moreover have "reverse_hex2int ''fa1'' = (0, 0x1af)"
    using conjunct1 [OF reverse_hex_roundtrip [of 4 "0x1af" 0 "[]"]] by (simp only: run prod.case simp_thms)
  ultimately show ?thesis using run by blast
qed

text \<open>C21. \<open>str_strstr\<close>, \<open>str_strcasestr\<close> and \<open>l_memmem\<close> return the first position at which the
  second string occurs in the first, with the case of letters ignored by the second of them,
  and nothing when there is none or a string is empty.\<close>

theorem str_strstr_first:
  "str_strstr a b = first_occurrence id a b \<and>
   str_strcasestr a b = first_occurrence tolower a b \<and>
   l_memmem a b = first_occurrence id a b"
  by (simp add: strstr_first)

text \<open>\<open>str_strcmp\<close> decides the lexicographic order over signed characters, in which a
  proper prefix comes first; \<open>str_strcasecmp\<close> is the same order on the lowered strings and
  \<open>str_casematch\<close> its equality.\<close>

theorem str_strcmp_order:
  "str_strcmp a b = (if a = b then 0 else if (a, b) \<in> lexord schar_less then -1 else 1) \<and>
   str_strcasecmp a b = str_strcmp (strlower a) (strlower b) \<and>
   (str_casematch a b \<longleftrightarrow> str_strcasecmp a b = 0)"
  by (simp add: str_strcmp_lexord str_strcasecmp_lower str_casematch_lower)

text \<open>\<open>q_memchr\<close> returns the first position of an ASCII character, and \<open>q_memrchr\<close> the last;
  a byte from 128 on is never found, whatever the string, because the signed \<open>*p\<close> is
  compared with the unsigned \<open>(unsigned char)c\<close>.\<close>

theorem q_memchr_spec:
  "q_memchr s c =
     (if of_char c < (128 :: nat) \<and> c \<in> set s then Some (length (takeWhile (\<lambda>x. x \<noteq> c) s)) else None) \<and>
   q_memrchr s c =
     (if of_char c < (128 :: nat) \<and> c \<in> set s
      then Some (length s - 1 - length (takeWhile (\<lambda>x. x \<noteq> c) (rev s))) else None)"
proof -
  have "schar c < 0 \<longleftrightarrow> \<not> of_char c < (128 :: nat)"
    using schar_bounds [of c] of_char_schar [of c] by (cases "schar c < 0") simp_all
  then show ?thesis by (simp add: char_index_first q_memrchr_def)
qed

end
