(* ===== verification/Core_Hash.thy ===== *)
theory Core_Hash
  imports Ut
begin

text \<open>
  The hash functions of hash_func.h, which place dialogs, contacts, transactions and cached
  values in their tables: the strings are read four bytes at a time as signed characters,
  at 32 bits. The lemmas show that the result is an index of the table, and that the hash
  without case treats strings alike that the server compares as equal without case.
\<close>

definition ch_h_inc :: "u32 \<Rightarrow> u32 \<Rightarrow> u32" where
  "ch_h_inc h v = h + (v XOR drop_bit 3 v)"

definition ch_icase :: "char \<Rightarrow> int" where
  "ch_icase c = (if 65 \<le> schar c \<and> schar c \<le> 90 then schar c OR 0x20 else schar c)"

text \<open>The last, at most three, bytes of a string.\<close>

fun tail_word :: "(char \<Rightarrow> int) \<Rightarrow> u32 \<Rightarrow> str \<Rightarrow> u32" where
  "tail_word ch v [] = v"
| "tail_word ch v (p # ps) = tail_word ch (push_bit 8 v + word_of_int (ch p)) ps"

text \<open>One string, four bytes at a time; \<open>ch\<close> reads a character.\<close>

fun hash_str :: "(char \<Rightarrow> int) \<Rightarrow> u32 \<Rightarrow> str \<Rightarrow> u32" where
  "hash_str ch h (p0 # p1 # p2 # p3 # ps) =
     hash_str ch (ch_h_inc h (push_bit 24 (word_of_int (ch p0)) + push_bit 16 (word_of_int (ch p1)) +
                              push_bit 8 (word_of_int (ch p2)) + word_of_int (ch p3))) ps"
| "hash_str ch h ps = ch_h_inc h (tail_word ch 0 ps)"

definition hash_fin :: "u32 \<Rightarrow> u32 \<Rightarrow> u32" where
  "hash_fin h sz =
     (let h' = (h + drop_bit 11 h) + (drop_bit 13 h + drop_bit 23 h)
      in if sz \<noteq> 0 then h' AND (sz - 1) else h')"

definition core_hash :: "str \<Rightarrow> str option \<Rightarrow> u32 \<Rightarrow> u32" where
  "core_hash s1 s2 sz =
     (let h = hash_str schar 0 s1;
          h = (case s2 of None \<Rightarrow> h | Some s \<Rightarrow> hash_str schar h s)
      in hash_fin h sz)"

definition core_case_hash :: "str \<Rightarrow> str option \<Rightarrow> u32 \<Rightarrow> u32" where
  "core_case_hash s1 s2 sz =
     (let h = hash_str ch_icase 0 s1;
          h = (case s2 of None \<Rightarrow> h | Some s \<Rightarrow> hash_str ch_icase h s)
      in hash_fin h sz)"

subsection \<open>Properties\<close>

lemma hash_fin_less: "sz \<noteq> 0 \<Longrightarrow> hash_fin h sz < sz"
proof -
  assume "sz \<noteq> 0"
  have "uint (x AND (sz - 1)) \<le> uint (sz - 1)" for x :: u32
    using AND_upper2 [of "uint (sz - 1)" "uint x"] by (simp add: uint_and)
  then have "x AND (sz - 1) \<le> sz - 1" for x :: u32 by (simp add: word_le_def)
  moreover have "sz - 1 < sz" using \<open>sz \<noteq> 0\<close> unat_minus_one [of sz] unat_eq_zero [of sz]
    by (simp add: word_less_nat_alt)
  ultimately have "x AND (sz - 1) < sz" for x :: u32 using order_le_less_trans by blast
  then show ?thesis using \<open>sz \<noteq> 0\<close> by (simp add: hash_fin_def Let_def)
qed

lemma upper_or_bit: "65 \<le> v \<Longrightarrow> v \<le> 90 \<Longrightarrow> v OR 0x20 = v + (32 :: int)"
proof -
  assume v: "65 \<le> v" "v \<le> 90"
  have "\<forall>v \<in> set [65..90]. v OR 0x20 = v + (32 :: int)" by (simp add: upto.simps)
  moreover have "v \<in> set [65..90]" using v by (simp only: set_upto) simp
  ultimately show ?thesis by (rule bspec)
qed

lemma ch_icase_tolower: "ch_icase c = schar (tolower c)"
proof (cases "65 \<le> schar c \<and> schar c \<le> 90")
  case True
  then have c: "int (of_char c) = schar c" using of_char_schar [of c] by simp
  then have n: "of_char c + 32 < (128 :: nat)" using True by linarith
  have "schar (tolower c) = int (of_char c + 32)"
    using True n by (simp add: tolower_def schar_def of_char_int)
  with True c show ?thesis by (simp add: ch_icase_def upper_or_bit)
qed (auto simp: ch_icase_def tolower_def)

lemma tail_word_lower: "tail_word ch_icase v s = tail_word schar v (strlower s)"
  by (induction s arbitrary: v) (simp_all add: strlower_def ch_icase_tolower)

lemma hash_str_lower: "hash_str ch_icase h s = hash_str schar h (strlower s)"
  by (induction ch_icase h s rule: hash_str.induct)
    (simp_all add: ch_icase_tolower strlower_def tail_word_lower del: tail_word.simps)

text \<open>Both hashes are below the size of the table whenever it is not empty, for a size that
  is no power of two as well; \<open>core_case_hash\<close> is \<open>core_hash\<close> of the lowered strings, so strings
  that \<open>str_casematch\<close> accepts as equal fall into the same entry.\<close>

theorem core_hash_index:
  "(sz \<noteq> 0 \<longrightarrow> core_hash s1 s2 sz < sz \<and> core_case_hash s1 s2 sz < sz) \<and>
   core_case_hash s1 s2 sz = core_hash (strlower s1) (map_option strlower s2) sz \<and>
   (str_casematch s1 t1 \<longrightarrow> core_case_hash s1 None sz = core_case_hash t1 None sz)"
  by (cases s2) (simp_all add: core_hash_def core_case_hash_def Let_def hash_fin_less hash_str_lower str_casematch_lower)

theorem core_hash_index_witness:
  "core_hash ''a84b4c76e66710'' None 4096 < 4096 \<and>
   core_case_hash ''Bob@Example.COM'' None 512 = core_case_hash ''bob@example.com'' None 512"
proof -
  have "str_casematch ''Bob@Example.COM'' ''bob@example.com''" by code_simp
  then have "core_case_hash ''Bob@Example.COM'' None 512 = core_case_hash ''bob@example.com'' None 512"
    using core_hash_index [of 512 "''Bob@Example.COM''" None "''bob@example.com''"] by blast
  moreover have "core_hash ''a84b4c76e66710'' None 4096 < 4096"
    using core_hash_index [of 4096 "''a84b4c76e66710''" None "[]"] by (simp del: core_hash_def)
  ultimately show ?thesis by blast
qed

end
