(* ===== verification/Dll.thy ===== *)
theory Dll
  imports Sip_Prelude
begin

text \<open>
  Doubly linked lists as the server keeps them in its hash entries: a first and a last
  pointer, and cells with \<open>next\<close> and \<open>prev\<close> pointers that are null at the ends. The
  components have their own cells; what they share is the shape of the pointers, given here
  by the maps from an address to the two pointers of the cell there.
\<close>

type_synonym ptrs = "addr \<rightharpoonup> addr option"

text \<open>
  The segment of the addresses \<open>xs\<close>, entered at \<open>p\<close> with the predecessor \<open>before\<close>, whose last
  cell is \<open>lst\<close> and points on to \<open>q\<close>.
\<close>

fun dlseg :: "ptrs \<Rightarrow> ptrs \<Rightarrow> addr option \<Rightarrow> addr option \<Rightarrow> addr list \<Rightarrow> addr option \<Rightarrow> addr option \<Rightarrow> bool" where
  "dlseg nx pv before p [] lst q \<longleftrightarrow> p = q \<and> lst = before"
| "dlseg nx pv before p (x # xs) lst q \<longleftrightarrow>
     p = Some x \<and> pv x = Some before \<and> (\<exists>n. nx x = Some n \<and> dlseg nx pv (Some x) n xs lst q)"

definition dll :: "ptrs \<Rightarrow> ptrs \<Rightarrow> addr option \<Rightarrow> addr option \<Rightarrow> addr list \<Rightarrow> bool" where
  "dll nx pv f l xs \<longleftrightarrow> dlseg nx pv None f xs l None \<and> distinct xs"

text \<open>The walk of a \<open>for\<close> loop over such a list, up to the first cell that \<open>P\<close> accepts.\<close>

partial_function (option) walk ::
    "(addr \<rightharpoonup> 'c) \<Rightarrow> ('c \<Rightarrow> addr option) \<Rightarrow> ('c \<Rightarrow> bool) \<Rightarrow> addr option \<Rightarrow> addr option option" where
  "walk C nxtp P p =
     (case p of
        None \<Rightarrow> Some None
      | Some a \<Rightarrow> do { c \<leftarrow> C a; if P c then Some (Some a) else walk C nxtp P (nxtp c) })"

lemma dlseg_append:
  "dlseg nx pv before p (xs @ ys) lst q \<longleftrightarrow>
   (\<exists>m n. dlseg nx pv before p xs m n \<and> dlseg nx pv m n ys lst q)"
  by (induction xs arbitrary: before p) auto

lemma dlseg_cong:
  "dlseg nx pv before p xs lst q \<Longrightarrow> \<forall>x \<in> set xs. nx' x = nx x \<and> pv' x = pv x \<Longrightarrow>
   dlseg nx' pv' before p xs lst q"
  by (induction xs arbitrary: before p) auto

lemma dll_cong:
  "dll nx pv f l xs \<Longrightarrow> \<forall>x \<in> set xs. nx' x = nx x \<and> pv' x = pv x \<Longrightarrow> dll nx' pv' f l xs"
  by (auto simp: dll_def intro: dlseg_cong)

lemma dlseg_first: "dlseg nx pv before p xs lst q \<Longrightarrow> p = (if xs = [] then q else Some (hd xs))"
  by (cases xs) auto

lemma dlseg_last: "dlseg nx pv before p xs lst q \<Longrightarrow> lst = (if xs = [] then before else Some (last xs))"
  by (induction xs arbitrary: before p) auto

lemma dll_ends:
  assumes "dll nx pv f l xs"
  shows "f = (if xs = [] then None else Some (hd xs))" "l = (if xs = [] then None else Some (last xs))"
  using assms dlseg_first [of nx pv None f xs l None] dlseg_last [of nx pv None f xs l None]
  by (simp_all add: dll_def)

lemma dll_dom: "dll nx pv f l xs \<Longrightarrow> x \<in> set xs \<Longrightarrow> nx x \<noteq> None \<and> pv x \<noteq> None"
proof -
  have "dlseg nx pv before p xs lst q \<Longrightarrow> x \<in> set xs \<Longrightarrow> nx x \<noteq> None \<and> pv x \<noteq> None" for before p lst q
    by (induction xs arbitrary: before p) auto
  then show "dll nx pv f l xs \<Longrightarrow> x \<in> set xs \<Longrightarrow> nx x \<noteq> None \<and> pv x \<noteq> None" by (auto simp: dll_def)
qed

text \<open>The pointers of a cell in the middle.\<close>

lemma dll_middle:
  assumes "dll nx pv f l (xs @ a # ys)"
  shows "nx a = Some (if ys = [] then None else Some (hd ys))"
    and "pv a = Some (if xs = [] then None else Some (last xs))"
proof -
  from assms obtain m n where s: "dlseg nx pv None f xs m n" "dlseg nx pv m n (a # ys) l None"
    by (auto simp: dll_def dlseg_append simp del: dlseg.simps)
  from s(2) obtain k where "nx a = Some k" "dlseg nx pv (Some a) k ys l None" "pv a = Some m" by auto
  with dlseg_first [OF this(2)] dlseg_last [OF s(1)]
  show "nx a = Some (if ys = [] then None else Some (hd ys))"
    and "pv a = Some (if xs = [] then None else Some (last xs))" by auto
qed

text \<open>Redirecting the end of a segment.\<close>

lemma dlseg_retarget:
  assumes "dlseg nx pv before p xs lst q" "distinct xs" "xs \<noteq> []" "nx' (last xs) = Some q'"
    and "\<forall>x \<in> set (butlast xs). nx' x = nx x" "\<forall>x \<in> set xs. pv' x = pv x"
  shows "dlseg nx' pv' before p xs lst q'"
  using assms
proof (induction xs arbitrary: before p)
  case (Cons x xs)
  show ?case
  proof (cases "xs = []")
    case False
    with Cons.prems obtain n where n: "nx x = Some n" "dlseg nx pv (Some x) n xs lst q" by auto
    with Cons.IH [OF n(2)] Cons.prems False show ?thesis by auto
  qed (use Cons.prems in auto)
qed simp

text \<open>Linking a new cell at the end.\<close>

lemma dll_snoc:
  assumes "dll nx pv f l xs" "a \<notin> set xs"
    and "\<forall>x \<in> set (butlast xs). nx' x = nx x" "xs \<noteq> [] \<longrightarrow> nx' (last xs) = Some (Some a)" "nx' a = Some None"
    and "\<forall>x \<in> set xs. pv' x = pv x" "pv' a = Some l"
  shows "dll nx' pv' (if xs = [] then Some a else f) (Some a) (xs @ [a])"
proof (cases "xs = []")
  case True
  with assms show ?thesis using dll_ends(2) [OF assms(1)] by (simp add: dll_def)
next
  case False
  have "dlseg nx' pv' None f xs l (Some a)"
    using assms False by (intro dlseg_retarget [of nx pv None f xs l None nx' "Some a" pv']) (auto simp: dll_def)
  with assms False show ?thesis by (auto simp: dll_def dlseg_append)
qed

text \<open>Unlinking a cell from the middle or an end.\<close>

lemma dll_unlink:
  assumes "dll nx pv f l (xs @ a # ys)" "nx a = Some n" "pv a = Some p"
    and nx': "\<forall>x \<in> set (butlast xs) \<union> set ys. nx' x = nx x" "xs \<noteq> [] \<longrightarrow> nx' (last xs) = Some n"
    and pv': "\<forall>x \<in> set xs \<union> set (tl ys). pv' x = pv x" "ys \<noteq> [] \<longrightarrow> pv' (hd ys) = Some p"
  shows "dll nx' pv' (if xs = [] then n else f) (if ys = [] then p else l) (xs @ ys)"
proof -
  from assms(1) obtain m k where s: "dlseg nx pv None f xs m k" "dlseg nx pv m k (a # ys) l None"
    and d: "distinct (xs @ a # ys)" by (auto simp: dll_def dlseg_append simp del: dlseg.simps)
  from s(2) assms(2,3) have m: "m = p" and ys: "dlseg nx pv (Some a) n ys l None" by auto
  have front: "dlseg nx' pv' None (if xs = [] then n else f) xs p n"
  proof (cases "xs = []")
    case True
    with s(1) m show ?thesis by simp
  next
    case False
    with s(1) m d nx' pv' show ?thesis by (auto intro: dlseg_retarget)
  qed
  have rear: "dlseg nx' pv' p n ys (if ys = [] then p else l) None"
  proof (cases ys)
    case Nil
    with ys show ?thesis by simp
  next
    case (Cons y zs)
    with ys obtain j where "nx y = Some j" "dlseg nx pv (Some y) j zs l None" "n = Some y" by auto
    with Cons nx'(1) pv' show ?thesis by (auto intro: dlseg_cong)
  qed
  from front rear d show ?thesis by (auto simp: dll_def dlseg_append)
qed

lemma walk_dlseg:
  "dlseg (\<lambda>a. map_option nxtp (C a)) pv before p xs lst None \<Longrightarrow>
   walk C nxtp P p = Some (List.find (\<lambda>a. P (the (C a))) xs)"
proof (induction xs arbitrary: before p)
  case Nil
  then show ?case by (simp add: walk.simps)
next
  case (Cons x xs)
  then obtain c where c: "C x = Some c" "p = Some x" by auto
  with Cons have "walk C nxtp P (nxtp c) = Some (List.find (\<lambda>a. P (the (C a))) xs)" by auto
  with c show ?case by (subst walk.simps) simp
qed

lemma walk_dll:
  "dll (\<lambda>a. map_option nxtp (C a)) pv f l xs \<Longrightarrow>
   walk C nxtp P f = Some (List.find (\<lambda>a. P (the (C a))) xs)"
  by (auto simp: dll_def intro: walk_dlseg)

end
