(* ===== verification/Dlg_Hash.thy ===== *)
theory Dlg_Hash
  imports Dll Dlg_Timer Core_Hash
begin

text \<open>
  The dialog table of the dialog module (modules/dialog/dlg_hash.c and dlg_hash.h): hash
  entries with doubly linked lists of dialogs, reference counts, the two timers a dialog has a
  link in, the state machine of a dialog, and the ways a request finds its dialog. The state
  holds the cells by their addresses; \<open>None\<close> is a read of freed or null memory, or the
  \<open>abort\<close> of a negative reference count. The locks of the entries are left out: each
  operation runs as one step.
\<close>

subsection \<open>Data\<close>

datatype dlg_state = UNCONFIRMED | EARLY | CONFIRMED_NA | CONFIRMED | DELETED

text \<open>The numbers \<open>DLG_STATE_*\<close>, by which the code compares states.\<close>

primrec state_no :: "dlg_state \<Rightarrow> nat" where
  "state_no UNCONFIRMED = 1"
| "state_no EARLY = 2"
| "state_no CONFIRMED_NA = 3"
| "state_no CONFIRMED = 4"
| "state_no DELETED = 5"

instantiation dlg_state :: linorder
begin

definition less_eq_dlg_state :: "dlg_state \<Rightarrow> dlg_state \<Rightarrow> bool" where
  "s \<le> t \<longleftrightarrow> state_no s \<le> state_no t"

definition less_dlg_state :: "dlg_state \<Rightarrow> dlg_state \<Rightarrow> bool" where
  "s < t \<longleftrightarrow> state_no s < state_no t"

instance
proof
  fix s t :: dlg_state
  show "s \<le> t \<Longrightarrow> t \<le> s \<Longrightarrow> s = t"
    by (cases s; cases t) (simp_all add: less_eq_dlg_state_def)
qed (auto simp: less_eq_dlg_state_def less_dlg_state_def)

end

datatype dlg_event = TDEL | RPL1xx | RPL2xx | RPL3xx | REQPRACK | REQACK | REQBYE | REQ

datatype dlg_dir = DIR_NONE | DOWNSTREAM | UPSTREAM

definition DLG_FLAG_HASBYE :: u32 where
  "DLG_FLAG_HASBYE = 4"

text \<open>
  \<open>struct dlg_cell\<close>, with the fields these operations use: of the legs the tags of those in
  use, and \<open>legs_no[DLG_LEG_200OK]\<close>. The two timer links are in the heaps of the timers.
\<close>

record dlg_cell =
  ref :: int
  d_next :: "addr option"
  d_prev :: "addr option"
  h_id :: u32
  h_entry :: u32
  d_state :: dlg_state
  d_flags :: u32
  del_delay :: u32
  d_callid :: str
  from_uri :: str
  to_uri :: str
  leg_tags :: "str list"
  leg_200ok :: nat

record dlg_entry =
  e_first :: "addr option"
  e_last :: "addr option"
  next_id :: u32
  cnt :: u32

text \<open>What the module tells the others: the destroy callbacks, events, and replication.\<close>

datatype effect =
  DestroyCallbacks addr
| StateChanged addr dlg_state dlg_state
| ReplicateDeleted addr

record world =
  cells :: "addr \<rightharpoonup> dlg_cell"
  entries :: "dlg_entry list"
  d_timer :: tl_heap
  ddel_timer :: tl_heap
  dlg_del_delay :: u32
  now :: u32
  repl_cluster :: bool
  effects :: "effect list"

definition upd_cell :: "world \<Rightarrow> addr \<Rightarrow> (dlg_cell \<Rightarrow> dlg_cell) \<Rightarrow> world option" where
  "upd_cell w a f = do { c \<leftarrow> cells w a; Some (w\<lparr>cells := (cells w)(a \<mapsto> f c)\<rparr>) }"

definition get_entry :: "world \<Rightarrow> u32 \<Rightarrow> dlg_entry option" where
  "get_entry w e = (if unat e < length (entries w) then Some (entries w ! unat e) else None)"

definition upd_entry :: "world \<Rightarrow> u32 \<Rightarrow> (dlg_entry \<Rightarrow> dlg_entry) \<Rightarrow> world option" where
  "upd_entry w e f = do { en \<leftarrow> get_entry w e; Some (w\<lparr>entries := (entries w)[unat e := f en]\<rparr>) }"

subsection \<open>Creating and linking dialogs\<close>

text \<open>\<open>init_dlg_table\<close>: \<open>rnd\<close> are the results of \<open>rand()\<close>, one for each entry.\<close>

definition init_dlg_table :: "u32 list \<Rightarrow> dlg_entry list" where
  "init_dlg_table rnd = map (\<lambda>r. \<lparr>e_first = None, e_last = None, next_id = r, cnt = 0\<rparr>) rnd"

definition dlg_hash :: "world \<Rightarrow> str \<Rightarrow> u32" where
  "dlg_hash w callid = core_hash callid None (word_of_nat (length (entries w)))"

text \<open>\<open>build_new_dlg\<close> once \<open>shm_malloc\<close> has returned the address \<open>a\<close>: the cell is zeroed.\<close>

definition build_new_dlg :: "world \<Rightarrow> addr \<Rightarrow> str \<Rightarrow> str \<Rightarrow> str \<Rightarrow> world" where
  "build_new_dlg w a ci furi turi =
     (let zero = \<lparr>tl_next = NULL, tl_prev = NULL, tl_timeout = 0\<rparr>
      in w\<lparr>cells := (cells w)(a \<mapsto>
             \<lparr>ref = 0, d_next = None, d_prev = None, h_id = 0, h_entry = dlg_hash w ci,
              d_state = UNCONFIRMED, d_flags = 0, del_delay = 0, d_callid = ci, from_uri = furi,
              to_uri = turi, leg_tags = [], leg_200ok = 0\<rparr>),
           d_timer := (d_timer w)(Tl a \<mapsto> zero),
           ddel_timer := (ddel_timer w)(Tl a \<mapsto> zero)\<rparr>)"

definition raw_link_dlg_unsafe :: "world \<Rightarrow> u32 \<Rightarrow> addr \<Rightarrow> world option" where
  "raw_link_dlg_unsafe w e dlg = do {
     en \<leftarrow> get_entry w e;
     w \<leftarrow> (if e_first en = None
           then upd_entry w e (\<lambda>en. en\<lparr>e_first := Some dlg, e_last := Some dlg\<rparr>)
           else do {
             l \<leftarrow> e_last en;
             w \<leftarrow> upd_cell w l (\<lambda>c. c\<lparr>d_next := Some dlg\<rparr>);
             w \<leftarrow> upd_cell w dlg (\<lambda>c. c\<lparr>d_prev := Some l\<rparr>);
             upd_entry w e (\<lambda>en. en\<lparr>e_last := Some dlg\<rparr>) });
     w \<leftarrow> upd_cell w dlg (\<lambda>c. c\<lparr>ref := ref c + 1\<rparr>);
     upd_entry w e (\<lambda>en. en\<lparr>cnt := cnt en + 1\<rparr>) }"

definition link_dlg_unsafe :: "world \<Rightarrow> u32 \<Rightarrow> addr \<Rightarrow> world option" where
  "link_dlg_unsafe w e dlg = do {
     en \<leftarrow> get_entry w e;
     w \<leftarrow> upd_cell w dlg (\<lambda>c. c\<lparr>h_id := next_id en\<rparr>);
     w \<leftarrow> upd_entry w e (\<lambda>en. en\<lparr>next_id := next_id en + 1\<rparr>);
     raw_link_dlg_unsafe w e dlg }"

definition link_dlg :: "world \<Rightarrow> addr \<Rightarrow> int \<Rightarrow> world option" where
  "link_dlg w dlg extra_refs = do {
     c \<leftarrow> cells w dlg;
     w \<leftarrow> link_dlg_unsafe w (h_entry c) dlg;
     upd_cell w dlg (\<lambda>c. c\<lparr>ref := ref c + extra_refs\<rparr>) }"

definition unlink_unsafe_dlg :: "world \<Rightarrow> u32 \<Rightarrow> addr \<Rightarrow> world option" where
  "unlink_unsafe_dlg w e dlg = do {
     c \<leftarrow> cells w dlg;
     w \<leftarrow> (case d_next c of
             Some n \<Rightarrow> upd_cell w n (\<lambda>m. m\<lparr>d_prev := d_prev c\<rparr>)
           | None \<Rightarrow> upd_entry w e (\<lambda>en. en\<lparr>e_last := d_prev c\<rparr>));
     c \<leftarrow> cells w dlg;
     w \<leftarrow> (case d_prev c of
             Some p \<Rightarrow> upd_cell w p (\<lambda>m. m\<lparr>d_next := d_next c\<rparr>)
           | None \<Rightarrow> upd_entry w e (\<lambda>en. en\<lparr>e_first := d_next c\<rparr>));
     w \<leftarrow> upd_cell w dlg (\<lambda>c. c\<lparr>d_next := None, d_prev := None\<rparr>);
     upd_entry w e (\<lambda>en. en\<lparr>cnt := cnt en - 1\<rparr>) }"

subsection \<open>References\<close>

text \<open>\<open>free_dlg_dlg\<close>: the memory of the cell is gone, and the two timer links with it.\<close>

definition free_dlg_dlg :: "world \<Rightarrow> addr \<Rightarrow> world" where
  "free_dlg_dlg w dlg =
     w\<lparr>cells := (cells w)(dlg := None), d_timer := (d_timer w)(Tl dlg := None),
       ddel_timer := (ddel_timer w)(Tl dlg := None)\<rparr>"

definition destroy_dlg :: "world \<Rightarrow> addr \<Rightarrow> world option" where
  "destroy_dlg w dlg = do {
     (t, ret) \<leftarrow> remove_dlg_timer (d_timer w) (Tl dlg);
     Some (free_dlg_dlg (w\<lparr>d_timer := t, effects := effects w @ [DestroyCallbacks dlg]\<rparr>) dlg) }"

definition ref_dlg_unsafe :: "world \<Rightarrow> addr \<Rightarrow> nat \<Rightarrow> world option" where
  "ref_dlg_unsafe w dlg n = upd_cell w dlg (\<lambda>c. c\<lparr>ref := ref c + int n\<rparr>)"

definition unref_dlg_unsafe :: "world \<Rightarrow> addr \<Rightarrow> nat \<Rightarrow> u32 \<Rightarrow> world option" where
  "unref_dlg_unsafe w dlg n e = do {
     w \<leftarrow> upd_cell w dlg (\<lambda>c. c\<lparr>ref := ref c - int n\<rparr>);
     c \<leftarrow> cells w dlg;
     if ref c < 0 then None
     else if ref c \<le> 0 then
       if dlg_del_delay w = 0 \<and> del_delay c = 0 then do {
         w \<leftarrow> unlink_unsafe_dlg w e dlg;
         destroy_dlg w dlg }
       else do {
         (t, ret) \<leftarrow> insert_attempt_dlg_del_timer (now w) (ddel_timer w) (Tl dlg)
                     (if del_delay c \<noteq> 0 then del_delay c else dlg_del_delay w);
         Some (w\<lparr>ddel_timer := t\<rparr>) }
     else Some w }"

definition ref_dlg :: "world \<Rightarrow> addr \<Rightarrow> nat \<Rightarrow> world option" where
  "ref_dlg w dlg n = do { c \<leftarrow> cells w dlg; ref_dlg_unsafe w dlg n }"

definition unref_dlg :: "world \<Rightarrow> addr \<Rightarrow> nat \<Rightarrow> world option" where
  "unref_dlg w dlg n = do { c \<leftarrow> cells w dlg; unref_dlg_unsafe w dlg n (h_entry c) }"

text \<open>The handler of the delete timer (dlg_handlers.c), for a link that is due.\<close>

definition dlg_ondelete :: "world \<Rightarrow> addr \<Rightarrow> world option" where
  "dlg_ondelete w dlg = do {
     c \<leftarrow> cells w dlg;
     if ref c \<le> 0 then do {
       w \<leftarrow> unlink_unsafe_dlg w (h_entry c) dlg;
       destroy_dlg w dlg }
     else Some w }"

subsection \<open>Finding dialogs\<close>

definition lookup_dlg :: "world \<Rightarrow> u32 \<Rightarrow> u32 \<Rightarrow> bool \<Rightarrow> (world \<times> addr option) option" where
  "lookup_dlg w he hid active_only =
     (if unat he \<ge> length (entries w) then Some (w, None)
      else do {
        en \<leftarrow> get_entry w he;
        r \<leftarrow> walk (cells w) d_next (\<lambda>c. h_id c = hid) (e_first en);
        (case r of
           None \<Rightarrow> Some (w, None)
         | Some dlg \<Rightarrow> do {
             c \<leftarrow> cells w dlg;
             if active_only \<and> d_state c = DELETED then Some (w, None)
             else do {
               w \<leftarrow> upd_cell w dlg (\<lambda>c. c\<lparr>ref := ref c + 1\<rparr>);
               Some (w, Some dlg) } }) })"

text \<open>\<open>strncmp(a, b, len) == 0\<close> on strings of that length: it stops at a null byte.\<close>

fun strncmp0 :: "str \<Rightarrow> str \<Rightarrow> bool" where
  "strncmp0 (a # as) (b # bs) = (if a \<noteq> b then False else if a = CHR 0x00 then True else strncmp0 as bs)"
| "strncmp0 as bs = True"

definition strn_match :: "str \<Rightarrow> str \<Rightarrow> bool" where
  "strn_match a b \<longleftrightarrow> length a = length b \<and> strncmp0 a b"

text \<open>The loop of \<open>match_dialog\<close> over the tags of the callee legs, from leg \<open>i\<close> on.\<close>

fun match_leg :: "nat \<Rightarrow> str list \<Rightarrow> str \<Rightarrow> nat option" where
  "match_leg i [] tag = None"
| "match_leg i (t # ts) tag = (if strn_match t tag then Some i else match_leg (Suc i) ts tag)"

text \<open>
  \<open>match_dialog\<close>: whether it matches, and the values of \<open>*dir\<close> and \<open>*dst_leg\<close> afterwards;
  -1 stands for the unsigned value the callers set first. The caller leg has to exist.
\<close>

definition match_dialog :: "dlg_cell \<Rightarrow> str \<Rightarrow> str \<Rightarrow> str \<Rightarrow> dlg_dir \<Rightarrow> int \<Rightarrow> (bool \<times> dlg_dir \<times> int) option" where
  "match_dialog dlg callid ftag ttag dir dst_leg =
     (if \<not> strn_match (d_callid dlg) callid then Some (False, dir, dst_leg)
      else case leg_tags dlg of
             [] \<Rightarrow> None
           | caller # callees \<Rightarrow>
               (case (if strn_match caller ftag then Some (DOWNSTREAM, dst_leg, ttag)
                      else if strn_match caller ttag then Some (UPSTREAM, 0, ftag)
                      else None) of
                  None \<Rightarrow> Some (False, dir, dst_leg)
                | Some (dir, dst_leg, tag) \<Rightarrow>
                    if callees \<noteq> [] then
                      (case match_leg 1 callees tag of
                         Some i \<Rightarrow> Some (True, dir, if dst_leg = -1 then int i else dst_leg)
                       | None \<Rightarrow> Some (False, dir, dst_leg))
                    else Some (tag = [], dir, dst_leg)))"

text \<open>The loop of \<open>get_dlg\<close>, which carries \<open>*dir\<close> and \<open>*dst_leg\<close> from one dialog to the next.\<close>

partial_function (option) get_dlg_loop ::
    "(addr \<rightharpoonup> dlg_cell) \<Rightarrow> str \<Rightarrow> str \<Rightarrow> str \<Rightarrow> int \<Rightarrow> addr option \<Rightarrow> dlg_dir \<Rightarrow> int \<Rightarrow>
     (addr option \<times> dlg_dir \<times> int) option" where
  "get_dlg_loop C callid ftag ttag backup p dir dst_leg =
     (case p of
        None \<Rightarrow> Some (None, dir, dst_leg)
      | Some a \<Rightarrow> do {
          c \<leftarrow> C a;
          (m, dir', dst_leg') \<leftarrow> match_dialog c callid ftag ttag dir dst_leg;
          if m then
            if d_state c = DELETED then get_dlg_loop C callid ftag ttag backup (d_next c) dir' backup
            else Some (Some a, dir', dst_leg')
          else get_dlg_loop C callid ftag ttag backup (d_next c) dir' dst_leg' })"

definition get_dlg :: "world \<Rightarrow> str \<Rightarrow> str \<Rightarrow> str \<Rightarrow> dlg_dir \<Rightarrow> int \<Rightarrow>
    (world \<times> addr option \<times> dlg_dir \<times> int) option" where
  "get_dlg w callid ftag ttag dir dst_leg = do {
     en \<leftarrow> get_entry w (dlg_hash w callid);
     (r, dir, dst_leg') \<leftarrow> get_dlg_loop (cells w) callid ftag ttag dst_leg (e_first en) dir dst_leg;
     (case r of
        None \<Rightarrow> Some (w, None, dir, dst_leg')
      | Some dlg \<Rightarrow> do {
          w \<leftarrow> upd_cell w dlg (\<lambda>c. c\<lparr>ref := ref c + 1\<rparr>);
          Some (w, Some dlg, dir, dst_leg') }) }"

definition get_dlg_by_callid :: "world \<Rightarrow> str \<Rightarrow> bool \<Rightarrow> (world \<times> addr option) option" where
  "get_dlg_by_callid w callid active_only = do {
     en \<leftarrow> get_entry w (dlg_hash w callid);
     r \<leftarrow> walk (cells w) d_next
           (\<lambda>c. \<not> (active_only \<and> d_state c > CONFIRMED) \<and> strn_match (d_callid c) callid) (e_first en);
     (case r of
        None \<Rightarrow> Some (w, None)
      | Some dlg \<Rightarrow> do { w \<leftarrow> ref_dlg_unsafe w dlg 1; Some (w, Some dlg) }) }"

text \<open>
  \<open>parse_dlg_did\<close>: the byte at the end is read when there is no separator; \<open>behind\<close> is what
  the memory holds there, if it can be read.
\<close>

definition DLG_SEPARATOR :: char where
  "DLG_SEPARATOR = CHR ''.''"

definition parse_dlg_did :: "str \<Rightarrow> char option \<Rightarrow> (int \<times> u32 \<times> u32) option" where
  "parse_dlg_did did behind =
     (let n = length (takeWhile (\<lambda>c. c \<noteq> DLG_SEPARATOR) did)
      in do {
        p \<leftarrow> (if n < length did then Some (did ! n) else behind);
        if p \<noteq> DLG_SEPARATOR then Some (-1, 0, 0)
        else (case reverse_hex2int (take n did) of
                (r1, he) \<Rightarrow>
                  if r1 < 0 then Some (-1, 0, 0)
                  else (case reverse_hex2int (drop (n + 1) did) of
                          (r2, hid) \<Rightarrow> if r2 < 0 then Some (-1, 0, 0) else Some (0, he, hid))) })"

definition get_dlg_by_did :: "world \<Rightarrow> str \<Rightarrow> char option \<Rightarrow> bool \<Rightarrow> (world \<times> addr option) option" where
  "get_dlg_by_did w did behind active_only = do {
     (ret, he, hid) \<leftarrow> parse_dlg_did did behind;
     if ret < 0 then Some (w, None)
     else if unat he \<ge> length (entries w) then Some (w, None)
     else do {
       en \<leftarrow> get_entry w he;
       r \<leftarrow> walk (cells w) d_next
             (\<lambda>c. \<not> (active_only \<and> d_state c > CONFIRMED) \<and> h_id c = hid) (e_first en);
       (case r of
          None \<Rightarrow> Some (w, None)
        | Some dlg \<Rightarrow> do { w \<leftarrow> ref_dlg_unsafe w dlg 1; Some (w, Some dlg) }) } }"

definition get_dlg_by_dialog_id :: "world \<Rightarrow> str \<Rightarrow> char option \<Rightarrow> (world \<times> addr option) option" where
  "get_dlg_by_dialog_id w dialog_id behind = do {
     (ret, he, hid) \<leftarrow> parse_dlg_did dialog_id behind;
     (w, dlg) \<leftarrow> (if ret = 0 then lookup_dlg w he hid True else Some (w, None));
     if dlg = None then get_dlg_by_callid w dialog_id True else Some (w, dlg) }"

text \<open>\<open>dlg_get_did_buf\<close> (dlg_handlers.c): the identifier of a dialog, into a buffer of \<open>room\<close> bytes.\<close>

definition dlg_get_did_buf :: "dlg_cell \<Rightarrow> nat \<Rightarrow> int \<times> str" where
  "dlg_get_did_buf dlg room =
     (case int2reverse_hex room (h_entry dlg) of
        (s1, room, r1) \<Rightarrow>
          if r1 = -1 then (-1, s1)
          else if room = 0 then (-1, s1)
          else (case int2reverse_hex (room - 1) (h_id dlg) of
                  (s2, room, r2) \<Rightarrow>
                    if r2 = -1 then (-1, s1 @ [DLG_SEPARATOR] @ s2)
                    else (0, s1 @ [DLG_SEPARATOR] @ s2)))"

text \<open>\<open>dlg_get_db_id\<close> and \<open>dlg_parse_db_id\<close>: the identifier of a dialog in the database.\<close>

definition dlg_get_db_id :: "dlg_cell \<Rightarrow> u64" where
  "dlg_get_db_id dlg = push_bit 32 (ucast (h_entry dlg)) OR ucast (h_id dlg)"

definition dlg_parse_db_id :: "u64 \<Rightarrow> u32 \<times> u32" where
  "dlg_parse_db_id did = (ucast (drop_bit 32 did), ucast (did AND 0xFFFFFFFF))"

subsection \<open>The state machine of a dialog\<close>

definition set_state :: "world \<Rightarrow> addr \<Rightarrow> dlg_state \<Rightarrow> world option" where
  "set_state w dlg s = upd_cell w dlg (\<lambda>c. c\<lparr>d_state := s\<rparr>)"

definition has_bye :: "dlg_cell \<Rightarrow> bool" where
  "has_bye c \<longleftrightarrow> d_flags c AND DLG_FLAG_HASBYE \<noteq> 0"

definition set_bye :: "dlg_cell \<Rightarrow> dlg_cell" where
  "set_bye c = c\<lparr>d_flags := d_flags c OR DLG_FLAG_HASBYE\<rparr>"

text \<open>
  The switch of \<open>next_state_dlg\<close> on the event and the state: the new state of the table and
  \<open>*unref\<close>. The branches that only log keep everything.
\<close>

fun next_state_switch :: "world \<Rightarrow> addr \<Rightarrow> dlg_cell \<Rightarrow> dlg_event \<Rightarrow> dlg_dir \<Rightarrow> int \<Rightarrow> (world \<times> int) option" where
  "next_state_switch w dlg c TDEL dir last_dst_leg =
     (case d_state c of
        UNCONFIRMED \<Rightarrow> do {
          w \<leftarrow> set_state w dlg DELETED; w \<leftarrow> unref_dlg_unsafe w dlg 1 (h_entry c); Some (w, 1) }
      | EARLY \<Rightarrow> do {
          w \<leftarrow> set_state w dlg DELETED; w \<leftarrow> unref_dlg_unsafe w dlg 1 (h_entry c); Some (w, 1) }
      | CONFIRMED_NA \<Rightarrow> do { w \<leftarrow> unref_dlg_unsafe w dlg 1 (h_entry c); Some (w, 0) }
      | CONFIRMED \<Rightarrow> do { w \<leftarrow> unref_dlg_unsafe w dlg 1 (h_entry c); Some (w, 0) }
      | DELETED \<Rightarrow> Some (w, 1))"
| "next_state_switch w dlg c RPL1xx dir last_dst_leg =
     (if d_state c = UNCONFIRMED \<or> d_state c = EARLY
      then do { w \<leftarrow> set_state w dlg EARLY; Some (w, 0) } else Some (w, 0))"
| "next_state_switch w dlg c RPL3xx dir last_dst_leg =
     (if d_state c = UNCONFIRMED \<or> d_state c = EARLY
      then do { w \<leftarrow> set_state w dlg DELETED; Some (w, 1) } else Some (w, 0))"
| "next_state_switch w dlg c RPL2xx dir last_dst_leg =
     (case d_state c of
        DELETED \<Rightarrow>
          if has_bye c then Some (w, 0)
          else do {
            w \<leftarrow> ref_dlg_unsafe w dlg 1; w \<leftarrow> set_state w dlg CONFIRMED_NA; Some (w, 0) }
      | UNCONFIRMED \<Rightarrow> do { w \<leftarrow> set_state w dlg CONFIRMED_NA; Some (w, 0) }
      | EARLY \<Rightarrow> do { w \<leftarrow> set_state w dlg CONFIRMED_NA; Some (w, 0) }
      | CONFIRMED_NA \<Rightarrow> Some (w, 0)
      | CONFIRMED \<Rightarrow> Some (w, 0))"
| "next_state_switch w dlg c REQACK dir last_dst_leg =
     (if d_state c = CONFIRMED_NA
      then do { w \<leftarrow> set_state w dlg CONFIRMED; Some (w, 0) } else Some (w, 0))"
| "next_state_switch w dlg c REQBYE dir last_dst_leg =
     (if d_state c = CONFIRMED_NA \<or> d_state c = CONFIRMED then
        (if dir = DOWNSTREAM \<and> last_dst_leg \<noteq> int (leg_200ok c) then Some (w, 0)
         else do {
           w \<leftarrow> upd_cell w dlg set_bye; w \<leftarrow> set_state w dlg DELETED; Some (w, 1) })
      else if d_state c = DELETED then Some (w, 0)
      else if last_dst_leg = 0 then Some (w, 0)
      else do { w \<leftarrow> upd_cell w dlg set_bye; Some (w, 0) })"
| "next_state_switch w dlg c REQPRACK dir last_dst_leg = Some (w, 0)"
| "next_state_switch w dlg c REQ dir last_dst_leg = Some (w, 0)"

text \<open>What \<open>next_state_dlg\<close> announces at its end: a changed state, and to the cluster a deletion.\<close>

definition announce :: "world \<Rightarrow> addr \<Rightarrow> dlg_state \<Rightarrow> dlg_state \<Rightarrow> bool \<Rightarrow> world" where
  "announce w dlg old_state new_state replicate_events =
     w\<lparr>effects := effects w @
        (if old_state \<noteq> new_state then [StateChanged dlg old_state new_state] else []) @
        (if repl_cluster w \<and> replicate_events \<and>
            (old_state = CONFIRMED_NA \<or> old_state = CONFIRMED) \<and> new_state = DELETED
         then [ReplicateDeleted dlg] else [])\<rparr>"

text \<open>The result: the state of the table, \<open>*old_state\<close>, \<open>*new_state\<close> and \<open>*unref\<close>.\<close>

definition next_state_dlg :: "world \<Rightarrow> addr \<Rightarrow> dlg_event \<Rightarrow> dlg_dir \<Rightarrow> int \<Rightarrow> bool \<Rightarrow>
    (world \<times> dlg_state \<times> dlg_state \<times> int) option" where
  "next_state_dlg w dlg event dir last_dst_leg replicate_events = do {
     c \<leftarrow> cells w dlg;
     (w, unref) \<leftarrow> next_state_switch w dlg c event dir last_dst_leg;
     c' \<leftarrow> cells w dlg;
     Some (announce w dlg (d_state c) (d_state c') replicate_events, d_state c, d_state c', unref) }"

definition update_dlg_stats :: "dlg_cell \<Rightarrow> int \<Rightarrow> int \<times> int \<Rightarrow> int \<times> int" where
  "update_dlg_stats dlg amount stats =
     (case stats of (active_dlgs, early_dlgs) \<Rightarrow>
        if d_state dlg = CONFIRMED_NA \<or> d_state dlg = CONFIRMED then (active_dlgs + amount, early_dlgs)
        else if d_state dlg = EARLY then (active_dlgs, early_dlgs + amount)
        else stats)"

subsection \<open>Well-formed tables\<close>

abbreviation nx :: "world \<Rightarrow> ptrs" where
  "nx w \<equiv> \<lambda>a. map_option d_next (cells w a)"

abbreviation pv :: "world \<Rightarrow> ptrs" where
  "pv w \<equiv> \<lambda>a. map_option d_prev (cells w a)"

text \<open>The entry \<open>i\<close> holds the dialogs \<open>xs\<close>, linked both ways, counted, and hashed to this entry.\<close>

definition entry_inv :: "world \<Rightarrow> nat \<Rightarrow> addr list \<Rightarrow> bool" where
  "entry_inv w i xs \<longleftrightarrow>
     dll (nx w) (pv w) (e_first (entries w ! i)) (e_last (entries w ! i)) xs \<and>
     cnt (entries w ! i) = of_nat (length xs) \<and>
     (\<forall>a \<in> set xs. \<forall>c. cells w a = Some c \<longrightarrow> unat (h_entry c) = i)"

definition table_inv :: "world \<Rightarrow> addr list list \<Rightarrow> bool" where
  "table_inv w L \<longleftrightarrow>
     length L = length (entries w) \<and> (\<forall>i < length L. entry_inv w i (L ! i))"

text \<open>A cell without the pointers that linking changes.\<close>

definition payload :: "dlg_cell \<Rightarrow> dlg_cell" where
  "payload c = c\<lparr>d_next := None, d_prev := None\<rparr>"

lemma payload_simps [simp]:
  "ref (payload c) = ref c" "h_id (payload c) = h_id c" "h_entry (payload c) = h_entry c"
  "d_state (payload c) = d_state c" "d_flags (payload c) = d_flags c" "del_delay (payload c) = del_delay c"
  "d_callid (payload c) = d_callid c" "leg_tags (payload c) = leg_tags c"
  "payload (c\<lparr>d_next := n\<rparr>) = payload c" "payload (c\<lparr>d_prev := p\<rparr>) = payload c"
  "payload (c\<lparr>ref := r\<rparr>) = (payload c)\<lparr>ref := r\<rparr>" "payload (c\<lparr>h_id := i\<rparr>) = (payload c)\<lparr>h_id := i\<rparr>"
  "payload (c\<lparr>d_state := s\<rparr>) = (payload c)\<lparr>d_state := s\<rparr>"
  "payload (c\<lparr>d_flags := f\<rparr>) = (payload c)\<lparr>d_flags := f\<rparr>"
  by (simp_all add: payload_def)

lemma payload_eqD:
  assumes "payload c = payload d"
  shows "ref c = ref d" "h_id c = h_id d" "h_entry c = h_entry d" "d_state c = d_state d"
    "d_flags c = d_flags d" "del_delay c = del_delay d" "d_callid c = d_callid d" "leg_tags c = leg_tags d"
proof -
  have "f (payload c) = f (payload d)" for f :: "dlg_cell \<Rightarrow> 'x" using assms by simp
  from this [of ref] this [of h_id] this [of h_entry] this [of d_state] this [of d_flags] this [of del_delay]
    this [of d_callid] this [of leg_tags]
  show "ref c = ref d" "h_id c = h_id d" "h_entry c = h_entry d" "d_state c = d_state d"
    "d_flags c = d_flags d" "del_delay c = del_delay d" "d_callid c = d_callid d" "leg_tags c = leg_tags d"
    by simp_all
qed

lemma upd_cell_Some [simp]:
  "cells w a = Some c \<Longrightarrow> upd_cell w a f = Some (w\<lparr>cells := (cells w)(a \<mapsto> f c)\<rparr>)"
  by (simp add: upd_cell_def)

lemma get_entry_Some [simp]: "unat e < length (entries w) \<Longrightarrow> get_entry w e = Some (entries w ! unat e)"
  by (simp add: get_entry_def)

lemma upd_entry_Some [simp]:
  "unat e < length (entries w) \<Longrightarrow>
   upd_entry w e f = Some (w\<lparr>entries := (entries w)[unat e := f (entries w ! unat e)]\<rparr>)"
  by (simp add: upd_entry_def)

lemma table_inv_len: "table_inv w L \<Longrightarrow> length L = length (entries w)"
  by (simp add: table_inv_def)

lemma table_inv_entry: "table_inv w L \<Longrightarrow> i < length (entries w) \<Longrightarrow> entry_inv w i (L ! i)"
  by (simp add: table_inv_def)

lemma entry_inv_cell: "entry_inv w i xs \<Longrightarrow> a \<in> set xs \<Longrightarrow> \<exists>c. cells w a = Some c \<and> unat (h_entry c) = i"
  using dll_dom [of "nx w" "pv w"] by (fastforce simp: entry_inv_def)

text \<open>A list is only about its own cells and its own entry.\<close>

lemma entry_inv_frame:
  assumes "entry_inv w i xs" "entries w' ! i = entries w ! i" "\<forall>a \<in> set xs. cells w' a = cells w a"
  shows "entry_inv w' i xs"
  using assms by (auto simp: entry_inv_def intro: dll_cong)

text \<open>The dialogs of one entry are not in another.\<close>

lemma table_inv_other:
  assumes "table_inv w L" "i < length L" "j < length L" "i \<noteq> j" "a \<in> set (L ! i)"
  shows "a \<notin> set (L ! j)"
  using assms entry_inv_cell [of w i "L ! i" a] entry_inv_cell [of w j "L ! j" a]
  by (auto simp: table_inv_def)

text \<open>Replacing one entry and its list.\<close>

lemma table_inv_update:
  assumes "table_inv w L" "i < length L" "entry_inv w' i xs"
    and "length (entries w') = length (entries w)"
    and "\<forall>j < length L. j \<noteq> i \<longrightarrow> entries w' ! j = entries w ! j"
    and "\<forall>j < length L. j \<noteq> i \<longrightarrow> (\<forall>a \<in> set (L ! j). cells w' a = cells w a)"
  shows "table_inv w' (L[i := xs])"
  unfolding table_inv_def
proof (intro conjI allI impI)
  fix j assume j: "j < length (L[i := xs])"
  show "entry_inv w' j (L[i := xs] ! j)"
  proof (cases "j = i")
    case False
    then have "entry_inv w' j (L ! j)"
      using j assms by (intro entry_inv_frame [of w j "L ! j" w']) (auto simp: table_inv_def)
    with False show ?thesis by simp
  qed (use assms j in simp)
qed (use assms in \<open>simp add: table_inv_def\<close>)

subsection \<open>Linking and unlinking\<close>

definition linked_in :: "addr list list \<Rightarrow> addr \<Rightarrow> bool" where
  "linked_in L a \<longleftrightarrow> (\<exists>i < length L. a \<in> set (L ! i))"

lemma raw_link_dlg_unsafe_ok:
  assumes inv: "table_inv w L" and e: "unat e < length (entries w)"
    and a: "cells w a = Some c" "d_next c = None" "d_prev c = None" "unat (h_entry c) = unat e"
    and new: "\<not> linked_in L a"
  shows "\<exists>w'. raw_link_dlg_unsafe w e a = Some w' \<and> table_inv w' (L[unat e := L ! unat e @ [a]]) \<and>
      (\<exists>c'. cells w' a = Some c' \<and> payload c' = payload (c\<lparr>ref := ref c + 1\<rparr>)) \<and>
      (\<forall>b. b \<noteq> a \<longrightarrow> map_option payload (cells w' b) = map_option payload (cells w b)) \<and>
      (\<forall>i. next_id (entries w' ! i) = next_id (entries w ! i)) \<and>
      (\<exists>C E. w' = w\<lparr>cells := C, entries := E\<rparr>)"
proof -
  let ?i = "unat e" let ?xs = "L ! ?i" let ?en = "entries w ! ?i"
  have i: "?i < length L" using e table_inv_len [OF inv] by simp
  have ent: "entry_inv w ?i ?xs" using inv i by (simp add: table_inv_def)
  then have dl: "dll (nx w) (pv w) (e_first ?en) (e_last ?en) ?xs" by (simp add: entry_inv_def)
  have fresh: "a \<notin> set (L ! j)" if "j < length L" for j using new that by (auto simp: linked_in_def)
  show ?thesis
  proof (cases "?xs = []")
    case True
    then have fst: "e_first ?en = None" using dll_ends(1) [OF dl] by simp
    let ?w = "w\<lparr>cells := (cells w)(a \<mapsto> c\<lparr>ref := ref c + 1\<rparr>),
      entries := (entries w)[?i := ?en\<lparr>e_first := Some a, e_last := Some a, cnt := cnt ?en + 1\<rparr>]\<rparr>"
    have run: "raw_link_dlg_unsafe w e a = Some ?w"
      using e a fst by (simp add: raw_link_dlg_unsafe_def)
    have "entry_inv ?w ?i (?xs @ [a])"
      using True ent a e by (simp add: entry_inv_def dll_def)
    from table_inv_update [OF inv i this] fresh have "table_inv ?w (L[?i := ?xs @ [a]])"
      by fastforce
    with run a e show ?thesis by (intro exI [of _ ?w]) (auto simp: nth_list_update)
  next
    case False
    define l where "l = last ?xs"
    have l: "e_first ?en \<noteq> None" "e_last ?en = Some l" "l \<in> set ?xs"
      using False dll_ends [OF dl] by (auto simp: l_def)
    then have la: "l \<noteq> a" using fresh [OF i] by auto
    obtain cl where cl: "cells w l = Some cl" using entry_inv_cell [OF ent l(3)] by auto
    let ?w = "w\<lparr>cells := (cells w)(l \<mapsto> cl\<lparr>d_next := Some a\<rparr>, a \<mapsto> c\<lparr>d_prev := Some l, ref := ref c + 1\<rparr>),
      entries := (entries w)[?i := ?en\<lparr>e_last := Some a, cnt := cnt ?en + 1\<rparr>]\<rparr>"
    have run: "raw_link_dlg_unsafe w e a = Some ?w"
      using e a l la cl by (auto simp: raw_link_dlg_unsafe_def fun_upd_twist)
    have d: "distinct ?xs" using dl by (simp add: dll_def)
    have "dll (nx ?w) (pv ?w) (if ?xs = [] then Some a else e_first ?en) (Some a) (?xs @ [a])"
    proof (rule dll_snoc [OF dl])
      show "\<forall>x \<in> set (butlast ?xs). nx ?w x = nx w x"
        using d False fresh [OF i] last_notin_butlast [of ?xs] by (auto simp: l_def dest: in_set_butlastD)
      show "\<forall>x \<in> set ?xs. pv ?w x = pv w x" using fresh [OF i] cl by auto
    qed (use fresh [OF i] la a l in \<open>auto simp: l_def\<close>)
    then have "entry_inv ?w ?i (?xs @ [a])"
      using False ent a e cl la fresh [OF i] l(3) by (auto simp: entry_inv_def)
    moreover have "\<forall>j < length L. j \<noteq> ?i \<longrightarrow> (\<forall>b \<in> set (L ! j). cells ?w b = cells w b)"
      using fresh table_inv_other [OF inv i _ _ l(3)] by auto
    ultimately have "table_inv ?w (L[?i := ?xs @ [a]])"
      by (intro table_inv_update [OF inv i]) auto
    with run a e la cl show ?thesis by (intro exI [of _ ?w]) (auto simp: nth_list_update)
  qed
qed

lemma entry_upd [simp]:
  "(en\<lparr>e_last := l\<rparr>)\<lparr>e_first := f\<rparr> = en\<lparr>e_first := f, e_last := l\<rparr>"
  "en\<lparr>e_first := e_first en\<rparr> = en" "en\<lparr>e_last := e_last en\<rparr> = en"
  by simp_all

text \<open>What \<open>unlink_unsafe_dlg\<close> writes, in all the cases of its two tests at once.\<close>

lemma unlink_run:
  assumes e: "unat e < length (entries w)" and a: "cells w a = Some c"
    and n: "\<And>y. d_next c = Some y \<Longrightarrow> cells w y \<noteq> None \<and> y \<noteq> a"
    and p: "\<And>x. d_prev c = Some x \<Longrightarrow> cells w x \<noteq> None \<and> x \<noteq> a"
  shows "\<exists>C. unlink_unsafe_dlg w e a = Some (w\<lparr>cells := C, entries := (entries w)[unat e :=
        (entries w ! unat e)\<lparr>e_first := if d_prev c = None then d_next c else e_first (entries w ! unat e),
           e_last := if d_next c = None then d_prev c else e_last (entries w ! unat e),
           cnt := cnt (entries w ! unat e) - 1\<rparr>]\<rparr>) \<and>
      C a = Some (payload c) \<and>
      (\<forall>b. b \<noteq> a \<longrightarrow> map_option payload (C b) = map_option payload (cells w b) \<and>
         map_option d_next (C b) = (if d_prev c = Some b then Some (d_next c) else nx w b) \<and>
         map_option d_prev (C b) = (if d_next c = Some b then Some (d_prev c) else pv w b)) \<and>
      (\<forall>b. b \<noteq> a \<and> d_prev c \<noteq> Some b \<and> d_next c \<noteq> Some b \<longrightarrow> C b = cells w b)"
proof (cases "d_next c"; cases "d_prev c")
  assume "d_next c = None" "d_prev c = None"
  with e a show ?thesis
    by (intro exI [of _ "(cells w)(a \<mapsto> payload c)"]) (simp add: unlink_unsafe_dlg_def payload_def)
next
  fix x assume nx: "d_next c = None" and px: "d_prev c = Some x"
  from p [OF px] obtain cx where "cells w x = Some cx" "x \<noteq> a" by auto
  with e a nx px show ?thesis
    by (intro exI [of _ "(cells w)(x \<mapsto> cx\<lparr>d_next := None\<rparr>, a \<mapsto> payload c)"])
      (simp add: unlink_unsafe_dlg_def payload_def)
next
  fix y assume ny: "d_next c = Some y" and py: "d_prev c = None"
  from n [OF ny] obtain cy where "cells w y = Some cy" "y \<noteq> a" by auto
  with e a ny py show ?thesis
    by (intro exI [of _ "(cells w)(y \<mapsto> cy\<lparr>d_prev := None\<rparr>, a \<mapsto> payload c)"])
      (simp add: unlink_unsafe_dlg_def payload_def)
next
  fix y x
  assume ny: "d_next c = Some y" and px: "d_prev c = Some x"
  from n [OF ny] obtain cy where "cells w y = Some cy" "y \<noteq> a" by auto
  moreover from p [OF px] obtain cx where "cells w x = Some cx" "x \<noteq> a" by auto
  ultimately show ?thesis using e a ny px
    by (cases "x = y") (auto simp: unlink_unsafe_dlg_def payload_def)
qed

lemma unlink_unsafe_dlg_ok:
  assumes inv: "table_inv w L" and e: "unat e < length (entries w)" and a: "cells w a = Some c" "a \<in> set (L ! unat e)"
  shows "\<exists>w'. unlink_unsafe_dlg w e a = Some w' \<and> table_inv w' (L[unat e := remove1 a (L ! unat e)]) \<and>
      cells w' a = Some (payload c) \<and>
      (\<forall>b. map_option payload (cells w' b) = map_option payload (cells w b)) \<and>
      (\<exists>C E. w' = w\<lparr>cells := C, entries := E\<rparr>)"
proof -
  let ?i = "unat e" let ?en = "entries w ! ?i"
  have i: "?i < length L" using e table_inv_len [OF inv] by simp
  have ent: "entry_inv w ?i (L ! ?i)" using inv i by (simp add: table_inv_def)
  from a(2) obtain xs ys where L: "L ! ?i = xs @ a # ys" "a \<notin> set xs" by (meson split_list_first)
  with ent have dl: "dll (nx w) (pv w) (e_first ?en) (e_last ?en) (xs @ a # ys)" by (simp add: entry_inv_def)
  then have d: "distinct (xs @ a # ys)" by (simp add: dll_def)
  have n: "d_next c = (if ys = [] then None else Some (hd ys))"
    and p: "d_prev c = (if xs = [] then None else Some (last xs))"
    using dll_middle [OF dl] a(1) by simp_all
  have dom: "cells w b \<noteq> None" if "b \<in> set (L ! ?i)" for b using entry_inv_cell [OF ent that] by auto
  have "\<exists>C. unlink_unsafe_dlg w e a = Some (w\<lparr>cells := C, entries := (entries w)[unat e :=
        ?en\<lparr>e_first := if d_prev c = None then d_next c else e_first ?en,
           e_last := if d_next c = None then d_prev c else e_last ?en, cnt := cnt ?en - 1\<rparr>]\<rparr>) \<and>
      C a = Some (payload c) \<and>
      (\<forall>b. b \<noteq> a \<longrightarrow> map_option payload (C b) = map_option payload (cells w b) \<and>
         map_option d_next (C b) = (if d_prev c = Some b then Some (d_next c) else nx w b) \<and>
         map_option d_prev (C b) = (if d_next c = Some b then Some (d_prev c) else pv w b)) \<and>
      (\<forall>b. b \<noteq> a \<and> d_prev c \<noteq> Some b \<and> d_next c \<noteq> Some b \<longrightarrow> C b = cells w b)"
  proof (rule unlink_run [OF e a(1)])
    show "cells w y \<noteq> None \<and> y \<noteq> a" if "d_next c = Some y" for y
      using that n d L dom [of y] by (cases ys) auto
    show "cells w x \<noteq> None \<and> x \<noteq> a" if "d_prev c = Some x" for x
      using that p d L dom [of x] by (auto split: if_splits)
  qed
  then obtain C where run: "unlink_unsafe_dlg w e a = Some (w\<lparr>cells := C, entries := (entries w)[unat e :=
        ?en\<lparr>e_first := if d_prev c = None then d_next c else e_first ?en,
           e_last := if d_next c = None then d_prev c else e_last ?en, cnt := cnt ?en - 1\<rparr>]\<rparr>)"
    and Ca: "C a = Some (payload c)"
    and pay: "\<And>b. b \<noteq> a \<Longrightarrow> map_option payload (C b) = map_option payload (cells w b)"
    and nxC: "\<And>b. b \<noteq> a \<Longrightarrow> map_option d_next (C b) = (if d_prev c = Some b then Some (d_next c) else nx w b)"
    and pvC: "\<And>b. b \<noteq> a \<Longrightarrow> map_option d_prev (C b) = (if d_next c = Some b then Some (d_prev c) else pv w b)"
    and same: "\<And>b. b \<noteq> a \<Longrightarrow> d_prev c \<noteq> Some b \<Longrightarrow> d_next c \<noteq> Some b \<Longrightarrow> C b = cells w b"
    by blast
  let ?w = "w\<lparr>cells := C, entries := (entries w)[unat e :=
        ?en\<lparr>e_first := if d_prev c = None then d_next c else e_first ?en,
           e_last := if d_next c = None then d_prev c else e_last ?en, cnt := cnt ?en - 1\<rparr>]\<rparr>"
  have "dll (nx ?w) (pv ?w) (if xs = [] then d_next c else e_first ?en) (if ys = [] then d_prev c else e_last ?en) (xs @ ys)"
  proof (rule dll_unlink [OF dl])
    show "\<forall>x \<in> set (butlast xs) \<union> set ys. nx ?w x = nx w x"
    proof
      fix x assume x: "x \<in> set (butlast xs) \<union> set ys"
      then have "x \<noteq> a" "xs = [] \<or> x \<noteq> last xs"
        using d last_notin_butlast [of xs] last_in_set [of xs] by (auto simp: disjoint_iff dest: in_set_butlastD)
      then show "nx ?w x = nx w x" using nxC [of x] p by auto
    qed
    show "xs \<noteq> [] \<longrightarrow> nx ?w (last xs) = Some (d_next c)"
      using d p nxC [of "last xs"] last_in_set [of xs] by (cases "last xs = a") auto
    show "\<forall>x \<in> set xs \<union> set (tl ys). pv ?w x = pv w x"
    proof
      fix x assume x: "x \<in> set xs \<union> set (tl ys)"
      then have "x \<noteq> a" "ys = [] \<or> x \<noteq> hd ys" using d by (cases ys; auto)+
      then show "pv ?w x = pv w x" using pvC [of x] n by auto
    qed
    show "ys \<noteq> [] \<longrightarrow> pv ?w (hd ys) = Some (d_prev c)" using d n pvC [of "hd ys"] by (cases ys) auto
  qed (use a in auto)
  moreover have "unat (h_entry c') = ?i" if "b \<in> set (xs @ ys)" "C b = Some c'" for b c'
  proof -
    have "b \<noteq> a" "b \<in> set (L ! ?i)" using that d L by auto
    with entry_inv_cell [OF ent this(2)] pay [of b] that obtain c0 where
      "payload c' = payload c0" "unat (h_entry c0) = ?i" by auto
    with payload_eqD(3) [OF this(1)] show ?thesis by simp
  qed
  ultimately have "entry_inv ?w ?i (xs @ ys)"
    using ent L(1) e n p by (auto simp: entry_inv_def)
  moreover have "\<forall>j < length L. j \<noteq> ?i \<longrightarrow> (\<forall>b \<in> set (L ! j). cells ?w b = cells w b)"
  proof (intro allI impI ballI)
    fix j b assume j: "j < length L" "j \<noteq> ?i" "b \<in> set (L ! j)"
    then have "b \<notin> set (L ! ?i)" using table_inv_other [OF inv _ i] by blast
    then have "b \<noteq> a" "xs \<noteq> [] \<Longrightarrow> b \<noteq> last xs" "ys \<noteq> [] \<Longrightarrow> b \<noteq> hd ys"
      using L last_in_set [of xs] hd_in_set [of ys] by auto
    then show "cells ?w b = cells w b" using same [of b] n p by (auto split: if_splits)
  qed
  ultimately have "table_inv ?w (L[?i := xs @ ys])" by (intro table_inv_update [OF inv i]) auto
  moreover have "remove1 a (L ! ?i) = xs @ ys" using L by (simp add: remove1_append)
  moreover have "map_option payload (C b) = map_option payload (cells w b)" for b
    using pay [of b] Ca a(1) by (cases "b = a") (simp_all add: payload_def)
  moreover have "\<exists>C E. ?w = w\<lparr>cells := C, entries := E\<rparr>" by blast
  ultimately show ?thesis using run Ca by (intro exI [of _ ?w]) simp
qed

subsection \<open>Destroying dialogs and dropping references\<close>

text \<open>A timer has a link for each dialog there is, and for no other.\<close>

definition links_of :: "(addr \<rightharpoonup> dlg_cell) \<Rightarrow> tl_heap \<Rightarrow> bool" where
  "links_of C t \<longleftrightarrow> (\<forall>a. C a = None \<longleftrightarrow> t (Tl a) = None)"

definition world_inv :: "world \<Rightarrow> addr list list \<Rightarrow> addr list \<Rightarrow> addr list \<Rightarrow> bool" where
  "world_inv w L ts ds \<longleftrightarrow>
     table_inv w L \<and> timer_inv (d_timer w) ts \<and> timer_inv (ddel_timer w) ds \<and>
     links_of (cells w) (d_timer w) \<and> links_of (cells w) (ddel_timer w)"

lemma links_of_cong: "links_of C t \<Longrightarrow> (\<And>a. (C' a = None) = (C a = None)) \<Longrightarrow> links_of C' t"
  by (simp add: links_of_def)

lemma links_of_dom: "links_of C t \<Longrightarrow> dom t' = dom t \<Longrightarrow> links_of C t'"
  unfolding links_of_def by (metis domIff)

lemma links_of_free: "links_of C t \<Longrightarrow> links_of (C(a := None)) (t(Tl a := None))"
  by (simp add: links_of_def)

lemma links_of_cell: "links_of C t \<Longrightarrow> C a = Some c \<Longrightarrow> \<exists>n. t (Tl a) = Some n"
  by (metis links_of_def not_Some_eq)

lemma timer_inv_upd:
  assumes "timer_inv t xs" "a \<notin> set xs" "\<And>n. v = Some n \<Longrightarrow> tl_prev n = NULL \<and> tl_timeout n = 0"
  shows "timer_inv (t(Tl a := v)) xs"
proof -
  note D = timer_invD [OF assms(1)]
  have same: "(t(Tl a := v)) q = t q" if "q \<in> set (ring xs)" for q using assms(2) that by (auto simp: ring_def)
  then have eq: "nxt (t(Tl a := v)) q = nxt t q" "prv (t(Tl a := v)) q = prv t q" if "q \<in> set (ring xs)" for q
    using that by (simp_all add: nxt_def prv_def)
  have "linked (t(Tl a := v)) xs"
    unfolding linked_def
  proof (rule conjI [rotated])
    have sub: "set (tl (ring xs)) \<subseteq> set (ring xs)" "set (butlast (ring xs)) \<subseteq> set (ring xs)"
      by (auto simp: ring_def dest: in_set_butlastD)
    have "successively (link t) (ring xs)" using D(1) by (simp add: linked_def)
    then show "successively (link (t(Tl a := v))) (ring xs)"
    proof (rule successively_link_frame)
      show "\<forall>p \<in> set (butlast (ring xs)). nxt (t(Tl a := v)) p = nxt t p" using eq(1) sub(2) by blast
      show "\<forall>p \<in> set (tl (ring xs)). prv (t(Tl a := v)) p = prv t p" using eq(2) sub(1) by blast
    qed
  qed (rule D(3))
  moreover have "sorted (map (tmo (t(Tl a := v))) xs)"
  proof -
    have "map (tmo (t(Tl a := v))) xs = map (tmo t) xs" using assms(2) by (auto simp: tmo_def)
    with D(2) show ?thesis by metis
  qed
  moreover have "tl_prev n = NULL \<and> tl_timeout n = 0" if "(t(Tl a := v)) (Tl b) = Some n" "b \<notin> set xs" for b n
    using that assms by (cases "b = a") (simp_all add: timer_inv_def)
  ultimately show ?thesis using D(4,5) unfolding timer_inv_def by simp
qed

text \<open>The timer operations keep the set of links.\<close>

lemma set_link_dom:
  "set_next t p q = Some t' \<Longrightarrow> dom t' = dom t" "set_prev t p q = Some t' \<Longrightarrow> dom t' = dom t"
  "set_timeout t p v = Some t' \<Longrightarrow> dom t' = dom t"
  by (auto simp: set_next_def set_prev_def set_timeout_def bind_eq_Some_conv split: if_splits)

lemma insert_gen_timer_dom: "insert_gen_timer_unsafe t p = Some t' \<Longrightarrow> dom t' = dom t"
  by (clarsimp simp: insert_gen_timer_unsafe_def bind_eq_Some_conv dest!: set_link_dom)

lemma insert_attempt_dom: "insert_attempt_dlg_del_timer g t p i = Some (t', r) \<Longrightarrow> dom t' = dom t"
proof (cases "t p")
  case (Some n)
  assume run: "insert_attempt_dlg_del_timer g t p i = Some (t', r)"
  show ?thesis
  proof (cases "tl_prev n = NULL \<and> tl_next n = NULL")
    case True
    with run Some obtain t1 where "set_timeout t p (g + i) = Some t1" "insert_gen_timer_unsafe t1 p = Some t'"
      by (auto simp: insert_attempt_dlg_del_timer_def bind_eq_Some_conv simp del: set_timeout_Some)
    then show ?thesis using set_link_dom(3) insert_gen_timer_dom by simp
  next
    case False
    with run Some have "t' = t" by (simp add: insert_attempt_dlg_del_timer_def split: if_splits)
    then show ?thesis by simp
  qed
qed (simp add: insert_attempt_dlg_del_timer_def)

lemma remove_dlg_timer_dom: "remove_dlg_timer t p = Some (t', r) \<Longrightarrow> dom t' = dom t"
  by (cases "t p") (clarsimp simp: remove_dlg_timer_def remove_dlg_timer_unsafe_def bind_eq_Some_conv split: if_splits
      dest!: set_link_dom)+

lemma table_inv_cells_eq:
  assumes "table_inv w L" "entries w' = entries w" "\<And>a. linked_in L a \<Longrightarrow> cells w' a = cells w a"
  shows "table_inv w' L"
  unfolding table_inv_def
proof (intro conjI allI impI)
  fix i assume i: "i < length L"
  then have "\<forall>a \<in> set (L ! i). cells w' a = cells w a" using assms(3) by (auto simp: linked_in_def)
  with assms(1,2) i show "entry_inv w' i (L ! i)"
    by (intro entry_inv_frame [of w i "L ! i" w']) (auto simp: table_inv_def)
qed (use assms in \<open>simp add: table_inv_def\<close>)

lemma destroy_dlg_ok:
  assumes inv: "world_inv w L ts ds" and a: "cells w a = Some c" "\<not> linked_in L a" "a \<notin> set ds"
  shows "\<exists>w'. destroy_dlg w a = Some w' \<and> world_inv w' L (remove1 a ts) ds \<and> cells w' = (cells w)(a := None) \<and>
      entries w' = entries w \<and> effects w' = effects w @ [DestroyCallbacks a] \<and>
      dlg_del_delay w' = dlg_del_delay w \<and> now w' = now w"
proof -
  obtain n where n: "d_timer w (Tl a) = Some n"
    using inv a(1) links_of_cell unfolding world_inv_def by blast
  have t: "timer_inv (d_timer w) ts" and td: "timer_inv (ddel_timer w) ds" using inv by (auto simp: world_inv_def)
  from remove_dlg_timer_refines [OF t n] obtain t' r where
    t': "remove_dlg_timer (d_timer w) (Tl a) = Some (t', r)" "timer_inv t' (remove1 a ts)" by auto
  have dom: "links_of (cells w) t'"
    using inv links_of_dom [OF _ remove_dlg_timer_dom [OF t'(1)]] by (simp add: world_inv_def)
  let ?w = "free_dlg_dlg (w\<lparr>d_timer := t', effects := effects w @ [DestroyCallbacks a]\<rparr>) a"
  from dom have "links_of ((cells w)(a := None)) (t'(Tl a := None))" by (rule links_of_free)
  moreover have "links_of ((cells w)(a := None)) ((ddel_timer w)(Tl a := None))"
    using inv by (intro links_of_free) (simp add: world_inv_def)
  moreover have "timer_inv (t'(Tl a := None)) (remove1 a ts)"
    using t'(2) timer_invD(3) [OF t] by (intro timer_inv_upd) auto
  moreover have "timer_inv ((ddel_timer w)(Tl a := None)) ds" using td a(3) by (intro timer_inv_upd) auto
  moreover have "table_inv ?w L"
  proof (rule table_inv_cells_eq)
    show "table_inv w L" using inv by (simp add: world_inv_def)
    show "cells ?w b = cells w b" if "linked_in L b" for b
      using that a(2) by (cases "b = a") (simp_all add: free_dlg_dlg_def)
  qed (simp add: free_dlg_dlg_def)
  ultimately have "world_inv ?w L (remove1 a ts) ds"
    by (simp add: world_inv_def free_dlg_dlg_def)
  with t'(1) show ?thesis by (auto simp: destroy_dlg_def free_dlg_dlg_def)
qed


lemma world_inv_cell:
  assumes inv: "world_inv w L ts ds" and a: "cells w a = Some c"
    and same: "d_next c' = d_next c" "d_prev c' = d_prev c" "h_entry c' = h_entry c"
  shows "world_inv (w\<lparr>cells := (cells w)(a \<mapsto> c')\<rparr>) L ts ds"
proof -
  let ?w = "w\<lparr>cells := (cells w)(a \<mapsto> c')\<rparr>"
  have p: "nx ?w = nx w" "pv ?w = pv w" using a same by (auto simp: fun_eq_iff)
  have "entry_inv ?w i xs" if "entry_inv w i xs" for i xs
  proof -
    have "dll (nx ?w) (pv ?w) (e_first (entries ?w ! i)) (e_last (entries ?w ! i)) xs"
      unfolding p using that by (simp add: entry_inv_def)
    then show ?thesis using that a same unfolding entry_inv_def by simp
  qed
  then have "table_inv ?w L" using inv by (simp add: world_inv_def table_inv_def)
  moreover have "links_of (cells ?w) t" if "links_of (cells w) t" for t
    using that a by (intro links_of_cong [OF that]) simp
  ultimately show ?thesis using inv unfolding world_inv_def by simp
qed

lemma unref_dlg_unsafe_held:
  assumes inv: "world_inv w L ts ds" and a: "cells w a = Some c" and n: "int n < ref c"
  shows "unref_dlg_unsafe w a n e = Some (w\<lparr>cells := (cells w)(a \<mapsto> c\<lparr>ref := ref c - int n\<rparr>)\<rparr>)"
    and "world_inv (w\<lparr>cells := (cells w)(a \<mapsto> c\<lparr>ref := ref c - int n\<rparr>)\<rparr>) L ts ds"
  using a n world_inv_cell [OF inv a, of "c\<lparr>ref := ref c - int n\<rparr>"] by (simp_all add: unref_dlg_unsafe_def)

lemma linked_in_remove:
  assumes "table_inv w L" "i < length L" "a \<in> set (L ! i)"
  shows "\<not> linked_in (L[i := remove1 a (L ! i)]) a"
proof -
  have "distinct (L ! i)" using assms by (simp add: table_inv_def entry_inv_def dll_def)
  then show ?thesis using assms table_inv_other [OF assms(1,2) _ _ assms(3)]
    by (auto simp: linked_in_def nth_list_update)
qed

lemma unlink_destroy_ok:
  assumes inv: "world_inv w L ts ds" and a: "cells w a = Some c" "a \<in> set (L ! unat e)" "a \<notin> set ds"
    and e: "unat e < length (entries w)"
  shows "\<exists>w1 w'. unlink_unsafe_dlg w e a = Some w1 \<and> destroy_dlg w1 a = Some w' \<and>
      world_inv w' (L[unat e := remove1 a (L ! unat e)]) (remove1 a ts) ds \<and> cells w' a = None \<and>
      (\<forall>b. b \<noteq> a \<longrightarrow> map_option payload (cells w' b) = map_option payload (cells w b)) \<and>
      effects w' = effects w @ [DestroyCallbacks a] \<and> dlg_del_delay w' = dlg_del_delay w \<and>
      length (entries w') = length (entries w)"
proof -
  let ?L = "L[unat e := remove1 a (L ! unat e)]"
  have tab: "table_inv w L" using inv by (simp add: world_inv_def)
  from unlink_unsafe_dlg_ok [OF tab e a(1,2)] obtain w1 C E where
    w1: "unlink_unsafe_dlg w e a = Some w1" "table_inv w1 ?L" "cells w1 a = Some (payload c)"
      "\<And>b. map_option payload (cells w1 b) = map_option payload (cells w b)" "w1 = w\<lparr>cells := C, entries := E\<rparr>"
    by blast
  have none: "(cells w1 b = None) = (cells w b = None)" for b
    using w1(4) [of b] by (cases "cells w1 b"; cases "cells w b") auto
  then have "links_of (cells w1) t" if "links_of (cells w) t" for t using links_of_cong that by blast
  then have "world_inv w1 ?L ts ds" using inv w1(2,5) unfolding world_inv_def by simp
  moreover have "\<not> linked_in ?L a"
    using linked_in_remove [OF tab _ a(2)] e table_inv_len [OF tab] by simp
  ultimately obtain w' where w': "destroy_dlg w1 a = Some w'" "world_inv w' ?L (remove1 a ts) ds"
    "cells w' = (cells w1)(a := None)" "entries w' = entries w1"
    "effects w' = effects w1 @ [DestroyCallbacks a]" "dlg_del_delay w' = dlg_del_delay w1"
    using destroy_dlg_ok [of w1 ?L ts ds a, OF _ w1(3) _ a(3)] by blast
  have "length (entries w') = length (entries w)"
    using w'(2) table_inv_len [OF tab] table_inv_len [of w' ?L] by (simp add: world_inv_def)
  with w1 w' show ?thesis by (intro exI [of _ w1] exI [of _ w']) simp
qed

subsection \<open>Building and linking\<close>

lemma dlg_hash_bound:
  assumes "entries w \<noteq> []" "length (entries w) < 2 ^ 32"
  shows "unat (dlg_hash w ci) < length (entries w)"
proof -
  let ?sz = "word_of_nat (length (entries w)) :: u32"
  have sz: "unat ?sz = length (entries w)" using assms(2) by (simp add: unat_of_nat)
  then have "?sz \<noteq> 0" using assms(1) by (metis length_0_conv unat_0)
  then have "dlg_hash w ci < ?sz" by (simp add: dlg_hash_def core_hash_def Let_def hash_fin_less)
  then show ?thesis using sz by (simp add: word_less_nat_alt)
qed

lemma build_new_dlg_ok:
  assumes inv: "world_inv w L ts ds" and a: "cells w a = None"
  shows "world_inv (build_new_dlg w a ci fu tu) L ts ds" "\<not> linked_in L a"
proof -
  have t: "d_timer w (Tl a) = None" "ddel_timer w (Tl a) = None"
    using inv a unfolding world_inv_def links_of_def by blast+
  have out: "a \<notin> set xs" if "timer_inv t xs" "t (Tl a) = None" for t xs
    using linked_dom [OF timer_invD(1) [OF that(1)], of "Tl a"] that(2) by (auto simp: ring_def)
  show free: "\<not> linked_in L a"
    using inv entry_inv_cell [of w _ _ a] a by (fastforce simp: linked_in_def world_inv_def table_inv_def)
  have "table_inv (build_new_dlg w a ci fu tu) L"
  proof (rule table_inv_cells_eq)
    show "table_inv w L" using inv by (simp add: world_inv_def)
    show "cells (build_new_dlg w a ci fu tu) b = cells w b" if "linked_in L b" for b
      using that free by (cases "b = a") (simp_all add: build_new_dlg_def Let_def)
  qed (simp add: build_new_dlg_def Let_def)
  moreover have "timer_inv (t(Tl a \<mapsto> \<lparr>tl_next = NULL, tl_prev = NULL, tl_timeout = 0\<rparr>)) xs"
    if "timer_inv t xs" "t (Tl a) = None" for t xs
    using timer_inv_upd [OF that(1) out [OF that], of "Some \<lparr>tl_next = NULL, tl_prev = NULL, tl_timeout = 0\<rparr>"] by simp
  moreover have "links_of (C(a \<mapsto> c)) (t(Tl a \<mapsto> n))" if "links_of C t" for C t c n
    using that by (simp add: links_of_def)
  ultimately show "world_inv (build_new_dlg w a ci fu tu) L ts ds"
    using inv t by (simp add: world_inv_def build_new_dlg_def Let_def)
qed

lemma link_dlg_ok:
  assumes inv: "world_inv w L ts ds" and a: "cells w a = Some c" "d_next c = None" "d_prev c = None"
    and new: "\<not> linked_in L a" and e: "unat (h_entry c) < length (entries w)"
  shows "\<exists>w' c'. link_dlg w a k = Some w' \<and>
      world_inv w' (L[unat (h_entry c) := L ! unat (h_entry c) @ [a]]) ts ds \<and>
      cells w' a = Some c' \<and>
      payload c' = (payload c)\<lparr>ref := ref c + 1 + k, h_id := next_id (entries w ! unat (h_entry c))\<rparr> \<and>
      (\<forall>b. b \<noteq> a \<longrightarrow> map_option payload (cells w' b) = map_option payload (cells w b)) \<and>
      length (entries w') = length (entries w) \<and> effects w' = effects w \<and> dlg_del_delay w' = dlg_del_delay w"
proof -
  let ?e = "h_entry c" let ?i = "unat ?e" let ?id = "next_id (entries w ! ?i)"
  let ?w1 = "w\<lparr>cells := (cells w)(a \<mapsto> c\<lparr>h_id := ?id\<rparr>), entries := (entries w)[?i := (entries w ! ?i)\<lparr>next_id := ?id + 1\<rparr>]\<rparr>"
  have tab: "table_inv w L" using inv by (simp add: world_inv_def)
  have "entry_inv ?w1 i (L ! i)" if "i < length L" for i
  proof (rule entry_inv_frame)
    let ?w0 = "w\<lparr>entries := (entries w)[?i := (entries w ! ?i)\<lparr>next_id := ?id + 1\<rparr>]\<rparr>"
    have "entry_inv w i (L ! i)" using tab that by (simp add: table_inv_def)
    then show "entry_inv ?w0 i (L ! i)"
      using e by (cases "i = ?i") (simp_all add: entry_inv_def)
    show "\<forall>b \<in> set (L ! i). cells ?w1 b = cells ?w0 b" using new that by (auto simp: linked_in_def)
  qed simp
  then have tab1: "table_inv ?w1 L" using tab by (simp add: table_inv_def)
  obtain w2 c2 C E where w2: "raw_link_dlg_unsafe ?w1 ?e a = Some w2" "table_inv w2 (L[?i := L ! ?i @ [a]])"
    "cells w2 a = Some c2" "payload c2 = payload (c\<lparr>h_id := ?id, ref := ref c + 1\<rparr>)"
    "\<And>b. b \<noteq> a \<Longrightarrow> map_option payload (cells w2 b) = map_option payload (cells w b)"
    "w2 = ?w1\<lparr>cells := C, entries := E\<rparr>"
    using raw_link_dlg_unsafe_ok [OF tab1, of ?e a "c\<lparr>h_id := ?id\<rparr>"] e a new by auto
  let ?c = "c2\<lparr>ref := ref c2 + k\<rparr>"
  have run: "link_dlg w a k = Some (w2\<lparr>cells := (cells w2)(a \<mapsto> ?c)\<rparr>)"
    using a e w2(1,3) by (simp add: link_dlg_def link_dlg_unsafe_def)
  have none: "(cells w2 b = None) = (cells w b = None)" for b
    using w2(3) a(1) w2(5) [of b] by (cases "b = a"; cases "cells w2 b"; cases "cells w b") auto
  then have "links_of (cells w2) t" if "links_of (cells w) t" for t using links_of_cong that by blast
  then have inv2: "world_inv w2 (L[?i := L ! ?i @ [a]]) ts ds"
    using inv w2(2,6) unfolding world_inv_def by simp
  from world_inv_cell [OF this w2(3), of ?c]
  have "world_inv (w2\<lparr>cells := (cells w2)(a \<mapsto> ?c)\<rparr>) (L[?i := L ! ?i @ [a]]) ts ds" by simp
  moreover have "ref c2 = ref c + 1" using arg_cong [OF w2(4), of ref] by simp
  then have "payload ?c = (payload c)\<lparr>ref := ref c + 1 + k, h_id := ?id\<rparr>" using w2(4) by simp
  moreover have "length (entries w2) = length (entries w)"
    using table_inv_len [OF w2(2)] table_inv_len [OF tab] by simp
  ultimately show ?thesis
    using run w2(5,6) by (intro exI [of _ "w2\<lparr>cells := (cells w2)(a \<mapsto> ?c)\<rparr>"] exI [of _ ?c]) simp
qed

end
