(* ===== verification/Dlg_Table.thy ===== *)
theory Dlg_Table
  imports Dlg_Hash
begin

text \<open>
  The dialog table at work: the operations of dlg_hash.c as steps of a state machine with the
  references its clients hold, the accounting of the state machine of a dialog, searches, and
  the identifiers of dialogs.
\<close>

subsection \<open>The table as a state machine\<close>

text \<open>
  The operations of the module's clients, with the references each client holds: \<open>h a\<close> counts
  those to dialog \<open>a\<close>, the one the table has included. A client may drop what it holds, and
  handles an event only while it holds a reference besides the one that a transaction keeps.
\<close>

datatype dlg_op =
  Create addr str str str nat
| Ref addr nat
| Unref addr nat
| Lookup u32 u32 bool
| SetTimer addr u32
| Event addr dlg_event dlg_dir int bool

text \<open>How the event changes the number of references, before the caller acts on \<open>*unref\<close>.\<close>

definition ref_change :: "dlg_cell \<Rightarrow> dlg_event \<Rightarrow> int" where
  "ref_change c ev =
     (if ev = TDEL \<and> d_state c \<noteq> DELETED then -1
      else if ev = RPL2xx \<and> d_state c = DELETED \<and> \<not> has_bye c then 1 else 0)"

type_synonym table_state = "world \<times> (addr \<Rightarrow> nat)"

inductive dlg_step :: "table_state \<Rightarrow> dlg_op \<Rightarrow> table_state \<Rightarrow> bool" where
  create: "cells w a = None \<Longrightarrow> link_dlg (build_new_dlg w a ci fu tu) a (int k) = Some w' \<Longrightarrow>
     dlg_step (w, h) (Create a ci fu tu k) (w', h(a := Suc k))"
| take: "0 < h a \<Longrightarrow> ref_dlg w a n = Some w' \<Longrightarrow> dlg_step (w, h) (Ref a n) (w', h(a := h a + n))"
| drop: "0 < h a \<Longrightarrow> n \<le> h a \<Longrightarrow> unref_dlg w a n = Some w' \<Longrightarrow>
     dlg_step (w, h) (Unref a n) (w', h(a := h a - n))"
| found: "lookup_dlg w he hid act = Some (w', Some a) \<Longrightarrow>
     dlg_step (w, h) (Lookup he hid act) (w', h(a := Suc (h a)))"
| missed: "lookup_dlg w he hid act = Some (w', None) \<Longrightarrow> dlg_step (w, h) (Lookup he hid act) (w', h)"
| arm: "0 < h a \<Longrightarrow> insert_dlg_timer (now w) (d_timer w) (Tl a) v = Some (t, r) \<Longrightarrow>
     dlg_step (w, h) (SetTimer a v) (w\<lparr>d_timer := t\<rparr>, h)"
| event: "2 \<le> h a \<Longrightarrow> cells w a = Some c \<Longrightarrow>
     next_state_dlg w a ev dir leg rep = Some (w', old, new, unref) \<Longrightarrow>
     dlg_step (w, h) (Event a ev dir leg rep) (w', h(a := nat (int (h a) + ref_change c ev)))"

inductive_cases dlg_step_elims: "dlg_step s e s'"








lemma has_bye_set_bye [simp]: "has_bye (set_bye c)"
proof -
  have "(d_flags c OR 4) AND 4 = 4" by (rule bit_word_eqI) (auto simp: bit_simps)
  then show ?thesis by (simp add: has_bye_def set_bye_def DLG_FLAG_HASBYE_def)
qed

lemma set_bye_simps [simp]:
  "ref (set_bye c) = ref c" "d_next (set_bye c) = d_next c" "d_prev (set_bye c) = d_prev c"
  "h_entry (set_bye c) = h_entry c" "h_id (set_bye c) = h_id c" "d_state (set_bye c) = d_state c"
  "del_delay (set_bye c) = del_delay c" "leg_tags (set_bye c) = leg_tags c" "leg_200ok (set_bye c) = leg_200ok c"
  by (simp_all add: set_bye_def)

lemma has_bye_upd [simp]: "has_bye (c\<lparr>d_state := s\<rparr>) = has_bye c" "has_bye (c\<lparr>ref := r\<rparr>) = has_bye c"
  by (simp_all add: has_bye_def)

text \<open>A dialog is in the table, and its entry holds a reference, until it is deleted.\<close>

definition in_hash :: "dlg_state \<Rightarrow> int" where
  "in_hash s = (if s = DELETED then 0 else 1)"

text \<open>The effect on the cell alone, when the dialog survives: the cell afterwards and \<open>*unref\<close>.\<close>

definition next_cell :: "dlg_cell \<Rightarrow> dlg_event \<Rightarrow> dlg_dir \<Rightarrow> int \<Rightarrow> dlg_cell \<times> int" where
  "next_cell c ev dir leg =
     (let s = d_state c; early = (s = UNCONFIRMED \<or> s = EARLY); confirmed = (s = CONFIRMED_NA \<or> s = CONFIRMED)
      in case ev of
           TDEL \<Rightarrow> if early then (c\<lparr>d_state := DELETED, ref := ref c - 1\<rparr>, 1)
                   else if confirmed then (c\<lparr>ref := ref c - 1\<rparr>, 0) else (c, 1)
         | RPL1xx \<Rightarrow> if early then (c\<lparr>d_state := EARLY\<rparr>, 0) else (c, 0)
         | RPL3xx \<Rightarrow> if early then (c\<lparr>d_state := DELETED\<rparr>, 1) else (c, 0)
         | RPL2xx \<Rightarrow> if early then (c\<lparr>d_state := CONFIRMED_NA\<rparr>, 0)
                     else if s = DELETED \<and> \<not> has_bye c then (c\<lparr>ref := ref c + 1, d_state := CONFIRMED_NA\<rparr>, 0)
                     else (c, 0)
         | REQACK \<Rightarrow> if s = CONFIRMED_NA then (c\<lparr>d_state := CONFIRMED\<rparr>, 0) else (c, 0)
         | REQBYE \<Rightarrow> if confirmed then
                       (if dir = DOWNSTREAM \<and> leg \<noteq> int (leg_200ok c) then (c, 0)
                        else ((set_bye c)\<lparr>d_state := DELETED\<rparr>, 1))
                     else if s = DELETED \<or> leg = 0 then (c, 0) else (set_bye c, 0)
         | _ \<Rightarrow> (c, 0))"

lemma next_state_switch_cell:
  assumes a: "cells w a = Some c" and r: "1 < ref c"
  shows "next_state_switch w a c ev dir leg =
      Some (w\<lparr>cells := (cells w)(a \<mapsto> fst (next_cell c ev dir leg))\<rparr>, snd (next_cell c ev dir leg))"
proof -
  have id: "w\<lparr>cells := (cells w)(a \<mapsto> c)\<rparr> = w" using a by (simp add: fun_upd_idem)
  show ?thesis using a r id
    by (cases ev; cases "d_state c")
      (simp_all add: next_cell_def set_state_def ref_dlg_unsafe_def unref_dlg_unsafe_def)
qed


lemma next_cell_refs:
  "ref (fst (next_cell c ev dir leg)) - snd (next_cell c ev dir leg) =
   ref c - (if ev = TDEL then 1 else 0) + in_hash (d_state (fst (next_cell c ev dir leg))) - in_hash (d_state c)"
  by (cases ev; cases "d_state c"; simp add: next_cell_def in_hash_def)

lemma next_cell_state:
  "d_state c \<le> d_state (fst (next_cell c ev dir leg)) \<or>
   ev = RPL2xx \<and> d_state c = DELETED \<and> \<not> has_bye c \<and> d_state (fst (next_cell c ev dir leg)) = CONFIRMED_NA"
  by (cases ev; cases "d_state c"; simp add: next_cell_def less_eq_dlg_state_def)

lemma next_cell_bye: "has_bye c \<Longrightarrow> has_bye (fst (next_cell c ev dir leg))"
  by (cases ev; cases "d_state c"; simp add: next_cell_def)

lemma next_cell_deleted:
  "d_state (fst (next_cell c ev dir leg)) = DELETED \<Longrightarrow> d_state c = CONFIRMED_NA \<or> d_state c = CONFIRMED \<Longrightarrow>
   ev = REQBYE \<and> has_bye (fst (next_cell c ev dir leg))"
  by (cases ev; cases "d_state c"; cases "dir = DOWNSTREAM \<and> leg \<noteq> int (leg_200ok c)") (auto simp: next_cell_def)









lemma find_entry:
  assumes "table_inv w L" "i < length (entries w)" "List.find Q (L ! i) = Some a"
  shows "\<exists>c. cells w a = Some c \<and> unat (h_entry c) = i"
proof -
  have "a \<in> set (L ! i)" using assms(3) by (auto simp: find_Some_iff)
  with entry_inv_cell [OF table_inv_entry [OF assms(1,2)]] show ?thesis by blast
qed



lemma announce_simps [simp]:
  "cells (announce w a s t rep) = cells w" "entries (announce w a s t rep) = entries w"
  "d_timer (announce w a s t rep) = d_timer w" "ddel_timer (announce w a s t rep) = ddel_timer w"
  "dlg_del_delay (announce w a s t rep) = dlg_del_delay w"
  by (simp_all add: announce_def)


lemma next_state_dlg_run:
  assumes "cells w a = Some c" "1 < ref c"
  shows "next_state_dlg w a ev dir leg rep =
    (let c' = fst (next_cell c ev dir leg)
     in Some (announce (w\<lparr>cells := (cells w)(a \<mapsto> c')\<rparr>) a (d_state c) (d_state c') rep, d_state c, d_state c',
          snd (next_cell c ev dir leg)))"
  using assms next_state_switch_cell [OF assms, of ev dir leg] by (simp add: next_state_dlg_def Let_def)







text \<open>C5. The accounting of \<open>next_state_dlg\<close>: while the caller and the transaction hold references, the
  references that are left once the caller has done the \<open>*unref\<close> it is told to do are the old ones, less
  the one of the transaction that ends, plus one for a dialog that is back in the table and minus one
  for a dialog that left it.\<close>

theorem next_state_accounting:
  assumes "cells w a = Some c" and "1 < ref c"
  shows "\<exists>w' c' unref. next_state_dlg w a ev dir leg rep = Some (w', d_state c, d_state c', unref) \<and>
     cells w' a = Some c' \<and> (\<forall>b. b \<noteq> a \<longrightarrow> cells w' b = cells w b) \<and>
     ref c' - unref = ref c - (if ev = TDEL then 1 else 0) + in_hash (d_state c') - in_hash (d_state c)"
  unfolding next_state_dlg_run [OF assms] Let_def using next_cell_refs by auto

text \<open>C11. The state machine of a dialog only moves forward, except that a 2xx reply revives a deleted
  dialog that had no BYE; a dialog with a BYE that is deleted stays deleted, whatever happens; and
  a confirmed dialog is deleted by a BYE alone, which is recorded.\<close>

theorem next_state_forward:
  assumes "cells w a = Some c" and "1 < ref c"
    and "next_state_dlg w a ev dir leg rep = Some (w', old, new, unref)" and "cells w' a = Some c'"
  shows "old = d_state c \<and> new = d_state c' \<and>
     (old \<le> new \<or> ev = RPL2xx \<and> old = DELETED \<and> \<not> has_bye c \<and> new = CONFIRMED_NA) \<and>
     (has_bye c \<longrightarrow> has_bye c' \<and> (old = DELETED \<longrightarrow> new = DELETED)) \<and>
     (old \<in> {CONFIRMED_NA, CONFIRMED} \<and> new = DELETED \<longrightarrow> ev = REQBYE \<and> has_bye c')"
proof -
  have r: "w' = announce (w\<lparr>cells := (cells w)(a \<mapsto> fst (next_cell c ev dir leg))\<rparr>) a (d_state c)
         (d_state (fst (next_cell c ev dir leg))) rep"
    "old = d_state c" "new = d_state (fst (next_cell c ev dir leg))"
    using assms(3) unfolding next_state_dlg_run [OF assms(1,2)] Let_def by auto
  then have c': "c' = fst (next_cell c ev dir leg)" using assms(4) by simp
  have "new = DELETED" if "has_bye c" "old = DELETED"
    using that r next_cell_state [of c ev dir leg] by (cases new) (auto simp: less_eq_dlg_state_def)
  then show ?thesis
    using r c' next_cell_state [of c ev dir leg] next_cell_bye [of c ev dir leg] next_cell_deleted [of c ev dir leg]
    by auto
qed





subsection \<open>Samples\<close>

text \<open>A table of one entry, and a dialog in it.\<close>

definition sample_world :: world where
  "sample_world =
     \<lparr>cells = Map.empty, entries = init_dlg_table [7], d_timer = init_gen_dlg_timer,
      ddel_timer = init_gen_dlg_timer, dlg_del_delay = 0, now = 100, repl_cluster = False, effects = []\<rparr>"

definition sample_dlg :: dlg_cell where
  "sample_dlg =
     \<lparr>ref = 2, d_next = None, d_prev = None, h_id = 7, h_entry = 0, d_state = CONFIRMED, d_flags = 0,
      del_delay = 0, d_callid = ''c1'', from_uri = ''sip:a@x'', to_uri = ''sip:b@y'', leg_tags = [''ta'', ''tb''],
      leg_200ok = 1\<rparr>"



theorem next_state_accounting_witness:
  "\<exists>w' c' u. next_state_dlg (sample_world\<lparr>cells := [3 \<mapsto> sample_dlg]\<rparr>) 3 REQBYE UPSTREAM 0 False =
       Some (w', CONFIRMED, d_state c', u) \<and> cells w' 3 = Some c' \<and> ref c' - u = 1 + in_hash (d_state c')"
proof -
  have s: "ref sample_dlg = 2" "d_state sample_dlg = CONFIRMED" "in_hash CONFIRMED = 1"
    by (simp_all add: sample_dlg_def in_hash_def)
  show ?thesis
    using next_state_accounting [of "sample_world\<lparr>cells := [3 \<mapsto> sample_dlg]\<rparr>" 3 sample_dlg REQBYE UPSTREAM 0 False]
    by (auto simp: s)
qed

theorem next_state_forward_witness:
  "\<exists>w' u c'. next_state_dlg (sample_world\<lparr>cells := [3 \<mapsto> sample_dlg]\<rparr>) 3 REQBYE UPSTREAM 0 False =
       Some (w', CONFIRMED, DELETED, u) \<and> cells w' 3 = Some c' \<and> has_bye c'"
proof -
  let ?w = "sample_world\<lparr>cells := [3 \<mapsto> sample_dlg]\<rparr>"
  have c: "cells ?w 3 = Some sample_dlg" "1 < ref sample_dlg" by (simp_all add: sample_dlg_def)
  obtain w' u c' where run: "next_state_dlg ?w 3 REQBYE UPSTREAM 0 False = Some (w', CONFIRMED, DELETED, u)"
    "cells w' 3 = Some c'"
    unfolding next_state_dlg_run [OF c] Let_def by (auto simp: next_cell_def sample_dlg_def Let_def)
  from next_state_forward [OF c run] run show ?thesis by auto
qed


subsection \<open>Matching requests with dialogs\<close>

text \<open>Whether a dialog matches does not depend on the values the search has written so far.\<close>

definition dlg_matches :: "str \<Rightarrow> str \<Rightarrow> str \<Rightarrow> dlg_cell \<Rightarrow> bool" where
  "dlg_matches callid ftag ttag c \<longleftrightarrow>
     strn_match (d_callid c) callid \<and>
     (let caller = hd (leg_tags c); callees = tl (leg_tags c);
          other = (\<lambda>tag. if callees = [] then tag = [] else \<exists>t \<in> set callees. strn_match t tag)
      in if strn_match caller ftag then other ttag else strn_match caller ttag \<and> other ftag)"

lemma match_leg_Some: "match_leg i ts tag \<noteq> None \<longleftrightarrow> (\<exists>t \<in> set ts. strn_match t tag)"
  by (induction i ts tag rule: match_leg.induct) auto

lemma match_dialog_matches:
  assumes "leg_tags c \<noteq> []"
  shows "\<exists>dir' dst'. match_dialog c callid ftag ttag dir dst = Some (dlg_matches callid ftag ttag c, dir', dst')"
proof -
  obtain t ts where legs: "leg_tags c = t # ts" using assms by (cases "leg_tags c") auto
  show ?thesis
    using match_leg_Some [of 1 ts ttag] match_leg_Some [of 1 ts ftag]
    by (auto simp: match_dialog_def dlg_matches_def legs Let_def split: option.splits)
qed

lemma get_dlg_loop_find:
  assumes "dlseg (\<lambda>a. map_option d_next (C a)) pvs before p xs lst None"
    and "\<forall>a \<in> set xs. \<forall>c. C a = Some c \<longrightarrow> leg_tags c \<noteq> []"
  shows "\<exists>dir' dst'. get_dlg_loop C callid ftag ttag backup p dir dst =
     Some (List.find (\<lambda>a. dlg_matches callid ftag ttag (the (C a)) \<and> d_state (the (C a)) \<noteq> DELETED) xs, dir', dst')"
  using assms
proof (induction xs arbitrary: before p dir dst)
  case Nil
  then show ?case by (simp add: get_dlg_loop.simps)
next
  case (Cons a xs)
  then obtain c where c: "C a = Some c" "p = Some a" "dlseg (\<lambda>a. map_option d_next (C a)) pvs (Some a) (d_next c) xs lst None"
    by auto
  then obtain dir1 dst1 where m: "match_dialog c callid ftag ttag dir dst = Some (dlg_matches callid ftag ttag c, dir1, dst1)"
    using match_dialog_matches [of c] Cons.prems(2) by fastforce
  have rec: "\<exists>dir' dst'. get_dlg_loop C callid ftag ttag backup (d_next c) dir2 dst2 =
     Some (List.find (\<lambda>a. dlg_matches callid ftag ttag (the (C a)) \<and> d_state (the (C a)) \<noteq> DELETED) xs, dir', dst')" for dir2 dst2
    using Cons.IH [OF c(3)] Cons.prems(2) by simp
  show ?case
    using c(1,2) m rec by (subst get_dlg_loop.simps) auto
qed

text \<open>C24. \<open>get_dlg\<close> returns, in a well-formed table whose dialogs have their caller leg, the first dialog of
  the entry that matches the Call-ID and the tags in either direction and is not deleted, with one more
  reference; and nothing, with the table unchanged, when there is none.\<close>

theorem get_dlg_first:
  assumes "table_inv w L" and "entries w \<noteq> []" "length (entries w) < 2 ^ 32"
    and "\<forall>a c. cells w a = Some c \<longrightarrow> leg_tags c \<noteq> []"
  shows "\<exists>dir' dst'. get_dlg w callid ftag ttag dir dst = Some
    (case List.find (\<lambda>a. dlg_matches callid ftag ttag (the (cells w a)) \<and> d_state (the (cells w a)) \<noteq> DELETED)
            (L ! unat (dlg_hash w callid)) of
       None \<Rightarrow> (w, None, dir', dst')
     | Some a \<Rightarrow> (w\<lparr>cells := (cells w)(a \<mapsto> (the (cells w a))\<lparr>ref := ref (the (cells w a)) + 1\<rparr>)\<rparr>, Some a, dir', dst'))"
proof -
  let ?i = "unat (dlg_hash w callid)"
  have i: "?i < length (entries w)" using dlg_hash_bound [OF assms(2,3)] .
  have "dlseg (nx w) (pv w) None (e_first (entries w ! ?i)) (L ! ?i) (e_last (entries w ! ?i)) None"
    using table_inv_entry [OF assms(1) i] by (simp add: entry_inv_def dll_def)
  from get_dlg_loop_find [OF this, of callid ftag ttag dst dir dst] assms(4) obtain dir' dst' where
    run: "get_dlg_loop (cells w) callid ftag ttag dst (e_first (entries w ! ?i)) dir dst = Some
      (List.find (\<lambda>a. dlg_matches callid ftag ttag (the (cells w a)) \<and> d_state (the (cells w a)) \<noteq> DELETED) (L ! ?i), dir', dst')"
    by auto
  show ?thesis
  proof (cases "List.find (\<lambda>a. dlg_matches callid ftag ttag (the (cells w a)) \<and> d_state (the (cells w a)) \<noteq> DELETED) (L ! ?i)")
    case None
    with run i show ?thesis by (simp add: get_dlg_def)
  next
    case (Some a)
    with find_entry [OF assms(1) i Some] run i show ?thesis by (auto simp: get_dlg_def)
  qed
qed

text \<open>Two dialogs with the same Call-ID; the request belongs to the second.\<close>

definition stale_world :: world where
  "stale_world = sample_world\<lparr>
     cells := [1 \<mapsto> sample_dlg\<lparr>d_next := Some 2, leg_tags := [''tb'', ''tx'']\<rparr>,
               2 \<mapsto> sample_dlg\<lparr>h_id := 8, d_prev := Some 1\<rparr>],
     entries := [\<lparr>e_first = Some 1, e_last = Some 2, next_id = 9, cnt = 2\<rparr>]\<rparr>"


subsection \<open>Identifiers\<close>

lemma fourbits_not_separator: "n < 16 \<Longrightarrow> fourbits2char n \<noteq> DLG_SEPARATOR"
proof -
  assume "n < 16"
  moreover have "list_all (\<lambda>n. fourbits2char n \<noteq> DLG_SEPARATOR) [0..<16]" by code_simp
  ultimately show ?thesis by (simp add: list_all_iff)
qed

lemma to_rhex_loop_no_separator: "DLG_SEPARATOR \<notin> set (fst (to_rhex_loop room nr))"
  by (induction room nr rule: to_rhex_loop.induct)
    (auto simp: fourbits_not_separator [OF nibble, THEN not_sym] split: prod.splits)

lemma to_rhex_no_separator: "DLG_SEPARATOR \<notin> set (fst (to_rhex room nr))"
  using to_rhex_loop_no_separator [of room nr]
  by (auto simp: to_rhex_def DLG_SEPARATOR_def split: prod.splits)

lemma parse_dlg_did_split:
  assumes "DLG_SEPARATOR \<notin> set s1"
  shows "parse_dlg_did (s1 @ [DLG_SEPARATOR] @ s2) behind =
    (case reverse_hex2int s1 of (r1, he) \<Rightarrow> if r1 < 0 then Some (-1, 0, 0)
       else case reverse_hex2int s2 of (r2, hid) \<Rightarrow> if r2 < 0 then Some (-1, 0, 0) else Some (0, he, hid))"
proof -
  have "takeWhile (\<lambda>c. c \<noteq> DLG_SEPARATOR) (s1 @ [DLG_SEPARATOR] @ s2) = s1"
    using assms by (auto simp: takeWhile_append)
  moreover have "drop (length s1 + 1) (s1 @ [DLG_SEPARATOR] @ s2) = s2" by simp
  ultimately show ?thesis
    unfolding parse_dlg_did_def Let_def by (simp only: nth_append_length append_take_drop_id) simp
qed

lemma db_id_roundtrip: "dlg_parse_db_id (dlg_get_db_id dlg) = (h_entry dlg, h_id dlg)"
proof -
  let ?id = "push_bit 32 (ucast (h_entry dlg)) OR ucast (h_id dlg) :: u64"
  have "?id AND 0xFFFFFFFF = take_bit 32 ?id" by (simp add: take_bit_eq_mask mask_eq_exp_minus_1)
  moreover have "ucast (take_bit 32 ?id) = h_id dlg" by (rule bit_word_eqI) (auto simp: bit_simps)
  moreover have "ucast (drop_bit 32 ?id) = h_entry dlg"
    by (rule bit_word_eqI) (auto simp: bit_simps dest: bit_imp_le_length)
  ultimately show ?thesis by (simp add: dlg_parse_db_id_def dlg_get_db_id_def)
qed

lemma dlg_did_printed:
  assumes "fst (dlg_get_did_buf dlg room) = 0"
  shows "parse_dlg_did (snd (dlg_get_did_buf dlg room)) behind = Some (0, h_entry dlg, h_id dlg)"
    and "length (snd (dlg_get_did_buf dlg room)) \<le> room"
proof -
  obtain s1 k1 r1 where 1: "int2reverse_hex room (h_entry dlg) = (s1, k1, r1)"
    by (cases "int2reverse_hex room (h_entry dlg)") auto
  obtain s2 k2 r2 where 2: "int2reverse_hex (k1 - 1) (h_id dlg) = (s2, k2, r2)"
    by (cases "int2reverse_hex (k1 - 1) (h_id dlg)") auto
  have ok: "r1 \<noteq> -1" "k1 \<noteq> 0" "r2 \<noteq> -1" and res: "snd (dlg_get_did_buf dlg room) = s1 @ [DLG_SEPARATOR] @ s2"
    using assms 1 2 by (auto simp: dlg_get_did_buf_def split: if_splits)
  have "length s1 + k1 = room" "r1 \<in> {-1, 1}" "r1 = 1 \<longrightarrow> reverse_hex2int s1 = (0, h_entry dlg)"
    using to_rhex_spec [of room "h_entry dlg"] 1 by (auto simp: int2reverse_hex_def reverse_hex2int_def)
  moreover have "length s2 + k2 = k1 - 1" "r2 \<in> {-1, 1}" "r2 = 1 \<longrightarrow> reverse_hex2int s2 = (0, h_id dlg)"
    using to_rhex_spec [of "k1 - 1" "h_id dlg"] 2 by (auto simp: int2reverse_hex_def reverse_hex2int_def)
  moreover have "DLG_SEPARATOR \<notin> set s1"
    using to_rhex_no_separator [of room "h_entry dlg"] 1 by (simp add: int2reverse_hex_def)
  ultimately show "parse_dlg_did (snd (dlg_get_did_buf dlg room)) behind = Some (0, h_entry dlg, h_id dlg)"
    "length (snd (dlg_get_did_buf dlg room)) \<le> room"
    using ok parse_dlg_did_split [of s1 s2 behind] by (auto simp: res)
qed

lemma to_rhex_loop_length: "unat nr < 16 ^ n \<Longrightarrow> length (fst (to_rhex_loop room nr)) \<le> n"
proof (induction room nr arbitrary: n rule: to_rhex_loop.induct)
  case (2 room nr)
  show ?case
  proof (cases "nr = 0")
    case False
    with "2.prems" obtain m where n: "n = Suc m" by (cases n) (auto simp: unat_eq_zero)
    have "unat (drop_bit 4 nr) < 16 ^ m"
      using "2.prems" unfolding n
      by (subst unat_drop_bit_eq) (simp add: drop_bit_eq_div div_less_iff_less_mult mult.commute)
    from "2.IH" [OF False this] False n show ?thesis by (auto split: prod.splits)
  qed simp
qed simp

lemma int2reverse_hex_room:
  assumes "8 \<le> room"
  shows "\<exists>s k. int2reverse_hex room nr = (s, k, 1) \<and> room \<le> k + 8"
proof -
  obtain s k r where run: "to_rhex room nr = (s, k, r)" by (cases "to_rhex room nr") auto
  have less: "unat nr < 16 ^ 8" using unsigned_less [of nr] by simp
  moreover have "(16 :: nat) ^ 8 \<le> 16 ^ room" using assms by (rule power_increasing) simp
  ultimately have "r = 1" "length s + k = room" using to_rhex_spec [of room nr] run by auto
  moreover have "length s \<le> 8"
    using to_rhex_loop_length [OF less, of room] run by (auto simp: to_rhex_def split: if_splits prod.splits)
  ultimately show ?thesis using run by (simp add: int2reverse_hex_def)
qed

lemma dlg_did_fits: "17 \<le> room \<Longrightarrow> fst (dlg_get_did_buf dlg room) = 0"
proof -
  assume room: "17 \<le> room"
  then obtain s1 k1 where 1: "int2reverse_hex room (h_entry dlg) = (s1, k1, 1)" "room \<le> k1 + 8"
    using int2reverse_hex_room [of room "h_entry dlg"] by auto
  with room have "8 \<le> k1 - 1" by simp
  then obtain s2 k2 where "int2reverse_hex (k1 - 1) (h_id dlg) = (s2, k2, 1)"
    using int2reverse_hex_room by blast
  with 1 room show ?thesis by (simp add: dlg_get_did_buf_def)
qed

text \<open>C27. Identifiers round trip: what \<open>dlg_get_did_buf\<close> prints for a dialog, \<open>parse_dlg_did\<close> reads back as its
  entry and identifier without looking behind the string, and 17 bytes are always enough; the identifier of
  the database is undone by its macro. A string with no separator makes the parser read the byte behind it.\<close>

theorem dlg_did_roundtrip:
  "(fst (dlg_get_did_buf dlg room) = 0 \<longrightarrow>
      parse_dlg_did (snd (dlg_get_did_buf dlg room)) None = Some (0, h_entry dlg, h_id dlg) \<and>
      length (snd (dlg_get_did_buf dlg room)) \<le> room) \<and>
   (17 \<le> room \<longrightarrow> fst (dlg_get_did_buf dlg room) = 0) \<and>
   dlg_parse_db_id (dlg_get_db_id dlg) = (h_entry dlg, h_id dlg) \<and>
   (DLG_SEPARATOR \<notin> set s \<longrightarrow> parse_dlg_did s None = None)"
proof -
  have "parse_dlg_did s None = None" if "DLG_SEPARATOR \<notin> set s"
  proof -
    have "takeWhile (\<lambda>c. c \<noteq> DLG_SEPARATOR) s = s" using that by (auto simp: takeWhile_eq_all_conv)
    then have "length (takeWhile (\<lambda>c. c \<noteq> DLG_SEPARATOR) s) = length s" by metis
    then show ?thesis by (simp add: parse_dlg_did_def Let_def)
  qed
  then show ?thesis using dlg_did_printed(1) [of dlg room None] dlg_did_printed(2) [of dlg room] dlg_did_fits [of room dlg] db_id_roundtrip by blast
qed

theorem dlg_did_roundtrip_witness:
  "parse_dlg_did (snd (dlg_get_did_buf sample_dlg 17)) None = Some (0, 0, 7) \<and> parse_dlg_did ''abc'' None = None"
proof -
  have "h_entry sample_dlg = 0" "h_id sample_dlg = 7" "DLG_SEPARATOR \<notin> set ''abc''"
    by (simp_all add: sample_dlg_def DLG_SEPARATOR_def)
  with dlg_did_roundtrip [of sample_dlg 17 "''abc''"] show ?thesis by simp
qed


theorem get_dlg_first_witness:
  "\<exists>dir' dst' w'. get_dlg stale_world ''c1'' ''ta'' ''tb'' DIR_NONE (-1) = Some (w', Some 2, dir', dst')"
proof -
  have inv: "table_inv stale_world [[1, 2]]"
    by (simp add: table_inv_def entry_inv_def dll_def stale_world_def sample_dlg_def)
  have "unat (dlg_hash stale_world ''c1'') < length (entries stale_world)"
    by (rule dlg_hash_bound) (simp_all add: stale_world_def)
  then have h: "unat (dlg_hash stale_world ''c1'') = 0" by (simp add: stale_world_def)
  have "List.find (\<lambda>a. dlg_matches ''c1'' ''ta'' ''tb'' (the (cells stale_world a)) \<and> d_state (the (cells stale_world a)) \<noteq> DELETED)
      ([[1, 2]] ! unat (dlg_hash stale_world ''c1'')) = Some 2"
    unfolding h by (simp add: stale_world_def sample_dlg_def dlg_matches_def strn_match_def)
  moreover have "entries stale_world \<noteq> []" "length (entries stale_world) < 2 ^ 32" by (simp_all add: stale_world_def)
  moreover have "\<forall>a c. cells stale_world a = Some c \<longrightarrow> leg_tags c \<noteq> []"
    by (auto simp: stale_world_def sample_dlg_def split: if_splits)
  ultimately show ?thesis using get_dlg_first [OF inv, of "''c1''" "''ta''" "''tb''" DIR_NONE "-1"] by auto
qed



end
