(* ===== verification/Avl_Map.thy ===== *)
theory Avl_Map
  imports Sip_Prelude "HOL-Library.Char_ord" "HOL-Library.List_Lexorder" "HOL-Library.Product_Lexorder"
begin

text \<open>
  The ordered map of map.c and map.h, an AVL tree with parent pointers: the nodes live in a heap
  of records, an operation that reads through a null or freed pointer has no result, and the
  two mirrored halves of the source are one definition with the side as an argument.
\<close>

subsection \<open>Nodes and tables\<close>

text \<open>
  \<open>avl_link[0]\<close> is the link on side \<open>False\<close>, \<open>avl_link[1]\<close> the one on side \<open>True\<close>. A value is a
  \<open>void *\<close>, so \<open>None\<close> is the null pointer. The result \<open>& p->val\<close> of a search is the address of the
  node.
\<close>

record avl_node =
  avl_link :: "bool \<Rightarrow> addr option"
  avl_parent :: "addr option"
  node_key :: str
  node_val :: "addr option"
  avl_balance :: int

type_synonym avl_heap = "addr \<rightharpoonup> avl_node"

record avl_table =
  avl_root :: "addr option"
  avl_count :: u64
  ret_code :: int
  no_duplicate :: bool
  nodes :: avl_heap

text \<open>
  The code also uses \<open>(struct avl_node *) & tree->avl_root\<close> as the parent of the root: writing its
  link 0 writes \<open>avl_root\<close>.
\<close>

datatype avl_owner = At_Root | Below addr

definition upd_node :: "avl_heap \<Rightarrow> addr \<Rightarrow> (avl_node \<Rightarrow> avl_node) \<Rightarrow> avl_heap option" where
  "upd_node h a f = (case h a of None \<Rightarrow> None | Some n \<Rightarrow> Some (h(a \<mapsto> f n)))"

definition set_link :: "avl_heap \<Rightarrow> addr \<Rightarrow> bool \<Rightarrow> addr option \<Rightarrow> avl_heap option" where
  "set_link h a d p = upd_node h a (\<lambda>n. n\<lparr>avl_link := (avl_link n)(d := p)\<rparr>)"

definition set_parent :: "avl_heap \<Rightarrow> addr \<Rightarrow> addr option \<Rightarrow> avl_heap option" where
  "set_parent h a p = upd_node h a (\<lambda>n. n\<lparr>avl_parent := p\<rparr>)"

definition set_balance :: "avl_heap \<Rightarrow> addr \<Rightarrow> int \<Rightarrow> avl_heap option" where
  "set_balance h a b = upd_node h a (\<lambda>n. n\<lparr>avl_balance := b\<rparr>)"

text \<open>\<open>if (p != NULL) p->avl_parent = a\<close>\<close>

definition adopt :: "avl_heap \<Rightarrow> addr option \<Rightarrow> addr option \<Rightarrow> avl_heap option" where
  "adopt h p a = (case p of None \<Rightarrow> Some h | Some b \<Rightarrow> set_parent h b a)"

definition get_link :: "avl_heap \<Rightarrow> addr \<Rightarrow> bool \<Rightarrow> addr option option" where
  "get_link h a d = map_option (\<lambda>n. avl_link n d) (h a)"

definition set_owner_link :: "avl_table \<Rightarrow> avl_owner \<Rightarrow> bool \<Rightarrow> addr option \<Rightarrow> avl_table option" where
  "set_owner_link t q d p =
     (case q of
        At_Root \<Rightarrow> if d then None else Some (t\<lparr>avl_root := p\<rparr>)
      | Below a \<Rightarrow> do { h \<leftarrow> set_link (nodes t) a d p; Some (t\<lparr>nodes := h\<rparr>) })"

definition owner_link :: "avl_table \<Rightarrow> avl_owner \<Rightarrow> bool \<Rightarrow> addr option option" where
  "owner_link t q d =
     (case q of At_Root \<Rightarrow> if d then None else Some (avl_root t) | Below a \<Rightarrow> get_link (nodes t) a d)"

subsection \<open>Keys\<close>

text \<open>
  \<open>strncmp\<close> of the C library: bytes as unsigned characters, up to a difference, a null byte or the
  limit. \<open>str_cmp\<close> gives it the smaller length as its limit.
\<close>

fun strncmp :: "str \<Rightarrow> str \<Rightarrow> nat \<Rightarrow> int" where
  "strncmp (x # xs) (y # ys) (Suc n) =
     (if x \<noteq> y then of_char x - of_char y else if x = CHR 0x00 then 0 else strncmp xs ys n)"
| "strncmp _ _ _ = 0"

definition str_cmp :: "str \<Rightarrow> str \<Rightarrow> int" where
  "str_cmp s1 s2 =
     (let ret = strncmp s1 s2 (min (length s1) (length s2))
      in if ret = 0 then int (length s1) - int (length s2) else ret)"

subsection \<open>Searching and inserting\<close>

text \<open>The allocation of the table, if it succeeds, leaves \<open>ret_code\<close> as the memory has it.\<close>

definition map_create :: "bool \<Rightarrow> int option \<Rightarrow> avl_table option" where
  "map_create nodup mem =
     (case mem of
        None \<Rightarrow> None
      | Some raw \<Rightarrow> Some \<lparr>avl_root = None, avl_count = 0, ret_code = raw, no_duplicate = nodup,
                         nodes = Map.empty\<rparr>)"

partial_function (option) find_loop :: "avl_heap \<Rightarrow> str \<Rightarrow> addr option \<Rightarrow> addr option option" where
  "find_loop h k p =
     (case p of
        None \<Rightarrow> Some None
      | Some a \<Rightarrow> do {
          n \<leftarrow> h a;
          let cmp = str_cmp k (node_key n);
          if cmp < 0 then find_loop h k (avl_link n False)
          else if cmp > 0 then find_loop h k (avl_link n True)
          else Some p })"

text \<open>The comparisons of the same search.\<close>

partial_function (option) find_cost :: "avl_heap \<Rightarrow> str \<Rightarrow> addr option \<Rightarrow> nat option" where
  "find_cost h k p =
     (case p of
        None \<Rightarrow> Some 0
      | Some a \<Rightarrow> do {
          n \<leftarrow> h a;
          let cmp = str_cmp k (node_key n);
          if cmp < 0 then do { c \<leftarrow> find_cost h k (avl_link n False); Some (Suc c) }
          else if cmp > 0 then do { c \<leftarrow> find_cost h k (avl_link n True); Some (Suc c) }
          else Some 1 })"

definition map_find :: "avl_table \<Rightarrow> str \<Rightarrow> addr option option" where
  "map_find tree k = find_loop (nodes tree) k (avl_root tree)"

text \<open>
  The descent of \<open>map_get\<close>: \<open>Inl\<close> the node with the key, or \<open>Inr\<close> the parent \<open>q\<close>, the direction and
  the last node \<open>y\<close> on the way that is not balanced.
\<close>

partial_function (option) get_loop ::
    "avl_heap \<Rightarrow> str \<Rightarrow> addr option \<Rightarrow> addr option \<Rightarrow> bool \<Rightarrow> addr option \<Rightarrow>
     (addr + addr option \<times> bool \<times> addr option) option" where
  "get_loop h k q p dir y =
     (case p of
        None \<Rightarrow> Some (Inr (q, dir, y))
      | Some a \<Rightarrow> do {
          n \<leftarrow> h a;
          let cmp = str_cmp k (node_key n);
          if cmp = 0 then Some (Inl a)
          else get_loop h k p (avl_link n (cmp > 0)) (cmp > 0) (if avl_balance n \<noteq> 0 then p else y) })"

text \<open>The loop that updates the balance factors from the new node up to \<open>y\<close>.\<close>

definition side :: "bool \<Rightarrow> int" where
  "side d = (if d then 1 else -1)"

partial_function (option) balance_loop :: "avl_heap \<Rightarrow> addr \<Rightarrow> addr \<Rightarrow> avl_heap option" where
  "balance_loop h p y =
     (if p = y then Some h
      else do {
        n \<leftarrow> h p;
        q \<leftarrow> avl_parent n;
        m \<leftarrow> h q;
        h \<leftarrow> set_balance h q (avl_balance m + side (avl_link m False \<noteq> Some p));
        balance_loop h q y })"

text \<open>
  The rotations at \<open>y\<close>, which is too high on side \<open>d\<close>, with \<open>x\<close> its child there. The double one
  returns the new top \<open>w\<close>.
\<close>

definition rotate_single :: "avl_heap \<Rightarrow> addr \<Rightarrow> addr \<Rightarrow> bool \<Rightarrow> avl_heap option" where
  "rotate_single h y x d = do {
     xl \<leftarrow> get_link h x (\<not> d);
     h \<leftarrow> set_link h y d xl;
     h \<leftarrow> set_link h x (\<not> d) (Some y);
     ny \<leftarrow> h y;
     h \<leftarrow> set_parent h x (avl_parent ny);
     h \<leftarrow> set_parent h y (Some x);
     yl \<leftarrow> get_link h y d;
     adopt h yl (Some y) }"

definition rotate_double :: "avl_heap \<Rightarrow> addr \<Rightarrow> addr \<Rightarrow> bool \<Rightarrow> (avl_heap \<times> addr) option" where
  "rotate_double h y x d = do {
     xl \<leftarrow> get_link h x (\<not> d);
     w \<leftarrow> xl;
     wl \<leftarrow> get_link h w d;
     h \<leftarrow> set_link h x (\<not> d) wl;
     h \<leftarrow> set_link h w d (Some x);
     wr \<leftarrow> get_link h w (\<not> d);
     h \<leftarrow> set_link h y d wr;
     h \<leftarrow> set_link h w (\<not> d) (Some y);
     nw \<leftarrow> h w;
     h \<leftarrow> (if avl_balance nw = side d then do {
              h \<leftarrow> set_balance h x 0;
              set_balance h y (- side d) }
           else if avl_balance nw = 0 then do {
              h \<leftarrow> set_balance h y 0;
              set_balance h x 0 }
           else do {
              h \<leftarrow> set_balance h x (side d);
              set_balance h y 0 });
     h \<leftarrow> set_balance h w 0;
     ny \<leftarrow> h y;
     h \<leftarrow> set_parent h w (avl_parent ny);
     h \<leftarrow> set_parent h y (Some w);
     h \<leftarrow> set_parent h x (Some w);
     xl \<leftarrow> get_link h x (\<not> d);
     h \<leftarrow> adopt h xl (Some x);
     yl \<leftarrow> get_link h y d;
     h \<leftarrow> adopt h yl (Some y);
     Some (h, w) }"

text \<open>
  The end of \<open>map_get\<close>: a rotation at \<open>y\<close> if its balance is \<open>-2\<close> or \<open>2\<close>, with the assertion on its
  child, and the link from above to the new top.
\<close>

definition get_rotate :: "avl_heap \<Rightarrow> addr \<Rightarrow> bool \<Rightarrow> (avl_heap \<times> addr) option" where
  "get_rotate h y d = do {
     yl \<leftarrow> get_link h y d;
     x \<leftarrow> yl;
     nx \<leftarrow> h x;
     if avl_balance nx = side d then do {
       h \<leftarrow> rotate_single h y x d;
       h \<leftarrow> set_balance h y 0;
       h \<leftarrow> set_balance h x 0;
       Some (h, x) }
     else if avl_balance nx = - side d then rotate_double h y x d
     else None }"

definition get_rebalance :: "avl_table \<Rightarrow> addr \<Rightarrow> avl_table option" where
  "get_rebalance tree y = do {
     ny \<leftarrow> nodes tree y;
     if avl_balance ny = -2 \<or> avl_balance ny = 2 then do {
       (h, w) \<leftarrow> get_rotate (nodes tree) y (avl_balance ny = 2);
       nw \<leftarrow> h w;
       case avl_parent nw of
         None \<Rightarrow> Some (tree\<lparr>nodes := h, avl_root := Some w\<rparr>)
       | Some p \<Rightarrow> do {
           pl \<leftarrow> get_link h p False;
           h \<leftarrow> set_link h p (Some y \<noteq> pl) (Some w);
           Some (tree\<lparr>nodes := h\<rparr>) } }
     else Some tree }"

text \<open>
  \<open>map_get\<close> with the outcome of its two allocations: the address of the new node with what the
  memory holds there, and whether the key can be copied. A node whose key cannot be copied is
  counted but not linked.
\<close>

definition map_get ::
    "avl_table \<Rightarrow> str \<Rightarrow> (addr \<times> avl_node) option \<Rightarrow> bool \<Rightarrow> (avl_table \<times> addr option) option" where
  "map_get tree k mem copied = do {
     r \<leftarrow> get_loop (nodes tree) k None (avl_root tree) False (avl_root tree);
     case r of
       Inl a \<Rightarrow> Some (tree, Some a)
     | Inr (q, dir, y) \<Rightarrow>
         (case mem of
            None \<Rightarrow> Some (tree, None)
          | Some (n, raw) \<Rightarrow> do {
              let tree = tree\<lparr>avl_count := avl_count tree + 1,
                    nodes := (nodes tree)(n \<mapsto> raw\<lparr>avl_link := \<lambda>_. None, avl_parent := q\<rparr>)\<rparr>;
              if \<not> no_duplicate tree \<and> \<not> copied then Some (tree, None)
              else do {
                h \<leftarrow> upd_node (nodes tree) n (\<lambda>m. m\<lparr>node_key := k, node_val := None\<rparr>);
                tree \<leftarrow> (case q of
                          None \<Rightarrow> Some (tree\<lparr>nodes := h, avl_root := Some n\<rparr>)
                        | Some qa \<Rightarrow> do {
                            h \<leftarrow> set_link h qa dir (Some n);
                            Some (tree\<lparr>nodes := h\<rparr>) });
                h \<leftarrow> set_balance (nodes tree) n 0;
                let tree = tree\<lparr>nodes := h\<rparr>;
                if avl_root tree = Some n then Some (tree, Some n)
                else do {
                  ya \<leftarrow> y;
                  h \<leftarrow> balance_loop (nodes tree) n ya;
                  tree \<leftarrow> get_rebalance (tree\<lparr>nodes := h\<rparr>) ya;
                  Some (tree, Some n) } } }) }"

text \<open>Clients read and write a value through the pointer that the search returned.\<close>

definition load_val :: "avl_table \<Rightarrow> addr \<Rightarrow> addr option option" where
  "load_val tree a = map_option node_val (nodes tree a)"

definition store_val :: "avl_table \<Rightarrow> addr \<Rightarrow> addr option \<Rightarrow> avl_table option" where
  "store_val tree a v = do {
     h \<leftarrow> upd_node (nodes tree) a (\<lambda>n. n\<lparr>node_val := v\<rparr>);
     Some (tree\<lparr>nodes := h\<rparr>) }"

text \<open>The pair is the table and the old value, null if it is the new one.\<close>

definition map_put ::
    "avl_table \<Rightarrow> str \<Rightarrow> addr option \<Rightarrow> (addr \<times> avl_node) option \<Rightarrow> bool \<Rightarrow> (avl_table \<times> addr option) option" where
  "map_put table k item mem copied = do {
     (table, p) \<leftarrow> map_get table k mem copied;
     case p of
       None \<Rightarrow> Some (table, None)
     | Some a \<Rightarrow> do {
         ret \<leftarrow> load_val table a;
         table \<leftarrow> store_val table a item;
         Some (table, if ret = item then None else ret) } }"

subsection \<open>Deleting\<close>

partial_function (option) leftmost :: "avl_heap \<Rightarrow> bool \<Rightarrow> addr \<Rightarrow> addr option" where
  "leftmost h d s = do {
     n \<leftarrow> h s;
     case avl_link n d of None \<Rightarrow> Some s | Some s' \<Rightarrow> leftmost h d s' }"

text \<open>
  The first half of \<open>delete_node\<close>: \<open>p\<close> is unlinked, and the walk upwards starts at the returned
  owner, on the side that became lower.
\<close>

definition unlink_node :: "avl_table \<Rightarrow> addr \<Rightarrow> (avl_table \<times> avl_owner \<times> bool) option" where
  "unlink_node tree p = do {
     np \<leftarrow> nodes tree p;
     (q, dir) \<leftarrow> (case avl_parent np of
                   None \<Rightarrow> Some (At_Root, False)
                 | Some a \<Rightarrow> do { l \<leftarrow> get_link (nodes tree) a False; Some (Below a, Some p \<noteq> l) });
     case avl_link np True of
       None \<Rightarrow> do {
         tree \<leftarrow> set_owner_link tree q dir (avl_link np False);
         c \<leftarrow> owner_link tree q dir;
         h \<leftarrow> adopt (nodes tree) c (avl_parent np);
         Some (tree\<lparr>nodes := h\<rparr>, q, dir) }
     | Some r \<Rightarrow> do {
         rl \<leftarrow> get_link (nodes tree) r False;
         case rl of
           None \<Rightarrow> do {
             h \<leftarrow> set_link (nodes tree) r False (avl_link np False);
             tree \<leftarrow> set_owner_link (tree\<lparr>nodes := h\<rparr>) q dir (Some r);
             h \<leftarrow> set_parent (nodes tree) r (avl_parent np);
             c \<leftarrow> get_link h r False;
             h \<leftarrow> adopt h c (Some r);
             h \<leftarrow> set_balance h r (avl_balance np);
             Some (tree\<lparr>nodes := h\<rparr>, Below r, True) }
         | Some s0 \<Rightarrow> do {
             s \<leftarrow> leftmost (nodes tree) False s0;
             ns \<leftarrow> nodes tree s;
             r \<leftarrow> avl_parent ns;
             h \<leftarrow> set_link (nodes tree) r False (avl_link ns True);
             np \<leftarrow> h p;
             h \<leftarrow> set_link h s False (avl_link np False);
             h \<leftarrow> set_link h s True (avl_link np True);
             tree \<leftarrow> set_owner_link (tree\<lparr>nodes := h\<rparr>) q dir (Some s);
             c \<leftarrow> get_link (nodes tree) s False;
             h \<leftarrow> adopt (nodes tree) c (Some s);
             c \<leftarrow> get_link h s True;
             c \<leftarrow> c;
             h \<leftarrow> set_parent h c (Some s);
             h \<leftarrow> set_parent h s (avl_parent np);
             c \<leftarrow> get_link h r False;
             h \<leftarrow> adopt h c (Some r);
             h \<leftarrow> set_balance h s (avl_balance np);
             Some (tree\<lparr>nodes := h\<rparr>, Below r, False) } } }"

text \<open>
  The walk upwards. At \<open>y\<close> the side \<open>dir\<close> became lower; a rotation works on the other side. \<open>q\<close> is
  the owner of \<open>y\<close> and the new \<open>dir\<close> the side of \<open>y\<close> there, both read before the rotation.
\<close>

partial_function (option) delete_loop :: "avl_table \<Rightarrow> avl_owner \<Rightarrow> bool \<Rightarrow> avl_table option" where
  "delete_loop tree q dir =
     (case q of
        At_Root \<Rightarrow> Some tree
      | Below y \<Rightarrow> do {
          ny \<leftarrow> nodes tree y;
          let q = (case avl_parent ny of Some a \<Rightarrow> Below a | None \<Rightarrow> At_Root);
          ql \<leftarrow> owner_link tree q False;
          let qdir = (ql \<noteq> Some y);
          let d = (\<not> dir);
          h \<leftarrow> set_balance (nodes tree) y (avl_balance ny + side d);
          let tree = tree\<lparr>nodes := h\<rparr>;
          if avl_balance ny + side d = side d then Some tree
          else if avl_balance ny + side d = 2 * side d then do {
            yl \<leftarrow> get_link h y d;
            x \<leftarrow> yl;
            nx \<leftarrow> h x;
            if avl_balance nx = - side d then do {
              (h, w) \<leftarrow> rotate_double h y x d;
              tree \<leftarrow> set_owner_link (tree\<lparr>nodes := h\<rparr>) q qdir (Some w);
              delete_loop tree q qdir }
            else do {
              h \<leftarrow> rotate_single h y x d;
              tree \<leftarrow> set_owner_link (tree\<lparr>nodes := h\<rparr>) q qdir (Some x);
              nx \<leftarrow> nodes tree x;
              if avl_balance nx = 0 then do {
                h \<leftarrow> set_balance (nodes tree) x (- side d);
                h \<leftarrow> set_balance h y (side d);
                Some (tree\<lparr>nodes := h\<rparr>) }
              else do {
                h \<leftarrow> set_balance (nodes tree) y 0;
                h \<leftarrow> set_balance h x 0;
                delete_loop (tree\<lparr>nodes := h\<rparr>) q qdir } } }
          else delete_loop tree q qdir })"

definition delete_node :: "avl_table \<Rightarrow> addr \<Rightarrow> (avl_table \<times> addr option) option" where
  "delete_node tree p = do {
     np \<leftarrow> nodes tree p;
     (tree, q, dir) \<leftarrow> unlink_node tree p;
     tree \<leftarrow> delete_loop (tree\<lparr>nodes := (nodes tree)(p := None)\<rparr>) q dir;
     Some (tree\<lparr>avl_count := avl_count tree - 1\<rparr>, node_val np) }"

partial_function (option) remove_loop :: "avl_heap \<Rightarrow> str \<Rightarrow> addr \<Rightarrow> addr option option" where
  "remove_loop h k p = do {
     n \<leftarrow> h p;
     let cmp = str_cmp k (node_key n);
     if cmp = 0 then Some (Some p)
     else (case avl_link n (cmp > 0) of
             None \<Rightarrow> Some None
           | Some p \<Rightarrow> remove_loop h k p) }"

definition map_remove :: "avl_table \<Rightarrow> str \<Rightarrow> (avl_table \<times> addr option) option" where
  "map_remove tree k =
     (case avl_root tree of
        None \<Rightarrow> Some (tree, None)
      | Some p \<Rightarrow> do {
          r \<leftarrow> remove_loop (nodes tree) k p;
          case r of None \<Rightarrow> Some (tree, None) | Some p \<Rightarrow> delete_node tree p })"

subsection \<open>All entries\<close>

text \<open>
  \<open>map_destroy\<close> flattens the tree by rotations and frees the nodes in order. The result is what is
  left in the heap and the list of the values that were given to the destroy function, if there
  is one.
\<close>

partial_function (option) destroy_loop :: "bool \<Rightarrow> avl_heap \<Rightarrow> addr option \<Rightarrow> addr list \<Rightarrow> (avl_heap \<times> addr list) option" where
  "destroy_loop destroy h p out =
     (case p of
        None \<Rightarrow> Some (h, out)
      | Some a \<Rightarrow> do {
          n \<leftarrow> h a;
          case avl_link n False of
            None \<Rightarrow> destroy_loop destroy (h(a := None)) (avl_link n True)
                     (case node_val n of None \<Rightarrow> out | Some v \<Rightarrow> if destroy then out @ [v] else out)
          | Some q \<Rightarrow> do {
              c \<leftarrow> get_link h q True;
              h \<leftarrow> set_link h a False c;
              h \<leftarrow> set_link h q True p;
              destroy_loop destroy h (Some q) out } })"

definition map_destroy :: "avl_table \<Rightarrow> bool \<Rightarrow> (avl_heap \<times> addr list) option" where
  "map_destroy tree destroy = destroy_loop destroy (nodes tree) (avl_root tree) []"

text \<open>The conversion of \<open>size_t\<close> to \<open>int\<close> keeps the lower 32 bits.\<close>

definition map_size :: "avl_table \<Rightarrow> int" where
  "map_size tree = sint (ucast (avl_count tree) :: u32)"

text \<open>
  \<open>process_all\<close> with the callback as a function on the caller's state: it returns its code, which
  is collected with a bitwise or, and the new state.
\<close>

partial_function (option) process_all ::
    "avl_heap \<Rightarrow> addr \<Rightarrow> (str \<Rightarrow> addr option \<Rightarrow> 's \<Rightarrow> int \<times> 's) \<Rightarrow> int \<times> 's \<Rightarrow> (int \<times> 's) option" where
  "process_all h p f st =
     (if fst st \<noteq> 0 then Some st
      else do {
        n \<leftarrow> h p;
        st \<leftarrow> (case avl_link n False of None \<Rightarrow> Some st | Some l \<Rightarrow> process_all h l f st);
        let (c, s) = f (node_key n) (node_val n) (snd st);
        let st = (fst st OR c, s);
        case avl_link n True of None \<Rightarrow> Some st | Some r \<Rightarrow> process_all h r f st })"

definition map_for_each ::
    "avl_table \<Rightarrow> (str \<Rightarrow> addr option \<Rightarrow> 's \<Rightarrow> int \<times> 's) \<Rightarrow> 's \<Rightarrow> (int \<times> 's) option" where
  "map_for_each tree f s =
     (case avl_root tree of None \<Rightarrow> Some (0, s) | Some p \<Rightarrow> process_all (nodes tree) p f (0, s))"

text \<open>An iterator is its current node; the maps of valid iterators are not null.\<close>

definition iterator_is_valid :: "addr option \<Rightarrow> bool" where
  "iterator_is_valid it \<longleftrightarrow> it \<noteq> None"

definition iterator_key :: "avl_table \<Rightarrow> addr option \<Rightarrow> str option" where
  "iterator_key m it = do { a \<leftarrow> it; n \<leftarrow> nodes m a; Some (node_key n) }"

definition iterator_val :: "avl_table \<Rightarrow> addr option \<Rightarrow> addr option option" where
  "iterator_val m it = do { a \<leftarrow> it; n \<leftarrow> nodes m a; Some (node_val n) }"

definition map_first :: "avl_table \<Rightarrow> addr option option" where
  "map_first m = (case avl_root m of None \<Rightarrow> Some None | Some a \<Rightarrow> map_option Some (leftmost (nodes m) False a))"

definition map_last :: "avl_table \<Rightarrow> addr option option" where
  "map_last m = (case avl_root m of None \<Rightarrow> Some None | Some a \<Rightarrow> map_option Some (leftmost (nodes m) True a))"

partial_function (option) climb :: "avl_heap \<Rightarrow> bool \<Rightarrow> addr \<Rightarrow> addr option \<Rightarrow> addr option option" where
  "climb h d p q =
     (case q of
        None \<Rightarrow> Some None
      | Some a \<Rightarrow> do {
          n \<leftarrow> h a;
          if avl_link n (\<not> d) = Some p then Some q else climb h d a (avl_parent n) })"

text \<open>\<open>iterator_next\<close> is side \<open>True\<close>, \<open>iterator_prev\<close> side \<open>False\<close>; the first component is the result code.\<close>

definition iterator_move :: "avl_table \<Rightarrow> bool \<Rightarrow> addr option \<Rightarrow> (int \<times> addr option) option" where
  "iterator_move m d it =
     (case it of
        None \<Rightarrow> Some (-1, None)
      | Some a \<Rightarrow> do {
          n \<leftarrow> nodes m a;
          case avl_link n d of
            Some b \<Rightarrow> do { s \<leftarrow> leftmost (nodes m) (\<not> d) b; Some (0, Some s) }
          | None \<Rightarrow> do { q \<leftarrow> climb (nodes m) d a (avl_parent n); Some (0, q) } })"

definition iterator_next :: "avl_table \<Rightarrow> addr option \<Rightarrow> (int \<times> addr option) option" where
  "iterator_next m it = iterator_move m True it"

definition iterator_prev :: "avl_table \<Rightarrow> addr option \<Rightarrow> (int \<times> addr option) option" where
  "iterator_prev m it = iterator_move m False it"

definition iterator_delete :: "avl_table \<Rightarrow> addr option \<Rightarrow> (avl_table \<times> addr option \<times> addr option) option" where
  "iterator_delete m it =
     (case it of
        None \<Rightarrow> Some (m, None, None)
      | Some a \<Rightarrow> do { (m, ret) \<leftarrow> delete_node m a; Some (m, None, ret) })"

end
