(* ===== verification/Avl_Tree.thy ===== *)
theory Avl_Tree
  imports Avl_Map
begin

text \<open>
  The representation of the nodes of a map by a tree: the heap predicate, contexts of a subtree
  (the way up along the parent pointers), balance and order, and the search.
\<close>

subsection \<open>The order of the keys\<close>

text \<open>
  Keys are ordered by their bytes up to the first null byte, and then by their length. Keys
  without null bytes are ordered lexicographically.
\<close>

definition key_rank :: "str \<Rightarrow> str \<times> nat" where
  "key_rank s = (takeWhile (\<lambda>c. c \<noteq> CHR 0x00) s, length s)"

lemma char_int_eq: "(of_char x :: int) = of_char y \<longleftrightarrow> x = y"
  by (metis of_char_eq_iff)

lemma char_int_less: "(of_char x :: int) < of_char y \<longleftrightarrow> x < y"
  unfolding less_char_def of_nat_of_char [where ?'a = int, symmetric] by simp

lemma null_char_least: "\<not> z < CHR 0x00" "z \<noteq> CHR 0x00 \<Longrightarrow> CHR 0x00 < z"
proof -
  show *: "\<not> z < CHR 0x00" for z by (simp add: less_char_def)
  assume "z \<noteq> CHR 0x00"
  with * [of z] show "CHR 0x00 < z" by (metis linorder_cases)
qed

lemma str_cmp_Cons:
  "str_cmp (x # a) (y # b) =
     (if x \<noteq> y then of_char x - of_char y
      else if x = CHR 0x00 then int (length a) - int (length b) else str_cmp a b)"
  by (auto simp: str_cmp_def Let_def char_int_eq)

lemma key_rank_less_Cons:
  "key_rank (x # a) < key_rank (y # b) \<longleftrightarrow>
     (if x \<noteq> y then x < y
      else if x = CHR 0x00 then length a < length b else key_rank a < key_rank b)"
proof (cases "x = y")
  case False
  then show ?thesis using null_char_least
    by (cases "x = CHR 0x00"; cases "y = CHR 0x00") (auto simp add: key_rank_def less_prod_simp)
next
  case True
  then show ?thesis by (cases "y = CHR 0x00") (simp_all add: key_rank_def less_prod_simp)
qed

lemma key_rank_Nil_less:
  "key_rank [] < key_rank (y # b)" "\<not> key_rank (y # b) < key_rank []"
  by (simp_all add: key_rank_def less_prod_simp)

lemma str_cmp_Nil: "str_cmp [] b = - int (length b)" "str_cmp a [] = int (length a)"
  by (simp_all add: str_cmp_def)

lemma str_cmp_rank:
  "(str_cmp a b < 0 \<longleftrightarrow> key_rank a < key_rank b) \<and> (str_cmp a b > 0 \<longleftrightarrow> key_rank b < key_rank a)"
proof (induction a arbitrary: b)
  case Nil
  show ?case by (cases b) (simp_all add: str_cmp_Nil key_rank_Nil_less)
next
  case (Cons x a)
  show ?case
  proof (cases b)
    case Nil
    then show ?thesis by (simp add: str_cmp_Nil key_rank_Nil_less)
  next
    case (Cons y b')
    have "x \<noteq> y \<Longrightarrow> of_char x \<noteq> (of_char y :: int)" by (simp add: char_int_eq)
    then show ?thesis unfolding Cons str_cmp_Cons key_rank_less_Cons
      using Cons.IH [of b'] char_int_less [of x y] char_int_less [of y x] by auto
  qed
qed

lemma str_cmp_sign:
  "str_cmp a b < 0 \<longleftrightarrow> key_rank a < key_rank b" "0 < str_cmp a b \<longleftrightarrow> key_rank b < key_rank a"
  "str_cmp a b = 0 \<longleftrightarrow> key_rank a = key_rank b"
proof -
  show 1: "str_cmp a b < 0 \<longleftrightarrow> key_rank a < key_rank b" and 2: "0 < str_cmp a b \<longleftrightarrow> key_rank b < key_rank a"
    using str_cmp_rank by blast+
  show "str_cmp a b = 0 \<longleftrightarrow> key_rank a = key_rank b"
    using 1 2 by (metis less_irrefl linorder_cases)
qed

subsection \<open>Trees on the heap\<close>

datatype avl = Tip | Nd avl addr str "addr option" int avl

fun rootp :: "avl \<Rightarrow> addr option" where
  "rootp Tip = None"
| "rootp (Nd l a k v b r) = Some a"

fun inord :: "avl \<Rightarrow> (addr \<times> str \<times> addr option) list" where
  "inord Tip = []"
| "inord (Nd l a k v b r) = inord l @ (a, k, v) # inord r"

fun addrs :: "avl \<Rightarrow> addr list" where
  "addrs Tip = []"
| "addrs (Nd l a k v b r) = addrs l @ a # addrs r"

lemma addrs_inord: "addrs t = map fst (inord t)"
  by (induction t) auto

definition two :: "'a \<Rightarrow> 'a \<Rightarrow> bool \<Rightarrow> 'a" where
  "two l r = (\<lambda>d. if d then r else l)"

lemma two_simps [simp]:
  "two l r False = l" "two l r True = r" "(two l r)(False := x) = two x r" "(two l r)(True := x) = two l x"
  "two l r = two l' r' \<longleftrightarrow> l = l' \<and> r = r'"
  by (auto simp: two_def fun_eq_iff)

fun on_heap :: "avl_heap \<Rightarrow> addr option \<Rightarrow> avl \<Rightarrow> bool" where
  "on_heap h p Tip \<longleftrightarrow> True"
| "on_heap h p (Nd l a k v b r) \<longleftrightarrow>
     h a = Some \<lparr>avl_link = two (rootp l) (rootp r), avl_parent = p, node_key = k, node_val = v, avl_balance = b\<rparr> \<and>
     on_heap h (Some a) l \<and> on_heap h (Some a) r"

lemma on_heap_cong: "(\<And>a. a \<in> set (addrs t) \<Longrightarrow> h' a = h a) \<Longrightarrow> on_heap h' p t \<longleftrightarrow> on_heap h p t"
  by (induction t arbitrary: p) auto

lemma on_heap_upd [simp, heap_simps]: "a \<notin> set (addrs t) \<Longrightarrow> on_heap (h(a := n)) p t \<longleftrightarrow> on_heap h p t"
  by (rule on_heap_cong) auto

lemma rootp_in: "rootp t = Some a \<Longrightarrow> a \<in> set (addrs t)"
  by (cases t) auto

lemma on_heap_dom: "on_heap h p t \<Longrightarrow> a \<in> set (addrs t) \<Longrightarrow> \<exists>n. h a = Some n"
  by (induction t arbitrary: p) fastforce+

subsection \<open>Contexts\<close>

text \<open>
  A frame is a node with a hole on one side and the other subtree; a context is the list of the
  frames from a subtree up to the root.
\<close>

datatype frame = Frame bool addr str "addr option" int avl

fun fill :: "frame \<Rightarrow> avl \<Rightarrow> avl" where
  "fill (Frame d a k v b s) t = (if d then Nd s a k v b t else Nd t a k v b s)"

fun plug :: "frame list \<Rightarrow> avl \<Rightarrow> avl" where
  "plug [] t = t"
| "plug (f # fs) t = plug fs (fill f t)"

fun node_of :: "frame \<Rightarrow> addr" where
  "node_of (Frame d a k v b s) = a"

fun frame_dir :: "frame \<Rightarrow> bool" where
  "frame_dir (Frame d a k v b s) = d"

fun frame_balance :: "frame \<Rightarrow> int" where
  "frame_balance (Frame d a k v b s) = b"

fun parent_of :: "frame list \<Rightarrow> addr option" where
  "parent_of [] = None"
| "parent_of (f # fs) = Some (node_of f)"

fun owner_of :: "frame list \<Rightarrow> avl_owner" where
  "owner_of [] = At_Root"
| "owner_of (f # fs) = Below (node_of f)"

fun dir_of :: "frame list \<Rightarrow> bool" where
  "dir_of [] = False"
| "dir_of (f # fs) = frame_dir f"

fun root_of :: "frame list \<Rightarrow> addr option \<Rightarrow> addr option" where
  "root_of [] p = p"
| "root_of (f # fs) p = root_of fs (Some (node_of f))"

fun lefts :: "frame list \<Rightarrow> (addr \<times> str \<times> addr option) list" where
  "lefts [] = []"
| "lefts (Frame d a k v b s # fs) = lefts fs @ (if d then inord s @ [(a, k, v)] else [])"

fun rights :: "frame list \<Rightarrow> (addr \<times> str \<times> addr option) list" where
  "rights [] = []"
| "rights (Frame d a k v b s # fs) = (if d then [] else (a, k, v) # inord s) @ rights fs"

fun ctx_addrs :: "frame list \<Rightarrow> addr set" where
  "ctx_addrs [] = {}"
| "ctx_addrs (Frame d a k v b s # fs) = insert a (set (addrs s) \<union> ctx_addrs fs)"

fun ctx_distinct :: "frame list \<Rightarrow> bool" where
  "ctx_distinct [] \<longleftrightarrow> True"
| "ctx_distinct (Frame d a k v b s # fs) \<longleftrightarrow>
     a \<notin> set (addrs s) \<and> a \<notin> ctx_addrs fs \<and> distinct (addrs s) \<and> set (addrs s) \<inter> ctx_addrs fs = {} \<and>
     ctx_distinct fs"

fun frame_on_heap :: "avl_heap \<Rightarrow> addr option \<Rightarrow> frame \<Rightarrow> addr option \<Rightarrow> bool" where
  "frame_on_heap h p (Frame d a k v b s) c \<longleftrightarrow>
     h a = Some \<lparr>avl_link = (if d then two (rootp s) c else two c (rootp s)), avl_parent = p, node_key = k,
               node_val = v, avl_balance = b\<rparr> \<and>
     on_heap h (Some a) s"

fun ctx_on_heap :: "avl_heap \<Rightarrow> frame list \<Rightarrow> addr option \<Rightarrow> bool" where
  "ctx_on_heap h [] c \<longleftrightarrow> True"
| "ctx_on_heap h (f # fs) c \<longleftrightarrow> frame_on_heap h (parent_of fs) f c \<and> ctx_on_heap h fs (Some (node_of f))"

lemma rootp_fill [simp]: "rootp (fill f t) = Some (node_of f)"
  by (cases f) simp

lemma on_heap_fill: "on_heap h p (fill f t) \<longleftrightarrow> frame_on_heap h p f (rootp t) \<and> on_heap h (Some (node_of f)) t"
  by (cases f) auto

lemma on_heap_plug: "on_heap h None (plug fs t) \<longleftrightarrow> ctx_on_heap h fs (rootp t) \<and> on_heap h (parent_of fs) t"
  by (induction fs arbitrary: t) (auto simp: on_heap_fill)

lemma inord_plug: "inord (plug fs t) = lefts fs @ inord t @ rights fs"
proof (induction fs arbitrary: t)
  case (Cons f fs)
  then show ?case by (cases f) simp
qed simp

lemma rootp_plug: "rootp (plug fs t) = root_of fs (rootp t)"
  by (induction fs arbitrary: t) auto

lemma plug_append [simp]: "plug (fs @ gs) t = plug gs (plug fs t)"
  by (induction fs arbitrary: t) auto

lemma root_of_Some: "fs \<noteq> [] \<Longrightarrow> root_of fs c = root_of fs c'"
  by (cases fs) auto

lemma addrs_plug: "set (addrs (plug fs t)) = ctx_addrs fs \<union> set (addrs t)"
proof (induction fs arbitrary: t)
  case (Cons f fs)
  show ?case by (cases f) (auto simp: Cons.IH)
qed simp

lemma distinct_plug:
  "distinct (addrs (plug fs t)) \<longleftrightarrow> ctx_distinct fs \<and> distinct (addrs t) \<and> ctx_addrs fs \<inter> set (addrs t) = {}"
proof (induction fs arbitrary: t)
  case (Cons f fs)
  show ?case by (cases f) (auto simp: Cons.IH)
qed simp

lemma ctx_cong:
  "(\<And>a. a \<in> ctx_addrs fs \<Longrightarrow> h' a = h a) \<Longrightarrow> ctx_on_heap h' fs c \<longleftrightarrow> ctx_on_heap h fs c"
proof (induction fs arbitrary: c)
  case (Cons f fs)
  obtain d a k v b s where f: "f = Frame d a k v b s" by (cases f)
  have "on_heap h' (Some a) s \<longleftrightarrow> on_heap h (Some a) s"
    by (rule on_heap_cong) (rule Cons.prems; simp add: f)
  with Cons f show ?case by simp
qed simp

lemma ctx_upd [simp, heap_simps]: "a \<notin> ctx_addrs fs \<Longrightarrow> ctx_on_heap (h(a := n)) fs c \<longleftrightarrow> ctx_on_heap h fs c"
  by (rule ctx_cong) auto

subsection \<open>Tables\<close>

text \<open>
  \<open>tree_ctx m fs c\<close>: the table holds the context, with the pointer \<open>c\<close> in its hole.
\<close>

definition tree_ctx :: "avl_table \<Rightarrow> frame list \<Rightarrow> addr option \<Rightarrow> bool" where
  "tree_ctx m fs c \<longleftrightarrow> ctx_on_heap (nodes m) fs c \<and> avl_root m = root_of fs c"

definition meta :: "avl_table \<Rightarrow> u64 \<times> int \<times> bool" where
  "meta m = (avl_count m, ret_code m, no_duplicate m)"

lemma meta_simps [simp]:
  "meta (m\<lparr>nodes := h\<rparr>) = meta m" "meta (m\<lparr>avl_root := p\<rparr>) = meta m"
  by (simp_all add: meta_def)

lemma set_owner_link_ok:
  assumes "tree_ctx m fs c" "ctx_distinct fs"
  shows "\<exists>m'. set_owner_link m (owner_of fs) (dir_of fs) c' = Some m' \<and> tree_ctx m' fs c' \<and>
     (\<forall>a. a \<notin> ctx_addrs fs \<longrightarrow> nodes m' a = nodes m a) \<and> meta m' = meta m"
proof (cases fs)
  case Nil
  then show ?thesis by (simp add: set_owner_link_def tree_ctx_def)
next
  case (Cons f fs')
  obtain d a k v b s where f: "f = Frame d a k v b s" by (cases f)
  with assms Cons show ?thesis
    by (auto simp: tree_ctx_def set_owner_link_def set_link_def upd_node_def)
qed

end
