(* ===== verification/Avl_Rot.thy ===== *)
theory Avl_Rot
  imports Avl_Tree
begin

text \<open>
  The two rotations on the heap and on trees, and the balance invariant: the stored factor is the
  difference of the heights of the subtrees.
\<close>

subsection \<open>Rotations\<close>

lemmas avl_op_defs = upd_node_def set_link_def set_parent_def set_balance_def adopt_def get_link_def

lemma fill_exists: "t \<noteq> Tip \<Longrightarrow> \<exists>a k v b s u. t = fill (Frame d a k v b s) u"
proof (cases t)
  case (Nd l a k v b r)
  then have "t = fill (Frame d a k v b (if d then l else r)) (if d then r else l)" by simp
  then show ?thesis by blast
qed simp

lemma rotate_single_ok:
  assumes "on_heap h p (fill (Frame d y yk yv yb S) (fill (Frame d x xk xv xb B) A))"
    and "distinct (addrs (fill (Frame d y yk yv yb S) (fill (Frame d x xk xv xb B) A)))"
  shows "\<exists>h'. rotate_single h y x d = Some h' \<and>
     on_heap h' p (fill (Frame (\<not> d) x xk xv xb A) (fill (Frame d y yk yv yb S) B)) \<and>
     (\<forall>a. a \<notin> set (addrs (fill (Frame d y yk yv yb S) (fill (Frame d x xk xv xb B) A))) \<longrightarrow> h' a = h a)"
  using assms by (cases d; cases B) (auto simp: rotate_single_def avl_op_defs)

lemma adopt_ok:
  assumes "on_heap h p t" "distinct (addrs t)"
  shows "\<exists>h'. adopt h (rootp t) q = Some h' \<and> on_heap h' q t \<and> (\<forall>a. a \<notin> set (addrs t) \<longrightarrow> h' a = h a)"
  using assms by (cases t) (auto simp: avl_op_defs)

lemma rotate_double_run:
  assumes "h y = Some ny" "h x = Some nx" "h w = Some nw" "distinct [y, x, w]" "avl_link nx (\<not> d) = Some w"
  shows "\<exists>h1. rotate_double h y x d =
       do { h \<leftarrow> adopt h1 (avl_link nw d) (Some x); yl \<leftarrow> get_link h y d; h \<leftarrow> adopt h yl (Some y); Some (h, w) } \<and>
     h1 x = Some (nx\<lparr>avl_link := (avl_link nx)(\<not> d := avl_link nw d), avl_parent := Some w,
       avl_balance := if avl_balance nw = side d \<or> avl_balance nw = 0 then 0 else side d\<rparr>) \<and>
     h1 y = Some (ny\<lparr>avl_link := (avl_link ny)(d := avl_link nw (\<not> d)), avl_parent := Some w,
       avl_balance := if avl_balance nw = side d then - side d else 0\<rparr>) \<and>
     h1 w = Some (nw\<lparr>avl_link := (avl_link nw)(d := Some x, \<not> d := Some y), avl_parent := avl_parent ny,
       avl_balance := 0\<rparr>) \<and>
     (\<forall>a. a \<notin> {y, x, w} \<longrightarrow> h1 a = h a)"
  using assms
  by (cases "avl_balance nw = side d"; cases "avl_balance nw = 0")
    (simp_all add: rotate_double_def upd_node_def set_link_def set_parent_def set_balance_def get_link_def,
      (rule exI, rule conjI, rule refl, simp)+)

lemma rotate_double_ok:
  assumes "on_heap h p (fill (Frame d y yk yv yb S) (fill (Frame (\<not> d) x xk xv xb A) (fill (Frame d w wk wv wb C) B)))"
    and "distinct (addrs (fill (Frame d y yk yv yb S) (fill (Frame (\<not> d) x xk xv xb A) (fill (Frame d w wk wv wb C) B))))"
  shows "\<exists>h'. rotate_double h y x d = Some (h', w) \<and>
     on_heap h' p (fill (Frame d w wk wv 0
        (fill (Frame d y yk yv (if wb = side d then - side d else 0) S) C))
        (fill (Frame (\<not> d) x xk xv (if wb = side d \<or> wb = 0 then 0 else side d) A) B)) \<and>
     (\<forall>a. a \<notin> set (addrs (fill (Frame d y yk yv yb S) (fill (Frame (\<not> d) x xk xv xb A) (fill (Frame d w wk wv wb C) B)))) \<longrightarrow> h' a = h a)"
proof -
  let ?all = "set (addrs (fill (Frame d y yk yv yb S) (fill (Frame (\<not> d) x xk xv xb A) (fill (Frame d w wk wv wb C) B))))"
  obtain ny nx nw where n: "h y = Some ny" "h x = Some nx" "h w = Some nw" "distinct [y, x, w]"
    "avl_link nx (\<not> d) = Some w" "avl_link nw d = rootp B" "avl_link nw (\<not> d) = rootp C" "avl_balance nw = wb"
    using assms by (cases d) auto
  from rotate_double_run [OF n(1-5)] obtain h1 where h1: "rotate_double h y x d =
       do { h \<leftarrow> adopt h1 (rootp B) (Some x); yl \<leftarrow> get_link h y d; h \<leftarrow> adopt h yl (Some y); Some (h, w) }"
     "h1 x = Some (nx\<lparr>avl_link := (avl_link nx)(\<not> d := rootp B), avl_parent := Some w,
       avl_balance := if wb = side d \<or> wb = 0 then 0 else side d\<rparr>)"
     "h1 y = Some (ny\<lparr>avl_link := (avl_link ny)(d := rootp C), avl_parent := Some w,
       avl_balance := if wb = side d then - side d else 0\<rparr>)"
     "h1 w = Some (nw\<lparr>avl_link := (avl_link nw)(d := Some x, \<not> d := Some y), avl_parent := avl_parent ny,
       avl_balance := 0\<rparr>)"
     "\<And>a. a \<notin> {y, x, w} \<Longrightarrow> h1 a = h a" unfolding n by blast
  have keep: "on_heap h1 q t = on_heap h q t" if "set (addrs t) \<inter> {y, x, w} = {}" for q t
    by (rule on_heap_cong) (use that h1(5) in blast)
  have "on_heap h (Some w) B" "on_heap h (Some w) C" using assms(1) by (cases d; simp)+
  have D: "distinct (addrs A @ addrs B @ addrs C @ addrs S @ [y, x, w])" using assms(2) by (cases d) auto
  have all: "?all = set (addrs A) \<union> set (addrs B) \<union> set (addrs C) \<union> set (addrs S) \<union> {y, x, w}"
    by (cases d) auto
  from D have "distinct (addrs B)" "distinct (addrs C)"
    and dis: "set (addrs B) \<inter> {y, x, w} = {}" "set (addrs C) \<inter> {y, x, w} = {}" "set (addrs B) \<inter> set (addrs C) = {}"
    "set (addrs A) \<inter> {y, x, w} = {}" "set (addrs S) \<inter> {y, x, w} = {}"
    "set (addrs A) \<inter> (set (addrs B) \<union> set (addrs C)) = {}" "set (addrs S) \<inter> (set (addrs B) \<union> set (addrs C)) = {}"
    by auto
  note frame = \<open>on_heap h (Some w) B\<close> keep [OF dis(1)]
  from adopt_ok [of h1 "Some w" B "Some x"] frame \<open>distinct (addrs B)\<close> obtain h2 where h2: "adopt h1 (rootp B) (Some x) = Some h2" "on_heap h2 (Some x) B"
    "\<And>a. a \<notin> set (addrs B) \<Longrightarrow> h2 a = h1 a" by blast
  have "on_heap h2 (Some w) C" using on_heap_cong [of C h2 h1] h2(3) dis(3) keep [OF dis(2)] \<open>on_heap h (Some w) C\<close> by blast
  then obtain h3 where h3: "adopt h2 (rootp C) (Some y) = Some h3" "on_heap h3 (Some y) C"
    "\<And>a. a \<notin> set (addrs C) \<Longrightarrow> h3 a = h2 a" using adopt_ok \<open>distinct (addrs C)\<close> by blast
  have "on_heap h3 (Some x) B" using on_heap_cong [of B h3 h2] h3(3) dis(3) h2(2) by blast
  have at: "h3 a = h1 a" if "a \<notin> set (addrs B) \<union> set (addrs C)" for a using that h2(3) h3(3) by simp
  have "on_heap h3 q A = on_heap h q A" "on_heap h3 q S = on_heap h q S" for q
    using on_heap_cong [of A h3 h1] on_heap_cong [of S h3 h1] at dis(6,7) keep [OF dis(4)] keep [OF dis(5)] by blast+
  moreover have "get_link h2 y d = Some (rootp C)" using h2(3) [of y] h1(3) dis(1) by (simp add: get_link_def)
  moreover have "h3 y = h1 y" "h3 x = h1 x" "h3 w = h1 w" using at dis(1,2) by blast+
  moreover have "h3 a = h a" if "a \<notin> ?all" for a using at [of a] h1(5) [of a] that unfolding all by simp
  ultimately show ?thesis using h1 h2 h3 assms(1) n \<open>on_heap h3 (Some x) B\<close>
    by (intro exI [of _ h3]) (cases d; simp)
qed


subsection \<open>Balance\<close>

fun ht :: "avl \<Rightarrow> nat" where
  "ht Tip = 0"
| "ht (Nd l a k v b r) = Suc (max (ht l) (ht r))"

fun balanced :: "avl \<Rightarrow> bool" where
  "balanced Tip \<longleftrightarrow> True"
| "balanced (Nd l a k v b r) \<longleftrightarrow>
     b = int (ht r) - int (ht l) \<and> -1 \<le> b \<and> b \<le> 1 \<and> balanced l \<and> balanced r"

lemma side_simps [simp]:
  "side d \<noteq> 0" "side (\<not> d) = - side d" "side d * side d = 1" "- side d \<noteq> side d" "side d \<noteq> - side d"
  by (auto simp: side_def)

lemma ht_fill [simp]: "ht (fill (Frame d a k v b s) t) = Suc (max (ht t) (ht s))"
  by auto

lemma balanced_fill:
  "balanced (fill (Frame d a k v b s) t) \<longleftrightarrow>
     b = side d * (int (ht t) - int (ht s)) \<and> -1 \<le> b \<and> b \<le> 1 \<and> balanced s \<and> balanced t"
  by (auto simp: side_def)

lemma balanced_plugD: "balanced (plug fs t) \<Longrightarrow> balanced t"
proof (induction fs arbitrary: t)
  case (Cons f fs)
  then have "balanced (fill f t)" by simp
  then show ?case by (cases f) (simp split: if_splits)
qed simp

lemma balanced_plug_cong:
  "balanced (plug fs t) \<Longrightarrow> balanced t' \<Longrightarrow> ht t' = ht t \<Longrightarrow> balanced (plug fs t')"
proof (induction fs arbitrary: t t')
  case (Cons f fs)
  obtain d a k v b s where f: "f = Frame d a k v b s" by (cases f)
  have "balanced (fill f t)" using balanced_plugD [of fs] Cons.prems(1) by simp
  with Cons.prems f have "balanced (fill f t')" "ht (fill f t') = ht (fill f t)"
    by (simp_all add: balanced_fill del: fill.simps)
  with Cons.IH [of "fill f t" "fill f t'"] Cons.prems(1) show ?case by simp
qed simp

text \<open>What the rotations do to a node \<open>y\<close> that is two higher on side \<open>d\<close>.\<close>

definition single :: "bool \<Rightarrow> addr \<Rightarrow> str \<Rightarrow> addr option \<Rightarrow> avl \<Rightarrow> addr \<Rightarrow> str \<Rightarrow> addr option \<Rightarrow> avl \<Rightarrow> avl \<Rightarrow> int \<Rightarrow> int \<Rightarrow> avl" where
  "single d y yk yv S x xk xv B A xb yb =
     fill (Frame (\<not> d) x xk xv xb A) (fill (Frame d y yk yv yb S) B)"

lemma inord_single:
  "inord (single d y yk yv S x xk xv B A xb yb) =
   inord (fill (Frame d y yk yv yb' S) (fill (Frame d x xk xv xb' B) A))"
  by (simp add: single_def)

definition double where
  "double d y yk yv S x xk xv A w wk wv wb C B =
     fill (Frame d w wk wv 0 (fill (Frame d y yk yv (if wb = side d then - side d else 0) S) C))
       (fill (Frame (\<not> d) x xk xv (if wb = side d \<or> wb = 0 then 0 else side d) A) B)"

lemma inord_double:
  "inord (double d y yk yv S x xk xv A w wk wv wb C B) =
   inord (fill (Frame d y yk yv yb S) (fill (Frame (\<not> d) x xk xv xb A) (fill (Frame d w wk wv wb C) B)))"
  by (simp add: double_def)

lemma balanced_single:
  assumes "balanced (fill (Frame d x xk xv xb B) A)" "balanced S"
    and "ht (fill (Frame d x xk xv xb B) A) = ht S + 2" and "xb \<noteq> - side d"
  shows "balanced (single d y yk yv S x xk xv B A (xb - side d) (side d - xb)) \<and>
    ht (single d y yk yv S x xk xv B A (xb - side d) (side d - xb)) = (if xb = 0 then ht S + 3 else ht S + 2)"
proof -
  have "ht A = ht S + 1" "ht B = (if xb = 0 then ht S + 1 else ht S)" "xb = 0 \<or> xb = side d"
    using assms unfolding balanced_fill ht_fill by (cases d; simp add: side_def; linarith)+
  moreover have "balanced A" "balanced B" using assms(1) by (simp_all add: balanced_fill del: fill.simps)
  ultimately show ?thesis using assms(2) unfolding single_def balanced_fill ht_fill
    by (cases "xb = 0"; cases d; simp add: side_def)
qed

lemma balanced_double:
  assumes "balanced (fill (Frame (\<not> d) x xk xv xb A) (fill (Frame d w wk wv wb C) B))" "balanced S"
    and "ht (fill (Frame (\<not> d) x xk xv xb A) (fill (Frame d w wk wv wb C) B)) = ht S + 2" and "xb = - side d"
  shows "balanced (double d y yk yv S x xk xv A w wk wv wb C B) \<and>
    ht (double d y yk yv S x xk xv A w wk wv wb C B) = ht S + 2"
proof -
  have "ht A = ht S" "max (ht B) (ht C) = ht S"
    using assms unfolding balanced_fill ht_fill by (cases d; simp add: side_def; linarith)+
  then show ?thesis using assms unfolding double_def balanced_fill ht_fill
    by (cases d; auto simp: side_def)
qed

lemma single_addrs:
  "addrs (single d y yk yv S x xk xv B A xb' yb') = addrs (fill (Frame d y yk yv yb S) (fill (Frame d x xk xv xb B) A))"
  by (simp add: single_def)

lemma double_addrs:
  "addrs (double d y yk yv S x xk xv A w wk wv wb C B) =
   addrs (fill (Frame d y yk yv yb S) (fill (Frame (\<not> d) x xk xv xb A) (fill (Frame d w wk wv wb C) B)))"
  by (simp add: double_def)

lemma set_single_balances:
  assumes "on_heap h p (single d y yk yv S x xk xv B A xb yb)" "distinct (addrs (single d y yk yv S x xk xv B A xb yb))"
  shows "\<exists>h'. set_balance h y yb' \<bind> (\<lambda>h. set_balance h x xb') = Some h' \<and>
     set_balance h x xb' \<bind> (\<lambda>h. set_balance h y yb') = Some h' \<and>
     on_heap h' p (single d y yk yv S x xk xv B A xb' yb') \<and>
     (\<forall>a. a \<notin> set (addrs (single d y yk yv S x xk xv B A xb yb)) \<longrightarrow> h' a = h a)"
  using assms unfolding single_def by (cases d) (auto simp: set_balance_def upd_node_def fun_upd_twist)

lemma flip_fill: "fill (Frame d a k v b s) t = fill (Frame (\<not> d) a k v b t) s"
  by simp

fun root_balance :: "avl \<Rightarrow> int" where
  "root_balance Tip = 0"
| "root_balance (Nd l a k v b r) = b"

lemma root_balance_fill [simp]: "root_balance (fill (Frame d a k v b s) t) = b"
  by simp

text \<open>A balanced child that is higher on the inner side has an inner child.\<close>

lemma inner_child:
  assumes "balanced (fill (Frame d x xk xv (- side d) B) A)"
  obtains w wk wv wb C D where "B = fill (Frame d w wk wv wb C) D"
proof -
  have "B \<noteq> Tip" using assms by (cases d) (auto simp: side_def)
  with that show ?thesis using fill_exists [of B d] by blast
qed

end
