(* ===== verification/Avl_Get.thy ===== *)
theory Avl_Get
  imports Avl_Rot
begin

text \<open>
  Lookups and insertions: \<open>map_find\<close>, \<open>map_get\<close> and \<open>map_put\<close> keep the representation by a balanced
  and ordered tree and change the entries as a sorted list of keys would change.
\<close>

subsection \<open>Maps\<close>

definition ekey :: "addr \<times> str \<times> addr option \<Rightarrow> str \<times> nat" where
  "ekey e = key_rank (fst (snd e))"

lemma ekey_simp [simp]: "ekey (a, k, v) = key_rank k"
  by (simp add: ekey_def)

abbreviation ordered :: "(addr \<times> str \<times> addr option) list \<Rightarrow> bool" where
  "ordered xs \<equiv> sorted_wrt (<) (map ekey xs)"

text \<open>
  The table is the tree \<open>t\<close>: the heap holds its nodes and no others, it is balanced with the right
  balance factors, the keys are in order, and the count is right (modulo the width of \<open>size_t\<close>).
\<close>

definition is_map :: "avl_table \<Rightarrow> avl \<Rightarrow> bool" where
  "is_map m t \<longleftrightarrow>
     on_heap (nodes m) None t \<and> avl_root m = rootp t \<and> distinct (addrs t) \<and> dom (nodes m) = set (addrs t) \<and>
     balanced t \<and> ordered (inord t) \<and> avl_count m = of_nat (length (inord t))"

definition avl_rep :: "avl_table \<Rightarrow> (addr \<times> str \<times> addr option) list \<Rightarrow> bool" where
  "avl_rep m xs \<longleftrightarrow> (\<exists>t. is_map m t \<and> inord t = xs)"

subsection \<open>The descent\<close>

fun descend :: "str \<Rightarrow> avl \<Rightarrow> frame list \<Rightarrow> frame list \<times> avl" where
  "descend k Tip fs = (fs, Tip)"
| "descend k (Nd l a k' v b r) fs =
     (if key_rank k = key_rank k' then (fs, Nd l a k' v b r)
      else if key_rank k' < key_rank k then descend k r (Frame True a k' v b l # fs)
      else descend k l (Frame False a k' v b r # fs))"

lemma descend_plug: "descend k t fs = (fs', t') \<Longrightarrow> plug fs' t' = plug fs t"
  by (induction t arbitrary: fs) (auto split: if_splits)

lemma descend_found: "descend k t fs = (fs', Nd l a k' v b r) \<Longrightarrow> key_rank k' = key_rank k"
  by (induction t arbitrary: fs) (auto split: if_splits)

lemma descend_order:
  assumes "descend k t fs = (fs', t')" "ordered (inord (plug fs t))"
    and "\<forall>e \<in> set (lefts fs). ekey e < key_rank k" "\<forall>e \<in> set (rights fs). key_rank k < ekey e"
  shows "(\<forall>e \<in> set (lefts fs'). ekey e < key_rank k) \<and> (\<forall>e \<in> set (rights fs'). key_rank k < ekey e)"
  using assms
proof (induction t arbitrary: fs)
  case (Nd l a k' v b r)
  have ord: "ordered (lefts fs @ (inord l @ (a, k', v) # inord r) @ rights fs)"
    using Nd.prems(2) by (simp add: inord_plug)
  show ?case
  proof (cases "key_rank k = key_rank k'")
    case True
    with Nd.prems show ?thesis by simp
  next
    case neq: False
    show ?thesis
    proof (cases "key_rank k' < key_rank k")
      case True
      then have "\<forall>e \<in> set (lefts (Frame True a k' v b l # fs)). ekey e < key_rank k"
        using ord Nd.prems(3) by (auto simp: sorted_wrt_append)
      with Nd.IH(2) [of "Frame True a k' v b l # fs"] True neq Nd.prems show ?thesis by simp
    next
      case False
      with neq have less: "key_rank k < key_rank k'" by (metis linorder_cases)
      then have "\<forall>e \<in> set (rights (Frame False a k' v b r # fs)). key_rank k < ekey e"
        using ord Nd.prems(4) by (auto simp: sorted_wrt_append) (metis less_trans ekey_simp imageI UnI1)
      with Nd.IH(1) [of "Frame False a k' v b r # fs"] False neq Nd.prems show ?thesis by simp
    qed
  qed
qed simp

fun pivot :: "frame list \<Rightarrow> addr option \<Rightarrow> addr option" where
  "pivot [] r = r"
| "pivot (f # fs) r = (if frame_balance f \<noteq> 0 then Some (node_of f) else pivot fs r)"

lemma get_loop_ok:
  assumes "on_heap h (parent_of fs) t"
  shows "get_loop h k (parent_of fs) (rootp t) (dir_of fs) (pivot fs r) =
     Some (case descend k t fs of
       (fs', Tip) \<Rightarrow> Inr (parent_of fs', dir_of fs', pivot fs' r)
     | (fs', Nd _ a _ _ _ _) \<Rightarrow> Inl a)"
  using assms
proof (induction t arbitrary: fs)
  case Tip
  show ?case by (subst get_loop.simps) simp
next
  case (Nd l a k' v b u)
  show ?case
    using Nd.IH(1) [of "Frame False a k' v b u # fs"] Nd.IH(2) [of "Frame True a k' v b l # fs"] Nd.prems
    by (subst get_loop.simps) (cases "b = 0"; simp add: str_cmp_sign)
qed

lemma find_loop_ok:
  assumes "on_heap h p t"
  shows "find_loop h k (rootp t) = Some (rootp (snd (descend k t fs)))"
  using assms
proof (induction t arbitrary: p fs)
  case Tip
  show ?case by (subst find_loop.simps) simp
next
  case (Nd l a k' v b u)
  show ?case
    using Nd.IH(1) [of "Some a" "Frame False a k' v b u # fs"] Nd.IH(2) [of "Some a" "Frame True a k' v b l # fs"] Nd.prems
    by (subst find_loop.simps) (auto simp: str_cmp_sign not_less)
qed

text \<open>The result of the descent in terms of the entries.\<close>

lemma descend_find:
  assumes "ordered (inord t)" "descend k t [] = (fs, t')"
  shows "List.find (\<lambda>e. ekey e = key_rank k) (inord t) =
     (case t' of Tip \<Rightarrow> None | Nd l a k' v b r \<Rightarrow> Some (a, k', v))"
    and "t' = Tip \<Longrightarrow> filter (\<lambda>e. ekey e < key_rank k) (inord t) = lefts fs \<and>
           filter (\<lambda>e. key_rank k < ekey e) (inord t) = rights fs"
proof -
  have eq: "inord t = lefts fs @ inord t' @ rights fs"
    using descend_plug [OF assms(2)] inord_plug [of fs t'] by simp
  note ord = descend_order [OF assms(2), simplified, OF assms(1)]
  then have no: "\<forall>e \<in> set (lefts fs). ekey e \<noteq> key_rank k" "\<forall>e \<in> set (rights fs). ekey e \<noteq> key_rank k" by auto
  show "List.find (\<lambda>e. ekey e = key_rank k) (inord t) =
     (case t' of Tip \<Rightarrow> None | Nd l a k' v b r \<Rightarrow> Some (a, k', v))"
  proof (cases t')
    case Tip
    with eq no show ?thesis by (auto simp: find_None_iff)
  next
    case (Nd l a k' v b r)
    have k: "key_rank k' = key_rank k" using descend_found assms(2) Nd by blast
    have "\<forall>e \<in> set (inord l). ekey e \<noteq> key_rank k" using assms(1) eq Nd k by (auto simp: sorted_wrt_append)
    moreover have "List.find P (xs @ ys) = List.find P ys" if "\<forall>e \<in> set xs. \<not> P e"
      for P and xs ys :: "(addr \<times> str \<times> addr option) list" using that by (induction xs) auto
    ultimately show ?thesis using eq Nd k no by simp
  qed
  assume "t' = Tip"
  with eq ord show "filter (\<lambda>e. ekey e < key_rank k) (inord t) = lefts fs \<and>
           filter (\<lambda>e. key_rank k < ekey e) (inord t) = rights fs"
    by (auto simp: filter_empty_conv filter_id_conv dest: less_imp_not_less)
qed

subsection \<open>The walk up to the pivot\<close>

fun bump :: "frame \<Rightarrow> frame" where
  "bump (Frame d a k v b s) = Frame d a k v (b + side d) s"

lemma node_of_bump [simp]: "node_of (bump f) = node_of f"
  by (cases f) simp

lemma parent_of_map_bump [simp]: "parent_of (map bump fs @ gs) = parent_of (fs @ gs)"
  by (cases fs) auto

lemma parent_of_bump [simp]: "parent_of (fs @ bump f # gs) = parent_of (fs @ f # gs)"
  by (cases fs) auto

lemma node_of_in_ctx: "f \<in> set fs \<Longrightarrow> node_of f \<in> ctx_addrs fs"
proof (induction fs)
  case (Cons g fs)
  then show ?case by (cases g) auto
qed simp

lemma ctx_addrs_append [simp]: "ctx_addrs (fs @ gs) = ctx_addrs fs \<union> ctx_addrs gs"
proof (induction fs)
  case (Cons f fs)
  then show ?case by (cases f) auto
qed simp

lemma frame_side:
  assumes "frame_on_heap h p f (Some a)" "a \<notin> ctx_addrs [f]"
  shows "\<exists>n. h (node_of f) = Some n \<and> (avl_link n False \<noteq> Some a) = frame_dir f \<and>
     avl_balance n = frame_balance f \<and> avl_parent n = p"
  using assms by (cases f) (auto dest: rootp_in)

lemma balance_loop_step:
  assumes "p \<noteq> y" "h p = Some n" "avl_parent n = Some q" "h q = Some m" "(avl_link m False \<noteq> Some p) = d"
  shows "balance_loop h p y = balance_loop (h(q \<mapsto> m\<lparr>avl_balance := avl_balance m + side d\<rparr>)) q y"
  using assms(1-4) unfolding assms(5) [symmetric]
  by (subst balance_loop.simps) (simp add: set_balance_def upd_node_def)

lemma balance_loop_stop: "balance_loop h y y = Some h"
  by (subst balance_loop.simps) simp

lemma balance_loop_ok:
  assumes "ctx_on_heap h (inner @ f # outer) (Some p)" "ctx_distinct (inner @ f # outer)"
    and "p \<notin> ctx_addrs (inner @ f # outer)" "h p = Some n" "avl_parent n = parent_of (inner @ f # outer)"
  shows "\<exists>h'. balance_loop h p (node_of f) = Some h' \<and> ctx_on_heap h' (map bump (inner @ [f]) @ outer) (Some p) \<and>
     (\<forall>a. a \<notin> node_of ` set (inner @ [f]) \<longrightarrow> h' a = h a)"
  using assms
proof (induction inner arbitrary: h p n)
  case Nil
  obtain d a k v b s where f: "f = Frame d a k v b s" by (cases f)
  obtain m where m: "h a = Some m" "(avl_link m False \<noteq> Some p) = d" "avl_balance m = b"
    using frame_side [of h _ f p] Nil.prems f by auto
  have "balance_loop h p a = Some (h(a \<mapsto> m\<lparr>avl_balance := b + side d\<rparr>))"
    using balance_loop_step [OF _ Nil.prems(4) _ m(1,2), of a] Nil.prems(3,5) f m(3) by (simp add: balance_loop_stop)
  then show ?case using Nil.prems f m by auto
next
  case (Cons g inner)
  obtain d a k v b s where g: "g = Frame d a k v b s" by (cases g)
  obtain m where m: "h a = Some m" "(avl_link m False \<noteq> Some p) = d" "avl_balance m = b"
      "avl_parent m = parent_of (inner @ f # outer)"
    using frame_side [of h _ g p] Cons.prems g by auto
  let ?h = "h(a \<mapsto> m\<lparr>avl_balance := b + side d\<rparr>)"
  have a: "a \<notin> ctx_addrs (inner @ f # outer)" "ctx_distinct (inner @ f # outer)"
    using Cons.prems(2) g by auto
  have "ctx_on_heap ?h (inner @ f # outer) (Some a)" using Cons.prems(1) a(1) g by simp
  moreover have "?h a = Some (m\<lparr>avl_balance := b + side d\<rparr>)" by simp
  ultimately
  obtain h' where h': "balance_loop ?h a (node_of f) = Some h'"
      "ctx_on_heap h' (map bump (inner @ [f]) @ outer) (Some a)"
      "\<And>x. x \<notin> node_of ` set (inner @ [f]) \<Longrightarrow> h' x = ?h x" using Cons.IH [OF _ a(2,1)] m(4) by force
  have p: "p \<noteq> node_of f" using Cons.prems(3) node_of_in_ctx [of f "g # inner @ f # outer"] by auto
  have "balance_loop h p (node_of f) = Some h'"
    using balance_loop_step [OF p Cons.prems(4) _ m(1,2)] Cons.prems(5) g m(3) h'(1) by simp
  moreover have sub: "node_of ` set (inner @ [f]) \<subseteq> ctx_addrs (inner @ f # outer)"
    using node_of_in_ctx [of _ "inner @ f # outer"] by auto
  have "h' a = ?h a" using h'(3) a(1) sub by blast
  moreover have "on_heap h' (Some a) s = on_heap h (Some a) s"
  proof (rule on_heap_cong)
    fix x assume x: "x \<in> set (addrs s)"
    with Cons.prems(2) g have "x \<notin> ctx_addrs (inner @ f # outer)" "x \<noteq> a" by auto
    then show "h' x = h x" using h'(3) [of x] sub by auto
  qed
  moreover have "h' x = h x" if "x \<notin> node_of ` set ((g # inner) @ [f])" for x
    using h'(3) [of x] that g by simp
  ultimately show ?case using h'(2) Cons.prems(1) m(1) g
    by (intro exI [of _ h'] conjI) (auto split: if_splits)
qed

lemma bump_tree:
  assumes "\<forall>f \<in> set inner. frame_balance f = 0" "balanced (plug inner t)" "balanced t'" "ht t' = Suc (ht t)"
  shows "balanced (plug (map bump inner) t') \<and> ht (plug (map bump inner) t') = Suc (ht (plug inner t))"
  using assms
proof (induction inner arbitrary: t t')
  case (Cons f inner)
  obtain d a k v b s where f: "f = Frame d a k v b s" by (cases f)
  have "balanced (fill f t)" using Cons.prems(2) balanced_plugD [of inner] by simp
  with Cons.prems f have "balanced (fill (bump f) t')" "ht (fill (bump f) t') = Suc (ht (fill f t))"
    by (auto simp: balanced_fill side_def simp del: fill.simps split: if_splits)
  with Cons.IH [of "fill f t" "fill (bump f) t'"] Cons.prems(1,2) show ?case by simp
qed simp

subsection \<open>Rebalancing after an insertion\<close>

lemma get_rotate_ok:
  assumes "on_heap h p (fill (Frame d y yk yv yb S) T)" "distinct (addrs (fill (Frame d y yk yv yb S) T))"
    and "balanced T" "balanced S" "ht T = ht S + 2" "root_balance T \<noteq> 0"
  shows "\<exists>h' R w. get_rotate h y d = Some (h', w) \<and> on_heap h' p R \<and> rootp R = Some w \<and> balanced R \<and> ht R = ht S + 2 \<and>
     inord R = inord (fill (Frame d y yk yv yb S) T) \<and>
     (\<forall>a. a \<notin> set (addrs (fill (Frame d y yk yv yb S) T)) \<longrightarrow> h' a = h a)"
proof -
  have "T \<noteq> Tip" using assms(5) by auto
  then obtain x xk xv xb B A where T: "T = fill (Frame d x xk xv xb B) A" using fill_exists [of T d] by blast
  have b: "balanced (fill (Frame d x xk xv xb B) A)" using assms(3) T by simp
  have link: "get_link h y d = Some (Some x)" and nx: "\<exists>n. h x = Some n \<and> avl_balance n = xb"
    using assms(1) T by (cases d; auto simp: get_link_def)+
  have "xb = side d \<or> xb = - side d"
    using b assms(6) T unfolding balanced_fill by (auto simp: side_def)
  then show ?thesis
  proof
    assume xb: "xb = side d"
    obtain h1 where h1: "rotate_single h y x d = Some h1" "on_heap h1 p (single d y yk yv S x xk xv B A xb yb)"
      "\<And>a. a \<notin> set (addrs (fill (Frame d y yk yv yb S) T)) \<Longrightarrow> h1 a = h a"
      using rotate_single_ok [OF assms(1,2) [unfolded T]] unfolding T single_def by blast
    note ad = single_addrs [of d y yk yv S x xk xv B A xb yb yb xb, folded T]
    obtain h2 where h2: "set_balance h1 y 0 \<bind> (\<lambda>h. set_balance h x 0) = Some h2"
      "on_heap h2 p (single d y yk yv S x xk xv B A 0 0)"
      "\<And>a. a \<notin> set (addrs (fill (Frame d y yk yv yb S) T)) \<Longrightarrow> h2 a = h1 a"
      using set_single_balances [OF h1(2)] assms(2) unfolding ad by blast
    have "get_rotate h y d = Some (h2, x)" using link nx h1(1) h2(1) xb
      by (auto simp: get_rotate_def bind_eq_Some_conv)
    moreover have "rootp (single d y yk yv S x xk xv B A 0 0) = Some x" by (simp add: single_def)
    ultimately show ?thesis
      using h1(3) h2(2,3) balanced_single [OF b assms(4) assms(5) [unfolded T], of y yk yv]
        inord_single [of d y yk yv S x xk xv B A 0 0 yb xb] xb T
      by (intro exI [of _ h2] exI [of _ "single d y yk yv S x xk xv B A 0 0"] exI [of _ x]) (simp del: fill.simps)
  next
    assume xb: "xb = - side d"
    obtain w wk wv wb C D where B: "B = fill (Frame d w wk wv wb C) D" using inner_child b unfolding xb by blast
    have T': "T = fill (Frame (\<not> d) x xk xv xb A) (fill (Frame d w wk wv wb C) D)" unfolding T B by simp
    obtain h1 where h1: "rotate_double h y x d = Some (h1, w)" "on_heap h1 p (double d y yk yv S x xk xv A w wk wv wb C D)"
      "\<And>a. a \<notin> set (addrs (fill (Frame d y yk yv yb S) T)) \<Longrightarrow> h1 a = h a"
      using rotate_double_ok [OF assms(1,2) [unfolded T']] unfolding T' double_def by blast
    have "get_rotate h y d = Some (h1, w)" using link nx h1(1) xb by (auto simp: get_rotate_def)
    moreover have "rootp (double d y yk yv S x xk xv A w wk wv wb C D) = Some w" by (simp add: double_def)
    ultimately show ?thesis
      using h1(2,3) balanced_double [OF assms(3) [unfolded T'] assms(4) assms(5) [unfolded T'] xb, of y yk yv]
        inord_double [of d y yk yv S x xk xv A w wk wv wb C D yb xb] T'
      by (intro exI [of _ h1] exI [of _ "double d y yk yv S x xk xv A w wk wv wb C D"] exI [of _ w]) (simp del: fill.simps)
  qed
qed

text \<open>The side of a subtree, as the code finds it by comparing pointers.\<close>

lemma owner_side:
  assumes "tree_ctx m fs (Some y)" "y \<notin> ctx_addrs fs"
  shows "\<exists>l. owner_link m (owner_of fs) False = Some l \<and> (l \<noteq> Some y) = dir_of fs"
proof (cases fs)
  case Nil
  with assms show ?thesis by (simp add: owner_link_def tree_ctx_def)
next
  case (Cons f fs')
  then have "frame_on_heap (nodes m) (parent_of fs') f (Some y)" "y \<notin> ctx_addrs [f]"
    using assms ctx_addrs_append [of "[f]" fs'] by (auto simp: tree_ctx_def)
  from frame_side [OF this] Cons show ?thesis by (auto simp: owner_link_def get_link_def)
qed

lemma get_rebalance_ok:
  assumes ctx: "tree_ctx m fs (Some y)" and on: "on_heap (nodes m) (parent_of fs) (fill (Frame d y yk yv yb S) T)"
    and dist: "distinct (addrs (plug fs (fill (Frame d y yk yv yb S) T)))"
    and bal: "balanced T" "balanced S" "yb = side d * (int (ht T) - int (ht S))" "ht S \<le> Suc (ht T)" "ht T \<le> ht S + 2"
    and root: "ht T = ht S + 2 \<longrightarrow> root_balance T \<noteq> 0"
  shows "\<exists>m' R. get_rebalance m y = Some m' \<and> on_heap (nodes m') None (plug fs R) \<and> avl_root m' = rootp (plug fs R) \<and>
     inord R = inord (fill (Frame d y yk yv yb S) T) \<and> balanced R \<and>
     ht R = (if ht T = ht S + 2 then ht S + 2 else ht (fill (Frame d y yk yv yb S) T)) \<and>
     (\<forall>a. a \<notin> set (addrs (plug fs (fill (Frame d y yk yv yb S) T))) \<longrightarrow> nodes m' a = nodes m a) \<and> meta m' = meta m"
proof -
  let ?Y = "fill (Frame d y yk yv yb S) T"
  have ny: "\<exists>n. nodes m y = Some n \<and> avl_balance n = yb" using on by (cases d) auto
  have dis: "ctx_distinct fs" "distinct (addrs ?Y)" "ctx_addrs fs \<inter> set (addrs ?Y) = {}" using dist by (simp_all only: distinct_plug)
  show ?thesis
  proof (cases "ht T = ht S + 2")
    case False
    then have "yb = -1 \<or> yb = 0 \<or> yb = 1" using bal(3-5) by (auto simp: side_def)
    then have "get_rebalance m y = Some m" using ny by (auto simp: get_rebalance_def)
    moreover have "balanced ?Y" unfolding balanced_fill using bal False by (auto simp: side_def)
    ultimately show ?thesis using False ctx on
      by (intro exI [of _ m] exI [of _ ?Y]) (simp add: on_heap_plug rootp_plug tree_ctx_def del: fill.simps)
  next
    case True
    then have yb: "yb = 2 * side d" using bal(3) by simp
    obtain h R w where R: "get_rotate (nodes m) y d = Some (h, w)" "on_heap h (parent_of fs) R" "rootp R = Some w" "balanced R"
      "ht R = ht S + 2" "inord R = inord ?Y" "\<And>a. a \<notin> set (addrs ?Y) \<Longrightarrow> h a = nodes m a"
      using get_rotate_ok [OF on dis(2) bal(1,2) True root [rule_format, OF True]] by blast
    have same: "ctx_on_heap h fs c = ctx_on_heap (nodes m) fs c" for c by (rule ctx_cong) (use R(7) dis(3) in blast)
    then have ctx1: "tree_ctx (m\<lparr>nodes := h\<rparr>) fs (Some y)" using ctx by (simp add: tree_ctx_def)
    have addr: "set (addrs R) = set (addrs ?Y)" using R(6) by (simp add: addrs_inord del: fill.simps)
    obtain m' where m': "set_owner_link (m\<lparr>nodes := h\<rparr>) (owner_of fs) (dir_of fs) (Some w) = Some m'"
      "tree_ctx m' fs (Some w)" "\<And>a. a \<notin> ctx_addrs fs \<Longrightarrow> nodes m' a = h a" "meta m' = meta m"
      using set_owner_link_ok [OF ctx1 dis(1), of "Some w"] by auto
    have y: "y \<notin> ctx_addrs fs" using dis(3) by (cases d) auto
    obtain nw where nw: "h w = Some nw" "avl_parent nw = parent_of fs" using R(2,3) by (cases R) auto
    have "get_rebalance m y = Some m'"
      using owner_side [OF ctx1 y] ny yb R(1) nw m'(1)
      by (cases fs; cases d) (auto simp: get_rebalance_def side_def set_owner_link_def owner_link_def get_link_def)
    moreover have "on_heap (nodes m') (parent_of fs) R = on_heap h (parent_of fs) R"
      by (rule on_heap_cong) (use m'(3) dis(3) addr in blast)
    moreover have "nodes m' a = nodes m a" if "a \<notin> set (addrs (plug fs ?Y))" for a
      using that m'(3) R(7) by (simp add: addrs_plug del: fill.simps)
    ultimately show ?thesis using R m' True
      by (intro exI [of _ m'] exI [of _ R]) (simp add: on_heap_plug rootp_plug tree_ctx_def del: fill.simps)
  qed
qed

lemma pivot_split:
  assumes "fs \<noteq> []"
  obtains inner f outer where "fs = inner @ f # outer" "\<forall>g \<in> set inner. frame_balance g = 0"
    "pivot fs (root_of fs c) = Some (node_of f)" "frame_balance f \<noteq> 0 \<or> outer = []"
proof -
  have "\<exists>inner f outer. fs = inner @ f # outer \<and> (\<forall>g \<in> set inner. frame_balance g = 0) \<and>
    pivot fs (root_of fs c) = Some (node_of f) \<and> (frame_balance f \<noteq> 0 \<or> outer = [])"
    using assms
  proof (induction fs arbitrary: c)
    case (Cons g fs)
    show ?case
    proof (cases "frame_balance g \<noteq> 0 \<or> fs = []")
      case True
      then show ?thesis by (intro exI [of _ "[]"] exI [of _ g] exI [of _ fs]) auto
    next
      case False
      then obtain inner f outer where *: "fs = inner @ f # outer" "\<forall>g \<in> set inner. frame_balance g = 0"
        "pivot fs (root_of fs (Some (node_of g))) = Some (node_of f)" "frame_balance f \<noteq> 0 \<or> outer = []"
        using Cons.IH by blast
      with False show ?thesis by (intro exI [of _ "g # inner"] exI [of _ f] exI [of _ outer]) auto
    qed
  qed simp
  with that show ?thesis by blast
qed

lemma bump_lists: "lefts (map bump fs) = lefts fs" "rights (map bump fs) = rights fs"
proof (induction fs)
  case (Cons f fs)
  case 1
  then show ?case using Cons by (cases f) simp
next
  case (Cons f fs)
  case 2
  then show ?case using Cons by (cases f) simp
qed simp_all

lemma inord_bump: "inord (plug (map bump fs) t) = inord (plug fs t)"
  by (simp add: inord_plug bump_lists)

lemma inord_plug_eq: "inord t = inord t' \<Longrightarrow> inord (plug fs t) = inord (plug fs t')"
  by (simp add: inord_plug)

lemma root_balance_bump:
  assumes "inner \<noteq> []" "\<forall>g \<in> set inner. frame_balance g = 0"
  shows "root_balance (plug (map bump inner) t) \<noteq> 0"
proof -
  obtain gs g where g: "inner = gs @ [g]" using assms(1) by (metis rev_exhaust)
  with assms(2) show ?thesis by (cases g) (auto simp: side_def)
qed

lemma nodes_upd: "nodes (m\<lparr>nodes := h\<rparr>) = h"
  by simp

lemma root_of_append: "root_of (fs @ f # gs) c = root_of gs (Some (node_of f))"
  by (induction fs arbitrary: c) auto

text \<open>From the linked leaf to the rebalanced tree.\<close>

lemma insert_walk:
  assumes t: "balanced (plug fs Tip)" and fs: "fs \<noteq> []" and leaf: "leaf = Nd Tip n k None 0 Tip"
    and on: "on_heap (nodes m) None (plug fs leaf)" and root: "avl_root m = root_of fs c"
    and dist: "distinct (addrs (plug fs leaf))"
  shows "\<exists>y h m' t'. pivot fs (avl_root m) = Some y \<and> balance_loop (nodes m) n y = Some h \<and>
     get_rebalance (m\<lparr>nodes := h\<rparr>) y = Some m' \<and> on_heap (nodes m') None t' \<and> avl_root m' = rootp t' \<and>
     balanced t' \<and> inord t' = inord (plug fs leaf) \<and>
     (\<forall>a. a \<notin> set (addrs (plug fs leaf)) \<longrightarrow> nodes m' a = nodes m a) \<and> meta m' = meta m"
proof -
  obtain inner f outer where sp: "fs = inner @ f # outer" "\<forall>g \<in> set inner. frame_balance g = 0"
    "pivot fs (avl_root m) = Some (node_of f)" "frame_balance f \<noteq> 0 \<or> outer = []"
    using pivot_split [OF fs, of c] unfolding root by blast
  obtain d y yk yv yb S where f: "f = Frame d y yk yv yb S" by (cases f)
  have dis: "ctx_distinct fs" "n \<notin> ctx_addrs fs" and on': "ctx_on_heap (nodes m) fs (Some n)"
    and nn: "nodes m n = Some \<lparr>avl_link = two None None, avl_parent = parent_of fs, node_key = k, node_val = None, avl_balance = 0\<rparr>"
    using dist on leaf by (simp_all add: distinct_plug on_heap_plug)
  obtain h where h: "balance_loop (nodes m) n y = Some h" "ctx_on_heap h (map bump (inner @ [f]) @ outer) (Some n)"
    "\<And>a. a \<notin> node_of ` set (inner @ [f]) \<Longrightarrow> h a = nodes m a"
    using balance_loop_ok [of "nodes m" inner f outer n, OF _ _ _ nn] on' dis sp(1) f by auto
  have nodes_in: "node_of ` set (inner @ [f]) \<subseteq> ctx_addrs fs" using node_of_in_ctx [of _ fs] sp(1) by auto
  then have "h n = nodes m n" using h(3) dis(2) by blast
  let ?T = "plug (map bump inner) leaf" let ?U = "plug inner Tip" let ?Y = "fill (Frame d y yk yv (yb + side d) S) ?T"
  have "on_heap h None (plug (map bump (inner @ [f]) @ outer) leaf)"
    unfolding on_heap_plug using h(2) \<open>h n = nodes m n\<close> nn leaf sp(1) by simp
  then have Y: "ctx_on_heap h outer (Some y)" "on_heap h (parent_of outer) ?Y"
    using f by (simp_all add: on_heap_plug del: fill.simps)
  have in0: "inord (plug outer ?Y) = inord (plug fs leaf)"
    using inord_plug_eq [OF inord_bump [of "inner @ [f]" leaf], of outer] sp(1) f by simp
  then have dist': "distinct (addrs (plug outer ?Y))" using dist by (simp add: addrs_inord)
  have bal0: "balanced (plug outer (fill f ?U))" using t sp(1) by simp
  then have "balanced (fill f ?U)" by (rule balanced_plugD)
  then have bf: "yb = side d * (int (ht ?U) - int (ht S))" "-1 \<le> yb" "yb \<le> 1" "balanced S" "balanced ?U"
    unfolding f balanced_fill by simp_all
  have bT: "balanced ?T" "ht ?T = Suc (ht ?U)" using bump_tree [OF sp(2) bf(5), of leaf] leaf by simp_all
  have ctx: "tree_ctx (m\<lparr>nodes := h\<rparr>) outer (Some y)" using Y(1) root sp(1) f
    by (simp add: tree_ctx_def root_of_append)
  have on2: "on_heap (nodes (m\<lparr>nodes := h\<rparr>)) (parent_of outer) ?Y" using Y(2) by (simp del: fill.simps)
  have yb: "yb + side d = side d * (int (ht ?T) - int (ht S))" using bf(1) bT(2) by (simp add: algebra_simps)
  have hts: "ht S \<le> Suc (ht ?T)" "ht ?T \<le> ht S + 2" using bf(1-3) bT(2) by (cases d; simp add: side_def)+
  have "ht ?T = ht S + 2 \<longrightarrow> root_balance ?T \<noteq> 0"
    by (intro impI root_balance_bump [OF _ sp(2)]) (use leaf in auto)
  from get_rebalance_ok [OF ctx on2 dist' bT(1) bf(4) yb hts this]
  obtain m' R where R: "get_rebalance (m\<lparr>nodes := h\<rparr>) y = Some m'" "on_heap (nodes m') None (plug outer R)"
    "avl_root m' = rootp (plug outer R)" "inord R = inord ?Y" "balanced R"
    "ht R = (if ht ?T = ht S + 2 then ht S + 2 else ht ?Y)"
    "\<forall>a. a \<notin> set (addrs (plug outer ?Y)) \<longrightarrow> nodes m' a = h a" "meta m' = meta m"
    unfolding nodes_upd meta_simps by blast
  have "balanced (plug outer R)"
  proof (cases "outer = []")
    case False
    then have "yb \<noteq> 0" using sp(4) f by simp
    then have "ht R = ht (fill f ?U)" using R(6) bf(1-3) bT(2) unfolding f ht_fill by (auto simp: side_def split: if_splits)
    then show ?thesis using balanced_plug_cong [OF bal0 R(5)] by blast
  qed (use R(5) in simp)
  moreover have "addrs (plug outer ?Y) = addrs (plug fs leaf)" using in0 by (simp only: addrs_inord)
  then have "nodes m' a = nodes m a" if "a \<notin> set (addrs (plug fs leaf))" for a
    using that R(7) h(3) [of a] nodes_in addrs_plug [of fs leaf] by auto
  ultimately show ?thesis using sp(3) f h(1) R inord_plug_eq [OF R(4), of outer] in0
    by (intro exI [of _ y] exI [of _ h] exI [of _ m'] exI [of _ "plug outer R"]) simp
qed

subsection \<open>Lookup, insertion and update\<close>

lemma is_mapD:
  assumes "is_map m t"
  shows "on_heap (nodes m) None t" "avl_root m = rootp t" "distinct (addrs t)" "dom (nodes m) = set (addrs t)"
    "balanced t" "ordered (inord t)" "avl_count m = of_nat (length (inord t))"
  using assms by (auto simp: is_map_def)

lemma map_get_run:
  assumes "is_map m t" "descend k t [] = (fs, t')"
  shows "get_loop (nodes m) k None (avl_root m) False (avl_root m) =
    Some (case t' of Tip \<Rightarrow> Inr (parent_of fs, dir_of fs, pivot fs (avl_root m)) | Nd _ a _ _ _ _ \<Rightarrow> Inl a)"
  using get_loop_ok [of "nodes m" "[]" t k "avl_root m"] is_mapD [OF assms(1)] assms(2)
  by (simp split: avl.splits)

lemma map_find_ok:
  assumes "is_map m t"
  shows "map_find m k = Some (map_option fst (List.find (\<lambda>e. ekey e = key_rank k) (inord t)))"
proof -
  obtain fs t' where d: "descend k t [] = (fs, t')" by fastforce
  show ?thesis using find_loop_ok [of "nodes m" None t k "[]"] is_mapD [OF assms] d
      descend_find(1) [OF is_mapD(6) [OF assms] d]
    by (auto simp: map_find_def split: avl.splits)
qed

text \<open>The node with the key exists.\<close>

lemma map_get_found:
  assumes "is_map m t" "List.find (\<lambda>e. ekey e = key_rank k) (inord t) = Some (a, k', v)"
  shows "map_get m k mem copied = Some (m, Some a)"
proof -
  obtain fs t' where d: "descend k t [] = (fs, t')" by fastforce
  with descend_find(1) [OF is_mapD(6) [OF assms(1)] d] assms(2) map_get_run [OF assms(1) d]
  show ?thesis by (auto simp: map_get_def split: avl.splits)
qed

text \<open>It does not, and is linked below the last node of the descent.\<close>

lemma link_new:
  assumes m: "is_map m t" and d: "descend k t [] = (fs, Tip)" and n: "n \<notin> dom (nodes m)"
  shows "\<exists>m1. set_owner_link (m\<lparr>avl_count := c, nodes := (nodes m)(n \<mapsto> nn)\<rparr>) (owner_of fs) (dir_of fs) (Some n) = Some m1 \<and>
     ctx_on_heap (nodes m1) fs (Some n) \<and> avl_root m1 = root_of fs (Some n) \<and> nodes m1 n = Some nn \<and>
     (\<forall>a. a \<notin> insert n (ctx_addrs fs) \<longrightarrow> nodes m1 a = None) \<and> meta m1 = (c, snd (meta m))"
proof -
  note D = is_mapD [OF m]
  have t: "t = plug fs Tip" using descend_plug [OF d] by simp
  have ctx: "set (addrs t) = ctx_addrs fs" unfolding t addrs_plug by simp
  then have nctx: "n \<notin> ctx_addrs fs" using n D(4) by simp
  have "tree_ctx (m\<lparr>avl_count := c, nodes := (nodes m)(n \<mapsto> nn)\<rparr>) fs None"
    using D(1,2) nctx unfolding t by (simp add: tree_ctx_def on_heap_plug rootp_plug)
  from set_owner_link_ok [OF this, of "Some n"] D(3) obtain m1 where
    m1: "set_owner_link (m\<lparr>avl_count := c, nodes := (nodes m)(n \<mapsto> nn)\<rparr>) (owner_of fs) (dir_of fs) (Some n) = Some m1"
      "tree_ctx m1 fs (Some n)" "\<And>a. a \<notin> ctx_addrs fs \<Longrightarrow> nodes m1 a = ((nodes m)(n \<mapsto> nn)) a"
      "meta m1 = meta (m\<lparr>avl_count := c, nodes := (nodes m)(n \<mapsto> nn)\<rparr>)"
    unfolding t distinct_plug by auto
  moreover have "nodes m1 a = None" if "a \<notin> insert n (ctx_addrs fs)" for a
    using m1(3) [of a] that ctx D(4) by auto
  ultimately show ?thesis using nctx by (intro exI [of _ m1]) (simp add: tree_ctx_def meta_def)
qed

lemma map_get_new:
  assumes m: "is_map m t" and none: "List.find (\<lambda>e. ekey e = key_rank k) (inord t) = None"
    and n: "n \<notin> dom (nodes m)" and copy: "no_duplicate m \<or> copied"
  shows "\<exists>m' t'. map_get m k (Some (n, raw)) copied = Some (m', Some n) \<and> is_map m' t' \<and>
     inord t' = filter (\<lambda>e. ekey e < key_rank k) (inord t) @ (n, k, None) # filter (\<lambda>e. key_rank k < ekey e) (inord t) \<and>
     no_duplicate m' = no_duplicate m"
proof -
  note D = is_mapD [OF m]
  obtain fs u where "descend k t [] = (fs, u)" by fastforce
  with descend_find(1) [OF D(6) this] none have d: "descend k t [] = (fs, Tip)" by (cases u) auto
  have t: "t = plug fs Tip" using descend_plug [OF d] by simp
  let ?leaf = "Nd Tip n k None 0 Tip" let ?c = "avl_count m + 1"
  let ?nn = "raw\<lparr>avl_link := \<lambda>_. None, avl_parent := parent_of fs, node_key := k, node_val := None\<rparr>"
  obtain m1 where m1: "set_owner_link (m\<lparr>avl_count := ?c, nodes := (nodes m)(n \<mapsto> ?nn)\<rparr>) (owner_of fs) (dir_of fs) (Some n) = Some m1"
    "ctx_on_heap (nodes m1) fs (Some n)" "avl_root m1 = root_of fs (Some n)" "nodes m1 n = Some ?nn"
    "\<And>a. a \<notin> insert n (ctx_addrs fs) \<Longrightarrow> nodes m1 a = None" "meta m1 = (?c, snd (meta m))"
    using link_new [OF m d n] by blast
  let ?m2 = "m1\<lparr>nodes := (nodes m1)(n \<mapsto> ?nn\<lparr>avl_balance := 0\<rparr>)\<rparr>"
  have nctx: "n \<notin> ctx_addrs fs" using n D(4) unfolding t addrs_plug by simp
  have two: "(\<lambda>_. None) = two None None" by (simp add: two_def)
  have on: "on_heap (nodes ?m2) None (plug fs ?leaf)"
    using m1(2) nctx unfolding on_heap_plug by (cases raw) (simp add: two)
  have dist: "distinct (addrs (plug fs ?leaf))" using D(3) nctx unfolding t distinct_plug by simp
  have ord: "inord (plug fs ?leaf) = filter (\<lambda>e. ekey e < key_rank k) (inord t) @ (n, k, None) # filter (\<lambda>e. key_rank k < ekey e) (inord t)"
    using descend_find(2) [OF D(6) d] by (simp add: inord_plug)
  have sorted: "ordered (inord (plug fs ?leaf))"
    using D(6) descend_order [OF d, simplified, OF D(6)] unfolding t inord_plug by (auto simp: sorted_wrt_append)
  have len: "length (inord (plug fs ?leaf)) = Suc (length (inord t))" unfolding t by (simp add: inord_plug)
  have addr: "set (addrs (plug fs ?leaf)) = insert n (ctx_addrs fs)" by (simp add: addrs_plug)
  have rep: "is_map m' t'" if "on_heap (nodes m') None t'" "avl_root m' = rootp t'" "balanced t'"
    "inord t' = inord (plug fs ?leaf)" "\<forall>a. a \<notin> set (addrs (plug fs ?leaf)) \<longrightarrow> nodes m' a = nodes ?m2 a" "meta m' = meta m1" for m' t'
  proof -
    have ad: "addrs t' = addrs (plug fs ?leaf)" using that(4) by (simp only: addrs_inord)
    have "dom (nodes m') = set (addrs t')"
      using that(5) m1(5) on_heap_dom [OF that(1)] unfolding ad addr by (fastforce simp: dom_def)
    then show ?thesis using that ad dist sorted len D(7) m1(6) by (simp add: is_map_def meta_def)
  qed
  have nodup: "no_duplicate m' = no_duplicate m" if "meta m' = meta m1" for m' using that m1(6) by (simp add: meta_def)
  have run: "map_get m k (Some (n, raw)) copied =
     (if avl_root ?m2 = Some n then Some (?m2, Some n)
      else do { ya \<leftarrow> pivot fs (avl_root m); h \<leftarrow> balance_loop (nodes ?m2) n ya;
                tree \<leftarrow> get_rebalance (?m2\<lparr>nodes := h\<rparr>) ya; Some (tree, Some n) })"
    using m1(1,4) copy map_get_run [OF m d]
    by (cases fs) (auto simp: map_get_def upd_node_def set_owner_link_def set_balance_def bind_eq_Some_conv Let_def)
  show ?thesis
  proof (cases "fs = []")
    case True
    have "is_map ?m2 (plug fs ?leaf)" by (rule rep) (use True on m1(3) in simp_all)
    then show ?thesis using run True m1(3) ord nodup [of ?m2] by (intro exI [of _ ?m2] exI [of _ "plug fs ?leaf"]) simp
  next
    case False
    have root: "avl_root m = root_of fs (Some n)" using D(2) root_of_Some [OF False] unfolding t rootp_plug by simp
    then have "avl_root ?m2 \<noteq> Some n" using m1(3) D(2,4) n rootp_in [of t n] by auto
    with insert_walk [OF D(5) [unfolded t] False refl on _ dist, of "Some n"] m1(3) root run
    obtain m' t' where "map_get m k (Some (n, raw)) copied = Some (m', Some n)" "on_heap (nodes m') None t'" "avl_root m' = rootp t'"
      "balanced t'" "inord t' = inord (plug fs ?leaf)" "\<forall>a. a \<notin> set (addrs (plug fs ?leaf)) \<longrightarrow> nodes m' a = nodes ?m2 a" "meta m' = meta ?m2"
      by auto
    with rep [of m' t'] nodup [of m'] ord show ?thesis by auto
  qed
qed

end
