(* ===== verification/Avl_Remove.thy ===== *)
theory Avl_Remove
  imports Avl_Get
begin

text \<open>
  Deletions: \<open>delete_node\<close> unlinks a node, rebalances on the way up and frees it; \<open>map_remove\<close> and
  \<open>iterator_delete\<close> take exactly one entry out of the map.
\<close>

subsection \<open>The way up\<close>

text \<open>A changed subtree is linked again below its owner.\<close>

lemma relink:
  assumes ctx: "tree_ctx m fs c" "ctx_distinct fs" "ctx_addrs fs \<inter> set (addrs R) = {}"
    and h: "on_heap h (parent_of fs) R" "\<And>a. a \<notin> set (addrs R) \<Longrightarrow> h a = nodes m a"
  shows "\<exists>m1. set_owner_link (m\<lparr>nodes := h\<rparr>) (owner_of fs) (dir_of fs) (rootp R) = Some m1 \<and> tree_ctx m1 fs (rootp R) \<and>
     on_heap (nodes m1) (parent_of fs) R \<and> (\<forall>a. a \<notin> ctx_addrs fs \<longrightarrow> nodes m1 a = h a) \<and> meta m1 = meta m"
proof -
  have "ctx_on_heap h fs c = ctx_on_heap (nodes m) fs c" by (rule ctx_cong) (use h(2) ctx(3) in blast)
  then have "tree_ctx (m\<lparr>nodes := h\<rparr>) fs c" using ctx(1) by (simp add: tree_ctx_def)
  from set_owner_link_ok [OF this ctx(2), of "rootp R"] obtain m1 where
    m1: "set_owner_link (m\<lparr>nodes := h\<rparr>) (owner_of fs) (dir_of fs) (rootp R) = Some m1" "tree_ctx m1 fs (rootp R)"
      "\<forall>a. a \<notin> ctx_addrs fs \<longrightarrow> nodes m1 a = h a" "meta m1 = meta m" by auto
  moreover have "on_heap (nodes m1) (parent_of fs) R = on_heap h (parent_of fs) R"
    by (rule on_heap_cong) (use m1(3) ctx(3) in blast)
  ultimately show ?thesis using h(1) by blast
qed

text \<open>The rotations of the loop at \<open>y\<close>, which is two higher on side \<open>d\<close>.\<close>

definition delete_rotate :: "avl_table \<Rightarrow> addr \<Rightarrow> bool \<Rightarrow> avl_owner \<Rightarrow> bool \<Rightarrow> avl_table option" where
  "delete_rotate m y d q dir = do {
     yl \<leftarrow> get_link (nodes m) y d;
     x \<leftarrow> yl;
     nx \<leftarrow> nodes m x;
     if avl_balance nx = - side d then do {
       (h, w) \<leftarrow> rotate_double (nodes m) y x d;
       m \<leftarrow> set_owner_link (m\<lparr>nodes := h\<rparr>) q dir (Some w);
       delete_loop m q dir }
     else do {
       h \<leftarrow> rotate_single (nodes m) y x d;
       m \<leftarrow> set_owner_link (m\<lparr>nodes := h\<rparr>) q dir (Some x);
       nx \<leftarrow> nodes m x;
       if avl_balance nx = 0 then do {
         h \<leftarrow> set_balance (nodes m) x (- side d);
         h \<leftarrow> set_balance h y (side d);
         Some (m\<lparr>nodes := h\<rparr>) }
       else do {
         h \<leftarrow> set_balance (nodes m) y 0;
         h \<leftarrow> set_balance h x 0;
         delete_loop (m\<lparr>nodes := h\<rparr>) q dir } } }"

lemma delete_loop_up:
  assumes "nodes m y = Some ny" "avl_parent ny = parent_of fs" "tree_ctx m fs (Some y)" "y \<notin> ctx_addrs fs"
  shows "delete_loop m (Below y) d = do {
      h \<leftarrow> set_balance (nodes m) y (avl_balance ny - side d);
      if avl_balance ny = 0 then Some (m\<lparr>nodes := h\<rparr>)
      else if avl_balance ny = - side d then delete_rotate (m\<lparr>nodes := h\<rparr>) y (\<not> d) (owner_of fs) (dir_of fs)
      else delete_loop (m\<lparr>nodes := h\<rparr>) (owner_of fs) (dir_of fs) }"
proof -
  obtain l where l: "owner_link m (owner_of fs) False = Some l" "(l \<noteq> Some y) = dir_of fs"
    using owner_side [OF assms(3,4)] by blast
  have q: "(case avl_parent ny of Some a \<Rightarrow> Below a | None \<Rightarrow> At_Root) = owner_of fs"
    using assms(2) by (cases fs) simp_all
  have s: "avl_balance ny - side d = - side d \<longleftrightarrow> avl_balance ny = 0"
    "avl_balance ny - side d = 2 * - side d \<longleftrightarrow> avl_balance ny = - side d" by linarith+
  have upd: "m\<lparr>nodes := h, nodes := h'\<rparr> = m\<lparr>nodes := h'\<rparr>" for h h' by simp
  show ?thesis
    by (subst delete_loop.simps)
      (simp only: avl_owner.case assms(1) bind.simps q l Let_def s side_simps(2) minus_minus add_uminus_conv_diff
         delete_rotate_def nodes_upd upd)
qed

lemma set_frame_balance:
  assumes "on_heap h p (fill (Frame d a k v b s) t)" "distinct (addrs (fill (Frame d a k v b s) t))"
  shows "\<exists>h'. set_balance h a b' = Some h' \<and> on_heap h' p (fill (Frame d a k v b' s) t) \<and>
     (\<forall>x. x \<noteq> a \<longrightarrow> h' x = h x)"
  using assms by (cases d) (auto simp: set_balance_def upd_node_def)

definition shrunk :: "avl_table \<Rightarrow> frame list \<Rightarrow> avl \<Rightarrow> avl_table option \<Rightarrow> bool" where
  "shrunk m fs t r \<longleftrightarrow> (\<exists>m' t'. r = Some m' \<and> on_heap (nodes m') None t' \<and> avl_root m' = rootp t' \<and> balanced t' \<and>
     inord t' = inord (plug fs t) \<and> (\<forall>a. a \<notin> set (addrs (plug fs t)) \<longrightarrow> nodes m' a = nodes m a) \<and> meta m' = meta m)"

lemma shrunk_stop:
  assumes "tree_ctx m' fs (rootp t')" "on_heap (nodes m') (parent_of fs) t'" "balanced (plug fs t')" "inord t' = inord t"
    and "\<And>a. a \<notin> ctx_addrs fs \<union> set (addrs t) \<Longrightarrow> nodes m' a = nodes m a" "meta m' = meta m"
  shows "shrunk m fs t (Some m')"
  unfolding shrunk_def using assms inord_plug_eq [OF assms(4), of fs]
  by (intro exI [of _ m'] exI [of _ "plug fs t'"]) (simp add: on_heap_plug rootp_plug tree_ctx_def addrs_plug)

lemma shrunk_trans:
  assumes "shrunk m' fs t' r" "inord t' = inord t"
    and "\<And>a. a \<notin> ctx_addrs fs \<union> set (addrs t) \<Longrightarrow> nodes m' a = nodes m a" "meta m' = meta m"
  shows "shrunk m fs t r"
proof -
  have "addrs (plug fs t') = addrs (plug fs t)" unfolding addrs_inord inord_plug assms(2) ..
  moreover have "inord (plug fs t') = inord (plug fs t)" using inord_plug_eq [OF assms(2)] .
  ultimately show ?thesis using assms(1,3,4) unfolding shrunk_def addrs_plug by (metis addrs_plug)
qed

definition loop_ok :: "frame list \<Rightarrow> nat \<Rightarrow> bool" where
  "loop_ok fs n \<longleftrightarrow> (\<forall>m t. tree_ctx m fs (rootp t) \<longrightarrow> on_heap (nodes m) (parent_of fs) t \<longrightarrow> distinct (addrs (plug fs t)) \<longrightarrow>
     balanced t \<longrightarrow> Suc (ht t) = n \<longrightarrow> shrunk m fs t (delete_loop m (owner_of fs) (dir_of fs)))"

lemma shrunk_go:
  assumes "loop_ok fs n" "distinct (addrs (plug fs Y))"
    and "tree_ctx m' fs (rootp R)" "on_heap (nodes m') (parent_of fs) R" "balanced R" "Suc (ht R) = n" "inord R = inord Y"
    and "\<And>a. a \<notin> ctx_addrs fs \<union> set (addrs Y) \<Longrightarrow> nodes m' a = nodes m a" "meta m' = meta m"
  shows "shrunk m fs Y (delete_loop m' (owner_of fs) (dir_of fs))"
proof (rule shrunk_trans [OF _ assms(7-9)])
  have "addrs (plug fs R) = addrs (plug fs Y)" unfolding addrs_inord inord_plug assms(7) ..
  with assms(1-6) show "shrunk m' fs R (delete_loop m' (owner_of fs) (dir_of fs))" by (simp add: loop_ok_def)
qed

lemma child_link:
  assumes "on_heap h p (fill (Frame d y yk yv yb s) (fill (Frame d x xk xv xb B) A))"
  shows "get_link h y d = Some (Some x)" "\<exists>n. h x = Some n \<and> avl_balance n = xb"
  using assms by (cases d; auto simp: get_link_def)+

lemma delete_rotate_double:
  assumes ok: "loop_ok fs (ht s + 3)" and bal: "balanced (plug fs t0)" "ht t0 = ht s + 3"
    and ctx: "tree_ctx m fs (Some y)" and on: "on_heap (nodes m) (parent_of fs) (fill (Frame d y yk yv yb s) T)"
    and dist: "distinct (addrs (plug fs (fill (Frame d y yk yv yb s) T)))" and T: "balanced T" "balanced s" "ht T = ht s + 2"
    and X: "T = fill (Frame d x xk xv xb B) A" and xb: "xb = - side d"
  shows "shrunk m fs (fill (Frame d y yk yv yb s) T) (delete_rotate m y d (owner_of fs) (dir_of fs))"
proof -
  let ?Y = "fill (Frame d y yk yv yb s) T"
  have dis: "ctx_distinct fs" "distinct (addrs ?Y)" "ctx_addrs fs \<inter> set (addrs ?Y) = {}" using dist by (simp_all only: distinct_plug)
  note link = child_link [OF on [unfolded X]]
  obtain w wk wv wb C D where B: "B = fill (Frame d w wk wv wb C) D" using inner_child T(1) unfolding X xb by blast
  have T': "T = fill (Frame (\<not> d) x xk xv xb A) (fill (Frame d w wk wv wb C) D)" unfolding X B by simp
  let ?R = "double d y yk yv s x xk xv A w wk wv wb C D"
  obtain h1 where h1: "rotate_double (nodes m) y x d = Some (h1, w)" "on_heap h1 (parent_of fs) ?R"
    "\<And>a. a \<notin> set (addrs ?Y) \<Longrightarrow> h1 a = nodes m a"
    using rotate_double_ok [OF on [unfolded T'] dis(2) [unfolded T']] unfolding T' double_def by blast
  note ad = double_addrs [of d y yk yv s x xk xv A w wk wv wb C D yb xb, folded T']
  note io = inord_double [of d y yk yv s x xk xv A w wk wv wb C D yb xb, folded T']
  have root: "rootp ?R = Some w" by (simp add: double_def)
  obtain m1 where m1: "set_owner_link (m\<lparr>nodes := h1\<rparr>) (owner_of fs) (dir_of fs) (Some w) = Some m1" "tree_ctx m1 fs (rootp ?R)"
    "on_heap (nodes m1) (parent_of fs) ?R" "\<forall>a. a \<notin> ctx_addrs fs \<longrightarrow> nodes m1 a = h1 a" "meta m1 = meta m"
    using relink [OF ctx dis(1) _ h1(2)] h1(3) dis(3) unfolding ad root by blast
  have "delete_rotate m y d (owner_of fs) (dir_of fs) = delete_loop m1 (owner_of fs) (dir_of fs)"
    using link h1(1) m1(1) xb by (auto simp: delete_rotate_def)
  moreover have "nodes m1 a = nodes m a" if "a \<notin> ctx_addrs fs \<union> set (addrs ?Y)" for a using that m1(4) h1(3) by simp
  ultimately show ?thesis using shrunk_go [OF ok dist m1(2,3) _ _ io _ m1(5)] balanced_double [OF T(1) [unfolded T'] T(2) T(3) [unfolded T'] xb] by simp
qed

lemma delete_rotate_single:
  assumes ok: "loop_ok fs (ht s + 3)" and bal: "balanced (plug fs t0)" "ht t0 = ht s + 3"
    and ctx: "tree_ctx m fs (Some y)" and on: "on_heap (nodes m) (parent_of fs) (fill (Frame d y yk yv yb s) T)"
    and dist: "distinct (addrs (plug fs (fill (Frame d y yk yv yb s) T)))" and T: "balanced T" "balanced s" "ht T = ht s + 2"
    and X: "T = fill (Frame d x xk xv xb B) A" and xb: "xb \<noteq> - side d"
  shows "shrunk m fs (fill (Frame d y yk yv yb s) T) (delete_rotate m y d (owner_of fs) (dir_of fs))"
proof -
  let ?Y = "fill (Frame d y yk yv yb s) T"
  have dis: "ctx_distinct fs" "distinct (addrs ?Y)" "ctx_addrs fs \<inter> set (addrs ?Y) = {}" using dist by (simp_all only: distinct_plug)
  note link = child_link [OF on [unfolded X]]
  obtain h1 where h1: "rotate_single (nodes m) y x d = Some h1" "on_heap h1 (parent_of fs) (single d y yk yv s x xk xv B A xb yb)"
    "\<And>a. a \<notin> set (addrs ?Y) \<Longrightarrow> h1 a = nodes m a"
    using rotate_single_ok [OF on [unfolded X] dis(2) [unfolded X]] unfolding X single_def by blast
  let ?R = "\<lambda>xb' yb'. single d y yk yv s x xk xv B A xb' yb'"
  have ad: "addrs (?R xb' yb') = addrs ?Y" and io: "inord (?R xb' yb') = inord ?Y" and root: "rootp (?R xb' yb') = Some x" for xb' yb'
    unfolding X by (rule single_addrs, rule inord_single, simp add: single_def)
  obtain m1 where m1: "set_owner_link (m\<lparr>nodes := h1\<rparr>) (owner_of fs) (dir_of fs) (Some x) = Some m1" "tree_ctx m1 fs (Some x)"
    "on_heap (nodes m1) (parent_of fs) (?R xb yb)" "\<forall>a. a \<notin> ctx_addrs fs \<longrightarrow> nodes m1 a = h1 a" "meta m1 = meta m"
    using relink [OF ctx dis(1) _ h1(2)] h1(3) dis(3) unfolding ad root by blast
  have nx1: "\<exists>n. nodes m1 x = Some n \<and> avl_balance n = xb" using m1(3) unfolding single_def by (cases d) auto
  obtain h2 where h2: "set_balance (nodes m1) y (side d - xb) \<bind> (\<lambda>h. set_balance h x (xb - side d)) = Some h2"
    "set_balance (nodes m1) x (xb - side d) \<bind> (\<lambda>h. set_balance h y (side d - xb)) = Some h2"
    "on_heap h2 (parent_of fs) (?R (xb - side d) (side d - xb))" "\<And>a. a \<notin> set (addrs ?Y) \<Longrightarrow> h2 a = nodes m1 a"
    using set_single_balances [OF m1(3)] dis(2) unfolding ad by blast
  have "ctx_on_heap h2 fs (Some x) = ctx_on_heap (nodes m1) fs (Some x)" by (rule ctx_cong) (use h2(4) dis(3) in blast)
  then have ctx2: "tree_ctx (m1\<lparr>nodes := h2\<rparr>) fs (rootp (?R (xb - side d) (side d - xb)))" using m1(2) root by (simp add: tree_ctx_def)
  have fr: "nodes (m1\<lparr>nodes := h2\<rparr>) a = nodes m a" if "a \<notin> ctx_addrs fs \<union> set (addrs ?Y)" for a
    using that m1(4) h1(3) h2(4) by simp
  have on2: "on_heap (nodes (m1\<lparr>nodes := h2\<rparr>)) (parent_of fs) (?R (xb - side d) (side d - xb))" using h2(3) by simp
  note br = balanced_single [OF T(1) [unfolded X] T(2) T(3) [unfolded X] xb, of y yk yv]
  have me: "meta (m1\<lparr>nodes := h2\<rparr>) = meta m" using m1(5) by simp
  show ?thesis
  proof (cases "xb = 0")
    case True
    obtain h3 where "set_balance (nodes m1) x (- side d) = Some h3" "set_balance h3 y (side d) = Some h2"
      using h2(2) True by (auto simp: bind_eq_Some_conv)
    then have "delete_rotate m y d (owner_of fs) (dir_of fs) = Some (m1\<lparr>nodes := h2\<rparr>)"
      using link h1(1) m1(1) nx1 True by (auto simp: delete_rotate_def)
    moreover have "balanced (plug fs (?R (xb - side d) (side d - xb)))"
      using balanced_plug_cong [OF bal(1)] br bal(2) True by auto
    ultimately show ?thesis using shrunk_stop [OF ctx2 on2 _ io fr me] by simp
  next
    case nz: False
    then have "xb = side d" using T(1) xb unfolding X balanced_fill by (auto simp: side_def split: if_splits)
    then have "delete_rotate m y d (owner_of fs) (dir_of fs) = delete_loop (m1\<lparr>nodes := h2\<rparr>) (owner_of fs) (dir_of fs)"
      using link h1(1) m1(1) nx1 h2(1) nz xb by (auto simp: delete_rotate_def bind_eq_Some_conv)
    with shrunk_go [OF ok dist ctx2 on2 _ _ io fr me] br nz show ?thesis by simp
  qed
qed

lemma delete_loop_ok: "balanced (plug fs t0) \<Longrightarrow> loop_ok fs (ht t0)"
proof (induction fs arbitrary: t0)
  case Nil
  have "delete_loop m At_Root d = Some m" for m d by (subst delete_loop.simps) simp
  then show ?case using shrunk_stop [where fs = "[]"] by (simp add: loop_ok_def)
next
  case (Cons f fs)
  obtain d y yk yv yb S where f: "f = Frame d y yk yv yb S" by (cases f)
  have bal0: "balanced (plug fs (fill f t0))" using Cons.prems by simp
  then have bf: "yb = side d * (int (ht t0) - int (ht S))" "-1 \<le> yb" "yb \<le> 1" "balanced S"
    using balanced_plugD [OF bal0] unfolding f balanced_fill by simp_all
  show ?case unfolding loop_ok_def
  proof (intro allI impI)
    fix m t
    assume ctx: "tree_ctx m (f # fs) (rootp t)" and on: "on_heap (nodes m) (parent_of (f # fs)) t"
      and dist: "distinct (addrs (plug (f # fs) t))" and t: "balanced t" "Suc (ht t) = ht t0"
    let ?Y = "\<lambda>b. fill (Frame d y yk yv b S) t"
    have ctx': "tree_ctx m fs (Some y)" using ctx f by (simp add: tree_ctx_def)
    have on': "on_heap (nodes m) (parent_of fs) (?Y yb)" using ctx on f by (simp add: tree_ctx_def on_heap_fill del: fill.simps)
    have dist': "distinct (addrs (plug fs (?Y yb)))" using dist f by simp
    then have dis: "ctx_distinct fs" "distinct (addrs (?Y yb))" "ctx_addrs fs \<inter> set (addrs (?Y yb)) = {}"
      by (simp_all only: distinct_plug)
    have same: "inord (?Y b) = inord (?Y b')" "addrs (?Y b) = addrs (?Y b')" for b b' by simp_all
    have y: "y \<notin> ctx_addrs fs" "y \<in> set (addrs (?Y yb))" using dis(3) by (cases d; auto)+
    obtain ny where ny: "nodes m y = Some ny" "avl_parent ny = parent_of fs" "avl_balance ny = yb" using on' by (cases d) auto
    obtain h where h: "set_balance (nodes m) y (yb - side d) = Some h" "on_heap h (parent_of fs) (?Y (yb - side d))"
      "\<And>x. x \<noteq> y \<Longrightarrow> h x = nodes m x" using set_frame_balance [OF on' dis(2)] by blast
    let ?m = "m\<lparr>nodes := h\<rparr>"
    have "ctx_on_heap h fs (Some y) = ctx_on_heap (nodes m) fs (Some y)" by (rule ctx_cong, rule h(3)) (use y(1) in auto)
    then have ctx1: "tree_ctx ?m fs (rootp (?Y (yb - side d)))" using ctx' by (simp add: tree_ctx_def del: fill.simps)
    have on1: "on_heap (nodes ?m) (parent_of fs) (?Y (yb - side d))" using h(2) by (simp del: fill.simps)
    have fr: "nodes ?m a = nodes m a" if "a \<notin> ctx_addrs fs \<union> set (addrs (?Y yb))" for a
    proof -
      have "a \<noteq> y" using that y(2) by blast
      then show ?thesis using h(3) by simp
    qed
    note up = delete_loop_up [OF ny(1,2) ctx' y(1), of d, unfolded ny(3) h(1) bind.simps]
    have "shrunk m fs (?Y yb) (delete_loop m (Below y) d)"
    proof -
      consider "yb = 0" | "yb = side d" | "yb = - side d" using bf(1-3) by (cases d) (auto simp: side_def; linarith)+
      then show ?thesis
      proof cases
        case 1
        have "balanced (?Y (yb - side d))" "ht (?Y (yb - side d)) = ht (fill f t0)"
          using 1 bf t unfolding f balanced_fill ht_fill by (cases d; simp add: side_def; linarith)+
        with balanced_plug_cong [OF bal0] shrunk_stop [OF ctx1 on1 _ same(1) fr] up 1 show ?thesis by simp
      next
        case 2
        have "balanced (?Y (yb - side d))" "Suc (ht (?Y (yb - side d))) = ht (fill f t0)"
          using 2 bf t unfolding f balanced_fill ht_fill by (cases d; simp add: side_def; linarith)+
        with shrunk_go [OF Cons.IH [OF bal0] dist' ctx1 on1 _ _ same(1) fr] up 2 show ?thesis by simp
      next
        case 3
        have hts: "ht S = ht t + 2" "ht (fill f t0) = ht t + 3"
          using 3 bf(1) t(2) unfolding f ht_fill by (cases d; simp add: side_def; linarith)+
        obtain x xk xv xb B A where X: "S = fill (Frame (\<not> d) x xk xv xb B) A" using fill_exists [of S "\<not> d"] hts(1) by force
        note flip = flip_fill [of d y yk yv _ S t]
        have ctx2: "tree_ctx ?m fs (Some y)" using ctx1 by (simp del: fill.simps)
        have dist1: "distinct (addrs (plug fs (?Y (yb - side d))))" using dist' unfolding distinct_plug same(2) [of "yb - side d" yb] .
        note rot = Cons.IH [OF bal0, unfolded hts(2)] bal0 hts(2) ctx2 on1 [unfolded flip] dist1 [unfolded flip] bf(4) t(1) hts(1) X
        have "shrunk ?m fs (?Y (yb - side d)) (delete_rotate ?m y (\<not> d) (owner_of fs) (dir_of fs))"
          unfolding flip by (cases "xb = - side (\<not> d)") (rule delete_rotate_double [OF rot], assumption, rule delete_rotate_single [OF rot])
        with shrunk_trans [OF _ same(1) fr] up 3 show ?thesis by simp
      qed
    qed
    then show "shrunk m (f # fs) t (delete_loop m (owner_of (f # fs)) (dir_of (f # fs)))"
      unfolding shrunk_def f by simp
  qed
qed

end
