(* ===== verification/Avl_Delete.thy ===== *)
theory Avl_Delete
  imports Avl_Remove
begin

text \<open>
  The first half of \<open>delete_node\<close>, which unlinks the node or puts the next one in its place, and
  the deletion as a whole.
\<close>

subsection \<open>Segments of contexts\<close>

fun seg :: "avl_heap \<Rightarrow> frame list \<Rightarrow> addr option \<Rightarrow> addr option \<Rightarrow> bool" where
  "seg h [] c p \<longleftrightarrow> True"
| "seg h (f # gs) c p \<longleftrightarrow> frame_on_heap h (if gs = [] then p else parent_of gs) f c \<and> seg h gs (Some (node_of f)) p"

fun seg_top :: "frame list \<Rightarrow> addr option \<Rightarrow> addr option" where
  "seg_top [] c = c"
| "seg_top (f # gs) c = seg_top gs (Some (node_of f))"

lemma ctx_append:
  "ctx_on_heap h (gs @ fs) c \<longleftrightarrow> seg h gs c (parent_of fs) \<and> ctx_on_heap h fs (seg_top gs c)"
proof (induction gs arbitrary: c)
  case (Cons f gs)
  have "parent_of (gs @ fs) = (if gs = [] then parent_of fs else parent_of gs)" by (cases gs) auto
  with Cons show ?case by auto
qed simp

lemma seg_cong: "(\<And>a. a \<in> ctx_addrs gs \<Longrightarrow> h' a = h a) \<Longrightarrow> seg h' gs c p \<longleftrightarrow> seg h gs c p"
proof (induction gs arbitrary: c)
  case (Cons f gs)
  obtain d a k v b s where f: "f = Frame d a k v b s" by (cases f)
  have "on_heap h' (Some a) s \<longleftrightarrow> on_heap h (Some a) s"
    by (rule on_heap_cong) (rule Cons.prems; simp add: f)
  with Cons f show ?case by simp
qed simp

text \<open>The pointer in the hole of a segment, and the parent pointer of its top.\<close>

lemma seg_set_hole:
  assumes "seg h (f # gs) c p" "ctx_distinct (f # gs)"
  shows "\<exists>h'. set_link h (node_of f) (frame_dir f) c' = Some h' \<and> seg h' (f # gs) c' p \<and> (\<forall>a. a \<noteq> node_of f \<longrightarrow> h' a = h a)"
proof -
  obtain d a k v b s where f: "f = Frame d a k v b s" by (cases f)
  let ?h = "\<lambda>n. h(a \<mapsto> n)"
  have "seg (h(a \<mapsto> n)) gs q p = seg h gs q p" for n q by (rule seg_cong) (use assms(2) f in auto)
  with assms f show ?thesis by (auto simp: set_link_def upd_node_def split: if_splits)
qed

lemma seg_set_parent:
  assumes "seg h gs c p" "gs \<noteq> []" "ctx_distinct gs"
  shows "\<exists>h'. set_parent h (the (seg_top gs c)) p' = Some h' \<and> seg h' gs c p' \<and> (\<forall>a. a \<noteq> the (seg_top gs c) \<longrightarrow> h' a = h a)"
  using assms
proof (induction gs arbitrary: c)
  case (Cons f gs)
  obtain d a k v b s where f: "f = Frame d a k v b s" by (cases f)
  show ?case
  proof (cases "gs = []")
    case True
    with Cons.prems f show ?thesis by (auto simp: set_parent_def upd_node_def)
  next
    case False
    have top: "the (seg_top gs q) \<in> ctx_addrs gs" for q
      using False
    proof (induction gs arbitrary: q)
      case (Cons g gs)
      then show ?case by (cases g; cases gs) auto
    qed simp
    obtain h' where h': "set_parent h (the (seg_top gs (Some a))) p' = Some h'" "seg h' gs (Some a) p'"
      "\<And>x. x \<noteq> the (seg_top gs (Some a)) \<Longrightarrow> h' x = h x" using Cons.IH [of "Some a"] Cons.prems False f by auto
    have "h' a = h a" by (rule h'(3)) (use top [of "Some a"] Cons.prems(3) f in auto)
    moreover have "on_heap h' (Some a) s = on_heap h (Some a) s"
      by (rule on_heap_cong, rule h'(3)) (use top [of "Some a"] Cons.prems(3) f in auto)
    ultimately show ?thesis using h' Cons.prems(1) False f by auto
  qed
qed simp

lemma leftmost_ok:
  assumes "on_heap h q t" "t \<noteq> Tip"
  shows "\<exists>gs s k v b u. t = plug gs (fill (Frame d s k v b u) Tip) \<and> (\<forall>g \<in> set gs. frame_dir g = d) \<and>
     leftmost h d (the (rootp t)) = Some s"
  using assms
proof (induction "ht t" arbitrary: t q rule: less_induct)
  case less
  obtain a k v b s u where t: "t = fill (Frame d a k v b s) u" using fill_exists less.prems(2) by blast
  obtain n where n: "h a = Some n" "avl_link n d = rootp u" using less.prems(1) t by (cases d) auto
  show ?case
  proof (cases "u = Tip")
    case True
    then have "leftmost h d a = Some a" using n by (subst leftmost.simps) simp
    then show ?thesis using t True by (intro exI [of _ "[]"]) auto
  next
    case False
    have "on_heap h (Some a) u" "ht u < ht t" using less.prems(1) t by (cases d; simp)+
    from less.hyps [OF this(2,1) False] obtain gs s' k' v' b' u' where
      *: "u = plug gs (fill (Frame d s' k' v' b' u') Tip)" "\<forall>g \<in> set gs. frame_dir g = d" "leftmost h d (the (rootp u)) = Some s'"
      by blast
    have "leftmost h d a = leftmost h d (the (rootp u))" using n False by (subst leftmost.simps) (cases u; simp)
    then have "t = plug (gs @ [Frame d a k v b s]) (fill (Frame d s' k' v' b' u') Tip) \<and>
      (\<forall>g \<in> set (gs @ [Frame d a k v b s]). frame_dir g = d) \<and> leftmost h d (the (rootp t)) = Some s'" using * t by (simp del: fill.simps)
    then show ?thesis by blast
  qed
qed

subsection \<open>Unlinking\<close>

text \<open>
  What \<open>unlink_node\<close> leaves behind: a context with a subtree that is one lower than it was, all nodes
  but \<open>p\<close> in order, ready for the way up.
\<close>

definition unlinked :: "avl_table \<Rightarrow> addr \<Rightarrow> frame list \<Rightarrow> avl \<Rightarrow> avl \<Rightarrow> bool" where
  "unlinked m p fs l r \<longleftrightarrow> (\<exists>m' fs' t' t0. unlink_node m p = Some (m', owner_of fs', dir_of fs') \<and>
     tree_ctx m' fs' (rootp t') \<and> on_heap (nodes m') (parent_of fs') t' \<and>
     inord (plug fs' t') = lefts fs @ inord l @ inord r @ rights fs \<and>
     balanced (plug fs' t0) \<and> balanced t' \<and> Suc (ht t') = ht t0 \<and>
     (\<forall>a. a \<notin> insert p (ctx_addrs fs \<union> set (addrs l) \<union> set (addrs r)) \<longrightarrow> nodes m' a = nodes m a) \<and> meta m' = meta m)"

lemma unlink_owner:
  assumes "tree_ctx m fs (Some p)" "p \<notin> ctx_addrs fs"
  shows "(case parent_of fs of
       None \<Rightarrow> Some (At_Root, False)
     | Some a \<Rightarrow> do { l \<leftarrow> get_link (nodes m) a False; Some (Below a, Some p \<noteq> l) }) = Some (owner_of fs, dir_of fs)"
  using owner_side [OF assms] by (cases fs) (auto simp: owner_link_def)

text \<open>No right child: the left one takes the place.\<close>

lemma unlink_left:
  assumes ctx: "tree_ctx m fs (Some p)" and on: "on_heap (nodes m) (parent_of fs) (Nd l p k v b Tip)"
    and dist: "distinct (addrs (plug fs (Nd l p k v b Tip)))" and bal: "balanced (plug fs (Nd l p k v b Tip))"
  shows "unlinked m p fs l Tip"
proof -
  have dis: "ctx_distinct fs" "distinct (addrs l)" "ctx_addrs fs \<inter> set (addrs l) = {}" "p \<notin> ctx_addrs fs"
    using dist by (auto simp: distinct_plug)
  have b: "balanced l" using balanced_plugD [OF bal] by simp
  obtain m1 where m1: "set_owner_link m (owner_of fs) (dir_of fs) (rootp l) = Some m1" "tree_ctx m1 fs (rootp l)"
    "\<forall>a. a \<notin> ctx_addrs fs \<longrightarrow> nodes m1 a = nodes m a" "meta m1 = meta m" using set_owner_link_ok [OF ctx dis(1)] by blast
  have "on_heap (nodes m1) (Some p) l" using on_heap_cong [of l "nodes m1" "nodes m"] m1(3) dis(3) on by auto
  then obtain h where h: "adopt (nodes m1) (rootp l) (parent_of fs) = Some h" "on_heap h (parent_of fs) l"
    "\<forall>a. a \<notin> set (addrs l) \<longrightarrow> h a = nodes m1 a" using adopt_ok dis(2) by blast
  have "ctx_on_heap h fs (rootp l) = ctx_on_heap (nodes m1) fs (rootp l)" by (rule ctx_cong) (use h(3) dis(3) in blast)
  then have "tree_ctx (m1\<lparr>nodes := h\<rparr>) fs (rootp l)" using m1(2) by (simp add: tree_ctx_def)
  moreover have "owner_link m1 (owner_of fs) (dir_of fs) = Some (rootp l)"
    using m1(2) unfolding tree_ctx_def
  proof (cases fs)
    case (Cons f fs')
    with m1(2) show ?thesis by (cases f) (auto simp: tree_ctx_def owner_link_def get_link_def)
  qed (simp add: owner_link_def)
  then have "unlink_node m p = Some (m1\<lparr>nodes := h\<rparr>, owner_of fs, dir_of fs)"
    using on m1(1) h(1) unlink_owner [OF ctx dis(4)] by (auto simp: unlink_node_def)
  moreover have "inord (plug fs l) = lefts fs @ inord l @ inord Tip @ rights fs" by (simp add: inord_plug)
  ultimately show ?thesis unfolding unlinked_def using h(2,3) m1(3,4) b bal
    by (intro exI [of _ "m1\<lparr>nodes := h\<rparr>"] exI [of _ fs] exI [of _ l] exI [of _ "Nd l p k v b Tip"]) auto
qed

text \<open>The right child has no left child: it takes the place with the left subtree below it.\<close>

lemma unlink_right:
  assumes ctx: "tree_ctx m fs (Some p)" and on: "on_heap (nodes m) (parent_of fs) (Nd l p k v b (Nd Tip r rk rv rb u))"
    and dist: "distinct (addrs (plug fs (Nd l p k v b (Nd Tip r rk rv rb u))))"
    and bal: "balanced (plug fs (Nd l p k v b (Nd Tip r rk rv rb u)))"
  shows "unlinked m p fs l (Nd Tip r rk rv rb u)"
proof -
  have dis: "ctx_distinct fs" "distinct (addrs l)" "ctx_addrs fs \<inter> set (addrs l) = {}" "p \<notin> ctx_addrs fs" "r \<notin> ctx_addrs fs"
    "r \<notin> set (addrs l)" "r \<noteq> p" "p \<notin> set (addrs l)" "ctx_addrs fs \<inter> set (addrs u) = {}" "set (addrs l) \<inter> set (addrs u) = {}"
    "r \<notin> set (addrs u)" using dist by (auto simp: distinct_plug)
  let ?R = "Nd Tip r rk rv rb u" let ?n = "\<lambda>c q b. \<lparr>avl_link = two c (rootp u), avl_parent = q, node_key = rk, node_val = rv, avl_balance = b\<rparr>"
  let ?h = "(nodes m)(r \<mapsto> ?n (rootp l) (Some p) rb)"
  have "tree_ctx (m\<lparr>nodes := ?h\<rparr>) fs (Some p)" using ctx dis(5) by (simp add: tree_ctx_def)
  from set_owner_link_ok [OF this dis(1), of "Some r"] obtain m1 where
    m1: "set_owner_link (m\<lparr>nodes := ?h\<rparr>) (owner_of fs) (dir_of fs) (Some r) = Some m1" "tree_ctx m1 fs (Some r)"
      "\<And>a. a \<notin> ctx_addrs fs \<Longrightarrow> nodes m1 a = ?h a" "meta m1 = meta m" by auto
  have nr: "nodes m1 r = Some (?n (rootp l) (Some p) rb)" using m1(3) dis(5) by simp
  let ?h1 = "(nodes m1)(r \<mapsto> ?n (rootp l) (parent_of fs) rb)"
  have "nodes m1 a = nodes m a" if "a \<in> set (addrs l) \<union> set (addrs u)" for a
  proof -
    have "a \<notin> ctx_addrs fs" "a \<noteq> r" using that dis(3,6,9,11) by blast+
    then show ?thesis using m1(3) by simp
  qed
  then have keep: "on_heap (nodes m1) q l = on_heap (nodes m) q l" "on_heap (nodes m1) q u = on_heap (nodes m) q u" for q
    by (auto intro!: on_heap_cong)
  then have "on_heap ?h1 (Some p) l" using dis(6) on by simp
  then obtain h2 where h2: "adopt ?h1 (rootp l) (Some r) = Some h2" "on_heap h2 (Some r) l"
    "\<And>a. a \<notin> set (addrs l) \<Longrightarrow> h2 a = ?h1 a" using adopt_ok dis(2) by blast
  let ?h3 = "h2(r \<mapsto> ?n (rootp l) (parent_of fs) b)" let ?fs = "Frame True r rk rv b l # fs"
  have "unlink_node m p = Some (m1\<lparr>nodes := ?h3\<rparr>, owner_of ?fs, dir_of ?fs)"
    using on m1(1) nr h2(1) h2(3) [OF dis(6)] unlink_owner [OF ctx dis(4)]
    by (auto simp: unlink_node_def avl_op_defs)
  moreover have c: "ctx_on_heap ?h3 fs (Some r) = ctx_on_heap (nodes m1) fs (Some r)"
    using dis(5) by simp (rule ctx_cong, use h2(3) dis(3,5) in \<open>auto simp: disjoint_iff\<close>)
  then have "tree_ctx (m1\<lparr>nodes := ?h3\<rparr>) ?fs (rootp u)" using m1(2) h2(2) dis(6) by (simp add: tree_ctx_def)
  moreover have "on_heap ?h3 (Some r) u" 
    using on on_heap_cong [of u "h2" "?h1"] h2(3) dis(10,11) keep by auto
  moreover have "inord (plug ?fs u) = lefts fs @ inord l @ inord ?R @ rights fs" by (simp add: inord_plug)
  moreover have bR: "balanced ?R" "balanced (Nd l p k v b ?R)" using balanced_plugD [OF bal] by simp_all
  moreover have "balanced (plug ?fs ?R)" using balanced_plug_cong [OF bal, of "Nd l r rk rv b ?R"] bR by simp
  moreover have "nodes (m1\<lparr>nodes := ?h3\<rparr>) a = nodes m a" if "a \<notin> insert p (ctx_addrs fs \<union> set (addrs l) \<union> set (addrs ?R))" for a
    using that h2(3) [of a] m1(3) [of a] by auto
  ultimately show ?thesis unfolding unlinked_def using m1(4)
    by (intro exI [of _ "m1\<lparr>nodes := ?h3\<rparr>"] exI [of _ ?fs] exI [of _ u] exI [of _ ?R] conjI) auto
qed

text \<open>Otherwise the next node \<open>s\<close>, deeper in the right subtree, takes the place.\<close>

lemma on_heap_plug_seg:
  "on_heap h q (plug gs t) \<longleftrightarrow> seg h gs (rootp t) q \<and> on_heap h (if gs = [] then q else parent_of gs) t"
proof (induction gs arbitrary: t)
  case (Cons f gs)
  show ?case unfolding plug.simps Cons.IH by (cases gs) (auto simp: on_heap_fill)
qed simp

lemma rootp_plug_seg: "rootp (plug gs t) = seg_top gs (rootp t)"
  by (induction gs arbitrary: t) auto

lemma seg_top_in: "gs \<noteq> [] \<Longrightarrow> \<exists>a. seg_top gs c = Some a \<and> a \<in> ctx_addrs gs"
proof (induction gs arbitrary: c)
  case (Cons g gs)
  then show ?case by (cases g; cases gs) auto
qed simp

lemma lefts_False: "\<forall>g \<in> set gs. frame_dir g = False \<Longrightarrow> lefts gs = []"
proof (induction gs)
  case (Cons g gs)
  then show ?case by (cases g) auto
qed simp

lemma unlink_next:
  assumes ctx: "tree_ctx m fs (Some p)" and on: "on_heap (nodes m) (parent_of fs) (Nd l p k v b (plug gs (Nd Tip s sk sv sb u)))"
    and dist: "distinct (addrs (plug fs (Nd l p k v b (plug gs (Nd Tip s sk sv sb u)))))"
    and bal: "balanced (plug fs (Nd l p k v b (plug gs (Nd Tip s sk sv sb u))))"
    and gs: "gs = g # gs'" "\<forall>g \<in> set gs. frame_dir g = False"
    and left: "get_link (nodes m) rt False = Some (Some s0)" "leftmost (nodes m) False s0 = Some s" "seg_top gs (Some s) = Some rt"
  shows "unlinked m p fs l (plug gs (Nd Tip s sk sv sb u))"
proof -
  let ?S = "Nd Tip s sk sv sb u" let ?r = "node_of g"
  have dis: "ctx_distinct fs" "ctx_distinct gs" "distinct (addrs l)" "distinct (addrs u)" "p \<notin> ctx_addrs fs" "s \<notin> ctx_addrs fs"
    "p \<notin> ctx_addrs gs" "s \<notin> ctx_addrs gs" "p \<notin> set (addrs l)" "s \<notin> set (addrs l)" "p \<notin> set (addrs u)" "s \<notin> set (addrs u)" "s \<noteq> p"
    "ctx_addrs fs \<inter> ctx_addrs gs = {}" "ctx_addrs fs \<inter> set (addrs l) = {}" "ctx_addrs fs \<inter> set (addrs u) = {}"
    "ctx_addrs gs \<inter> set (addrs l) = {}" "ctx_addrs gs \<inter> set (addrs u) = {}" "set (addrs l) \<inter> set (addrs u) = {}"
    using dist by (auto simp: distinct_plug addrs_plug)
  have rin: "?r \<in> ctx_addrs gs" "rt \<in> ctx_addrs gs" using node_of_in_ctx [of g gs] seg_top_in [of gs "Some s"] gs(1) left(3) by auto
  have off: "a \<in> ctx_addrs fs \<Longrightarrow> a \<noteq> ?r \<and> a \<noteq> rt \<and> a \<noteq> s \<and> a \<notin> set (addrs l) \<and> a \<notin> set (addrs u)"
    "a \<in> ctx_addrs gs \<Longrightarrow> a \<noteq> s \<and> a \<notin> ctx_addrs fs \<and> a \<notin> set (addrs l) \<and> a \<notin> set (addrs u)"
    "a \<in> set (addrs l) \<Longrightarrow> a \<noteq> ?r \<and> a \<noteq> rt \<and> a \<noteq> s \<and> a \<notin> ctx_addrs fs \<and> a \<notin> set (addrs u)"
    "a \<in> set (addrs u) \<Longrightarrow> a \<noteq> ?r \<and> a \<noteq> rt \<and> a \<noteq> s \<and> a \<notin> ctx_addrs fs \<and> a \<notin> set (addrs l)" for a
    using dis rin by blast+
  have sne: "s \<noteq> rt" "s \<noteq> ?r" "p \<noteq> rt" "p \<noteq> ?r" using dis(7,8) rin by blast+
  have ne: "gs \<noteq> []" and par: "parent_of gs = Some ?r" using gs(1) by simp_all
  have np: "nodes m p = Some \<lparr>avl_link = two (rootp l) (Some rt), avl_parent = parent_of fs, node_key = k, node_val = v, avl_balance = b\<rparr>"
    and onl: "on_heap (nodes m) (Some p) l" and segs: "seg (nodes m) gs (Some s) (Some p)" and onu: "on_heap (nodes m) (Some s) u"
    and ns: "nodes m s = Some \<lparr>avl_link = two None (rootp u), avl_parent = Some ?r, node_key = sk, node_val = sv, avl_balance = sb\<rparr>"
    using on left(3) ne par by (simp_all add: on_heap_plug_seg rootp_plug_seg)
  obtain h1 where h1: "set_link (nodes m) ?r False (rootp u) = Some h1" "seg h1 gs (rootp u) (Some p)" "\<And>a. a \<noteq> ?r \<Longrightarrow> h1 a = nodes m a"
    using seg_set_hole [of "nodes m" g gs' "Some s" "Some p" "rootp u"] segs dis(2) gs by auto
  let ?n = "\<lambda>q b. \<lparr>avl_link = two (rootp l) (Some rt), avl_parent = q, node_key = sk, node_val = sv, avl_balance = b\<rparr>"
  let ?h2 = "h1(s \<mapsto> ?n (Some ?r) sb)"
  have "ctx_on_heap ?h2 fs (Some p) = ctx_on_heap (nodes m) fs (Some p)"
    by (rule ctx_cong) (use h1(3) in \<open>simp add: off(1)\<close>)
  then have "tree_ctx (m\<lparr>nodes := ?h2\<rparr>) fs (Some p)" using ctx by (simp add: tree_ctx_def)
  from set_owner_link_ok [OF this dis(1), of "Some s"] obtain m3 where
    m3: "set_owner_link (m\<lparr>nodes := ?h2\<rparr>) (owner_of fs) (dir_of fs) (Some s) = Some m3" "tree_ctx m3 fs (Some s)"
      "\<And>a. a \<notin> ctx_addrs fs \<Longrightarrow> nodes m3 a = ?h2 a" "meta m3 = meta m" by auto
  have "on_heap (nodes m3) (Some p) l = on_heap (nodes m) (Some p) l"
    by (rule on_heap_cong) (use m3(3) h1(3) in \<open>simp add: off(3)\<close>)
  then obtain h4 where h4: "adopt (nodes m3) (rootp l) (Some s) = Some h4" "on_heap h4 (Some s) l"
    "\<And>a. a \<notin> set (addrs l) \<Longrightarrow> h4 a = nodes m3 a" using adopt_ok dis(3) onl by blast
  have s4: "h4 s = Some (?n (Some ?r) sb)" using h4(3) m3(3) dis(6,10) by simp
  have "seg h4 gs (rootp u) (Some p) = seg h1 gs (rootp u) (Some p)"
    by (rule seg_cong) (use h4(3) m3(3) in \<open>simp add: off(2)\<close>)
  then obtain h5 where h5: "set_parent h4 rt (Some s) = Some h5" "seg h5 gs (rootp u) (Some s)" "\<And>a. a \<noteq> rt \<Longrightarrow> h5 a = h4 a"
    using seg_set_parent [of h4 gs "rootp u" "Some p" "Some s"] h1(2) gs(1) left(3) dis(2) by auto
  have s5: "h5 s = Some (?n (Some ?r) sb)" using h5(3) [OF sne(1)] s4 by simp
  let ?h6 = "h5(s \<mapsto> ?n (parent_of fs) sb)"
  have "on_heap ?h6 (Some s) u = on_heap (nodes m) (Some s) u"
    by (rule on_heap_cong) (use h5(3) h4(3) m3(3) h1(3) in \<open>simp add: off(4)\<close>)
  then obtain h7 where h7: "adopt ?h6 (rootp u) (Some ?r) = Some h7" "on_heap h7 (Some ?r) u"
    "\<And>a. a \<notin> set (addrs u) \<Longrightarrow> h7 a = ?h6 a" using adopt_ok dis(4) onu by blast
  let ?h8 = "h7(s \<mapsto> ?n (parent_of fs) b)" let ?fs = "gs @ Frame True s sk sv b l # fs"
  have link: "get_link ?h6 ?r False = Some (rootp u)"
    using h5(2) gs sne(2) by (cases g) (auto simp: get_link_def)
  have s7: "h7 s = Some (?n (parent_of fs) sb)" using h7(3) dis(12) by simp
  let ?hs = "h1(s \<mapsto> \<lparr>avl_link = two (rootp l) (rootp u), avl_parent = Some ?r, node_key = sk, node_val = sv, avl_balance = sb\<rparr>)"
  have w: "h1 p = nodes m p" "set_link h1 s False (rootp l) = Some ?hs" "set_link ?hs s True (Some rt) = Some ?h2"
    "get_link (nodes m3) s False = Some (rootp l)" "get_link h4 s True = Some (Some rt)"
    "set_parent h5 s (parent_of fs) = Some ?h6" "set_balance h7 s b = Some ?h8"
    using ns h1(3) [OF sne(2)] h1(3) [OF sne(4)] m3(3) [OF dis(6)] s4 s5 s7
    by (simp_all add: get_link_def set_link_def set_parent_def set_balance_def upd_node_def)
  have run: "unlink_node m p = Some (m3\<lparr>nodes := ?h8\<rparr>, owner_of ?fs, dir_of ?fs)"
    using unlink_owner [OF ctx dis(5)] gs by (simp add: unlink_node_def np ns left h1(1) w m3(1) h4(1) h5(1) link h7(1))
  have "ctx_on_heap ?h8 fs (Some s) = ctx_on_heap (nodes m3) fs (Some s)"
    by (rule ctx_cong) (simp add: off(1) h7(3) h5(3) h4(3))
  moreover have "on_heap ?h8 (Some s) l = on_heap h4 (Some s) l" by (rule on_heap_cong) (simp add: off(3) h7(3) h5(3))
  moreover have "seg ?h8 gs (rootp u) (Some s) = seg h5 gs (rootp u) (Some s)" by (rule seg_cong) (simp add: off(2) h7(3))
  moreover have "seg_top gs (rootp u) = Some rt" using gs(1) left(3) by simp
  ultimately have "tree_ctx (m3\<lparr>nodes := ?h8\<rparr>) ?fs (rootp u)"
    using m3(2) h4(2) h5(2) by (simp add: tree_ctx_def ctx_append root_of_append)
  moreover have "on_heap ?h8 (parent_of ?fs) u" using h7(2) dis(12) par gs(1) by simp
  moreover have "inord (plug ?fs u) = lefts fs @ inord l @ inord (plug gs ?S) @ rights fs"
    using lefts_False [OF gs(2)] by (simp add: inord_plug)
  moreover have bR: "balanced (Nd l p k v b (plug gs ?S))" by (rule balanced_plugD [OF bal])
  then have "balanced (plug ?fs ?S)" using balanced_plug_cong [OF bal, of "Nd l s sk sv b (plug gs ?S)"] by simp
  moreover have "balanced u" "Suc (ht u) = ht ?S" using bR balanced_plugD [of gs ?S] by simp_all
  moreover have "nodes (m3\<lparr>nodes := ?h8\<rparr>) a = nodes m a"
    if "a \<notin> insert p (ctx_addrs fs \<union> set (addrs l) \<union> set (addrs (plug gs ?S)))" for a
  proof -
    have "a \<notin> ctx_addrs fs" "a \<notin> set (addrs l)" "a \<notin> set (addrs u)" "a \<noteq> ?r" "a \<noteq> rt" "a \<noteq> s" using that rin by (auto simp: addrs_plug)
    then show ?thesis using h7(3) h5(3) h4(3) m3(3) h1(3) by simp
  qed
  ultimately show ?thesis unfolding unlinked_def using m3(4) run
    by (intro exI [of _ "m3\<lparr>nodes := ?h8\<rparr>"] exI [of _ ?fs] exI [of _ u] exI [of _ ?S] conjI) auto
qed

lemma unlink_node_ok:
  assumes ctx: "tree_ctx m fs (Some p)" and on: "on_heap (nodes m) (parent_of fs) (Nd l p k v b r)"
    and dist: "distinct (addrs (plug fs (Nd l p k v b r)))" and bal: "balanced (plug fs (Nd l p k v b r))"
  shows "unlinked m p fs l r"
proof (cases r)
  case Tip
  with assms unlink_left show ?thesis by blast
next
  case (Nd rl ra rk rv rb rr)
  show ?thesis
  proof (cases rl)
    case Tip
    with Nd assms unlink_right show ?thesis by blast
  next
    case (Nd x s0 x1 x2 x3 x4)
    note rl = this
    have onr: "on_heap (nodes m) (Some p) r" using on by simp
    from leftmost_ok [OF onr, of False] obtain gs s sk sv sb u where
      *: "r = plug gs (Nd Tip s sk sv sb u)" "\<forall>g \<in> set gs. frame_dir g = False" "leftmost (nodes m) False ra = Some s"
      using \<open>r = Nd rl ra rk rv rb rr\<close> by auto
    have na: "nodes m ra = Some \<lparr>avl_link = two (Some s0) (rootp rr), avl_parent = Some p, node_key = rk, node_val = rv, avl_balance = rb\<rparr>"
      using onr rl \<open>r = Nd rl ra rk rv rb rr\<close> by simp
    have "leftmost (nodes m) False s0 = Some s" using *(3) na by (subst (asm) leftmost.simps) simp
    moreover have "get_link (nodes m) ra False = Some (Some s0)" using na by (simp add: get_link_def)
    moreover have "seg_top gs (Some s) = Some ra" using rootp_plug_seg [of gs "Nd Tip s sk sv sb u"] *(1) \<open>r = Nd rl ra rk rv rb rr\<close> by (metis rootp.simps(2))
    moreover obtain g gs' where "gs = g # gs'" using *(1) rl \<open>r = Nd rl ra rk rv rb rr\<close> by (cases gs) auto
    ultimately show ?thesis using unlink_next assms *(1,2) by blast
  qed
qed

subsection \<open>Deletion as a whole\<close>

lemma delete_node_ok:
  assumes m: "is_map m t" and t: "t = plug fs (Nd l p k v b r)"
  shows "\<exists>m' t'. delete_node m p = Some (m', v) \<and> is_map m' t' \<and> inord t' = lefts fs @ inord l @ inord r @ rights fs \<and>
     no_duplicate m' = no_duplicate m"
proof -
  note D = is_mapD [OF m, unfolded t]
  have on: "ctx_on_heap (nodes m) fs (Some p)" "on_heap (nodes m) (parent_of fs) (Nd l p k v b r)" using D(1) by (simp_all add: on_heap_plug)
  have "tree_ctx m fs (Some p)" using on(1) D(2) by (simp add: tree_ctx_def rootp_plug)
  from unlink_node_ok [OF this on(2) D(3,5)] obtain m1 fs1 u t0 where
    u: "unlink_node m p = Some (m1, owner_of fs1, dir_of fs1)" "tree_ctx m1 fs1 (rootp u)" "on_heap (nodes m1) (parent_of fs1) u"
      "inord (plug fs1 u) = lefts fs @ inord l @ inord r @ rights fs" "balanced (plug fs1 t0)" "balanced u" "Suc (ht u) = ht t0"
      "\<And>a. a \<notin> insert p (ctx_addrs fs \<union> set (addrs l) \<union> set (addrs r)) \<Longrightarrow> nodes m1 a = nodes m a" "meta m1 = meta m"
    unfolding unlinked_def by blast
  have all: "inord t = lefts fs @ inord l @ (p, k, v) # inord r @ rights fs" unfolding t by (simp add: inord_plug)
  have ad: "addrs (plug fs1 u) = map fst (lefts fs @ inord l @ inord r @ rights fs)" using u(4) by (simp only: addrs_inord)
  have dist: "distinct (addrs (plug fs1 u))" and p: "p \<notin> set (addrs (plug fs1 u))"
    and dom: "dom (nodes m) = insert p (set (addrs (plug fs1 u)))"
    using is_mapD(3,4) [OF m] unfolding ad addrs_inord [of t] all by auto
  let ?m = "m1\<lparr>nodes := (nodes m1)(p := None)\<rparr>"
  have pc: "p \<notin> ctx_addrs fs1" "p \<notin> set (addrs u)" using p by (simp_all add: addrs_plug)
  have "tree_ctx ?m fs1 (rootp u)" "on_heap (nodes ?m) (parent_of fs1) u" using u(2,3) pc by (simp_all add: tree_ctx_def)
  with delete_loop_ok [OF u(5)] u(6,7) dist have "shrunk ?m fs1 u (delete_loop ?m (owner_of fs1) (dir_of fs1))"
    by (simp add: loop_ok_def)
  then obtain m2 t2 where m2: "delete_loop ?m (owner_of fs1) (dir_of fs1) = Some m2" "on_heap (nodes m2) None t2" "avl_root m2 = rootp t2"
    "balanced t2" "inord t2 = inord (plug fs1 u)" "\<And>a. a \<notin> set (addrs (plug fs1 u)) \<Longrightarrow> nodes m2 a = nodes ?m a" "meta m2 = meta ?m"
    unfolding shrunk_def by blast
  have ad2: "addrs t2 = addrs (plug fs1 u)" using m2(5) by (simp only: addrs_inord)
  have "nodes m2 a = None" if "a \<notin> set (addrs (plug fs1 u))" for a
  proof (cases "a = p")
    case False
    have "set (addrs (plug fs (Nd l p k v b r))) = insert p (ctx_addrs fs \<union> set (addrs l) \<union> set (addrs r))" by (auto simp: addrs_plug)
    then have "nodes m1 a = nodes m a" using u(8) that dom D(4) False by (metis insert_iff)
    moreover have "nodes m a = None" using dom that False by auto
    ultimately show ?thesis using m2(6) [OF that] False by simp
  qed (use m2(6) p in simp)
  then have "dom (nodes m2) = set (addrs t2)" using on_heap_dom [OF m2(2)] unfolding ad2 by (fastforce simp: dom_def)
  moreover have "ordered (inord t2)" using D(6) all unfolding t m2(5) u(4) by (auto simp: sorted_wrt_append)
  moreover have "avl_count m2 = avl_count m" using m2(7) u(9) by (simp add: meta_def)
  then have "avl_count m2 - 1 = of_nat (length (inord t2))" using D(7) all unfolding t m2(5) u(4) by simp
  ultimately have "is_map (m2\<lparr>avl_count := avl_count m2 - 1\<rparr>) t2"
    using m2(2-4) dist ad2 by (simp add: is_map_def)
  moreover have "delete_node m p = Some (m2\<lparr>avl_count := avl_count m2 - 1\<rparr>, v)"
    using on(2) u(1) m2(1) by (simp add: delete_node_def)
  moreover have "no_duplicate m2 = no_duplicate m" using m2(7) u(9) by (simp add: meta_def)
  ultimately show ?thesis using m2(5) u(4)
    by (intro exI [of _ "m2\<lparr>avl_count := avl_count m2 - 1\<rparr>"] exI [of _ t2]) simp
qed

lemma ordered_split:
  assumes "ordered (xs @ e # ys)"
  shows "\<forall>x \<in> set xs. ekey x < ekey e" "\<forall>y \<in> set ys. ekey e < ekey y"
  using assms by (auto simp: sorted_wrt_append)

lemma remove_loop_ok:
  assumes "on_heap h q t" "t \<noteq> Tip"
  shows "remove_loop h k (the (rootp t)) = Some (rootp (snd (descend k t fs)))"
  using assms
proof (induction t arbitrary: q fs)
  case (Nd l a k' v b r)
  have "r \<noteq> Tip \<Longrightarrow> remove_loop h k (the (rootp r)) = Some (rootp (snd (descend k r (Frame True a k' v b l # fs))))"
    "l \<noteq> Tip \<Longrightarrow> remove_loop h k (the (rootp l)) = Some (rootp (snd (descend k l (Frame False a k' v b r # fs))))"
    using Nd by auto
  then show ?case using Nd.prems by (subst remove_loop.simps) (cases l; cases r; simp add: str_cmp_sign)
qed simp

lemma map_remove_ok:
  assumes m: "is_map m t"
  shows "case List.find (\<lambda>e. ekey e = key_rank k) (inord t) of
      None \<Rightarrow> map_remove m k = Some (m, None)
    | Some (a, k', v) \<Rightarrow> \<exists>m' t'. map_remove m k = Some (m', v) \<and> is_map m' t' \<and> no_duplicate m' = no_duplicate m \<and>
         inord t' = filter (\<lambda>e. ekey e \<noteq> key_rank k) (inord t)"
proof (cases t)
  case Tip
  then show ?thesis using is_mapD(2) [OF m] by (simp add: map_remove_def)
next
  case (Nd tl ta tk tv tb tr)
  note D = is_mapD [OF m]
  obtain fs t' where d: "descend k t [] = (fs, t')" by fastforce
  have run: "remove_loop (nodes m) k ta = Some (rootp t')" using remove_loop_ok [OF D(1), of k "[]"] d Nd by simp
  show ?thesis
  proof (cases t')
    case Tip
    with run D(2) Nd descend_find(1) [OF D(6) d] show ?thesis by (simp add: map_remove_def)
  next
    case (Nd l p k' v b r)
    have t: "t = plug fs (Nd l p k' v b r)" using descend_plug [OF d] Nd by simp
    have k: "key_rank k' = key_rank k" using descend_found d Nd by blast
    have all: "inord t = lefts fs @ inord l @ (p, k', v) # inord r @ rights fs" unfolding t by (simp add: inord_plug)
    have "filter (\<lambda>e. ekey e \<noteq> key_rank k) (inord t) = lefts fs @ inord l @ inord r @ rights fs"
    proof -
      have "\<forall>e \<in> set (lefts fs @ inord l). ekey e \<noteq> key_rank k" "\<forall>e \<in> set (inord r @ rights fs). ekey e \<noteq> key_rank k"
        using ordered_split [of "lefts fs @ inord l" "(p, k', v)" "inord r @ rights fs"] D(6) k unfolding all
        by (auto simp del: set_append)
      then show ?thesis unfolding all using k by (simp add: filter_id_conv)
    qed
    with delete_node_ok [OF m t] run D(2) \<open>t = Nd tl ta tk tv tb tr\<close> Nd descend_find(1) [OF D(6) d]
    show ?thesis by (auto simp: map_remove_def)
  qed
qed

end
