(* ===== verification/Avl_Walk.thy ===== *)
theory Avl_Walk
  imports Avl_Delete
begin

text \<open>
  Iterators, visits of all entries, destruction, and the depth of the tree.
\<close>

subsection \<open>Iterators\<close>

lemma in_context: "a \<in> set (addrs t) \<Longrightarrow> \<exists>fs l k v b r. t = plug fs (Nd l a k v b r)"
proof (induction t)
  case (Nd l c k v b r)
  show ?case
  proof (cases "a = c")
    case True
    then show ?thesis by (intro exI [of _ "[]"]) auto
  next
    case False
    with Nd.prems consider "a \<in> set (addrs l)" | "a \<in> set (addrs r)" by auto
    then show ?thesis
    proof cases
      case 1
      with Nd.IH(1) obtain fs l' k' v' b' r' where "l = plug fs (Nd l' a k' v' b' r')" by blast
      then have "Nd l c k v b r = plug (fs @ [Frame False c k v b r]) (Nd l' a k' v' b' r')" by simp
      then show ?thesis by blast
    next
      case 2
      with Nd.IH(2) obtain fs l' k' v' b' r' where "r = plug fs (Nd l' a k' v' b' r')" by blast
      then have "Nd l c k v b r = plug (fs @ [Frame True c k v b l]) (Nd l' a k' v' b' r')" by simp
      then show ?thesis by blast
    qed
  qed
qed simp

lemma rights_True: "\<forall>g \<in> set gs. frame_dir g = True \<Longrightarrow> rights gs = []"
proof (induction gs)
  case (Cons g gs)
  then show ?case by (cases g) auto
qed simp

text \<open>The first entry of a subtree on side \<open>False\<close>, the last one on side \<open>True\<close>.\<close>

definition edge :: "bool \<Rightarrow> (addr \<times> str \<times> addr option) list \<Rightarrow> addr option" where
  "edge d xs = (if xs = [] then None else Some (fst (if d then last xs else hd xs)))"

lemma leftmost_edge:
  assumes "on_heap h q t" "t \<noteq> Tip"
  shows "leftmost h d (the (rootp t)) = edge d (inord t)"
proof -
  obtain gs s k v b u where *: "t = plug gs (fill (Frame d s k v b u) Tip)" "\<forall>g \<in> set gs. frame_dir g = d"
    "leftmost h d (the (rootp t)) = Some s" using leftmost_ok [OF assms] by blast
  show ?thesis using * lefts_False [of gs] rights_True [of gs] by (cases d) (simp_all add: inord_plug edge_def)
qed

lemma climb_ok:
  assumes "ctx_on_heap h fs (Some a)" "ctx_distinct fs" "a \<notin> ctx_addrs fs"
  shows "climb h d a (parent_of fs) = Some (edge (\<not> d) (if d then rights fs else lefts fs))"
  using assms
proof (induction fs arbitrary: a)
  case Nil
  show ?case by (subst climb.simps) (simp add: edge_def)
next
  case (Cons f fs)
  obtain fd c k v b s where f: "f = Frame fd c k v b s" by (cases f)
  obtain n where n: "h c = Some n" "avl_parent n = parent_of fs" "avl_link n fd = Some a" "avl_link n (\<not> fd) = rootp s"
    using Cons.prems(1) f by (cases fd) auto
  have "rootp s \<noteq> Some a" using Cons.prems(3) f rootp_in by auto
  then show ?case
    using Cons.IH [of c] Cons.prems f n
    by (subst climb.simps) (cases fd; cases d; simp add: edge_def)
qed

lemma iterator_move_ok:
  assumes m: "is_map m t" and t: "t = plug fs (Nd l a k v b r)"
  shows "iterator_move m True (Some a) = Some (0, edge False (inord r @ rights fs))"
    "iterator_move m False (Some a) = Some (0, edge True (lefts fs @ inord l))"
proof -
  note D = is_mapD [OF m, unfolded t]
  have c: "ctx_on_heap (nodes m) fs (Some a)" "ctx_distinct fs" "a \<notin> ctx_addrs fs" and on: "on_heap (nodes m) (parent_of fs) (Nd l a k v b r)"
    using D(1,3) by (auto simp: on_heap_plug distinct_plug)
  have ne: "x \<noteq> Tip \<Longrightarrow> inord x \<noteq> [] \<and> rootp x = Some (the (rootp x))" for x by (cases x) auto
  show "iterator_move m True (Some a) = Some (0, edge False (inord r @ rights fs))"
    using climb_ok [OF c, of True] on leftmost_edge [of "nodes m" "Some a" r False]
    by (cases r) (auto simp: iterator_move_def edge_def hd_append)
  show "iterator_move m False (Some a) = Some (0, edge True (lefts fs @ inord l))"
    using climb_ok [OF c, of False] on leftmost_edge [of "nodes m" "Some a" l True]
    by (cases l) (auto simp: iterator_move_def edge_def)
qed

subsection \<open>Visits\<close>

fun visit :: "(str \<Rightarrow> addr option \<Rightarrow> 's \<Rightarrow> int \<times> 's) \<Rightarrow> avl \<Rightarrow> int \<times> 's \<Rightarrow> int \<times> 's" where
  "visit f Tip st = st"
| "visit f (Nd l a k v b r) st =
     (if fst st \<noteq> 0 then st
      else let st = visit f l st; (c, s) = f k v (snd st) in visit f r (fst st OR c, s))"

lemma visit_stop: "c \<noteq> 0 \<Longrightarrow> visit f t (c, s) = (c, s)"
  by (cases t) simp_all

lemma process_all_ok:
  assumes "on_heap h q t" "t \<noteq> Tip"
  shows "process_all h (the (rootp t)) f st = Some (visit f t st)"
  using assms
proof (induction t arbitrary: q st)
  case (Nd l a k v b r)
  have l: "l \<noteq> Tip \<Longrightarrow> process_all h (the (rootp l)) f st = Some (visit f l st)" for st using Nd.IH(1) [of "Some a" st] Nd.prems by simp
  have r: "r \<noteq> Tip \<Longrightarrow> process_all h (the (rootp r)) f st = Some (visit f r st)" for st using Nd.IH(2) [of "Some a" st] Nd.prems by simp
  show ?case using l r Nd.prems
    by (subst process_all.simps) (cases l; cases r; simp add: Let_def split: prod.splits)
qed simp

lemma map_for_each_ok: "is_map m t \<Longrightarrow> map_for_each m f s = Some (visit f t (0, s))"
  using process_all_ok [of "nodes m" None t f "(0, s)"] is_mapD(1,2) [of m t] by (cases t) (simp_all add: map_for_each_def)

lemma visit_all:
  assumes "\<And>k v s. fst (f k v s) = 0"
  shows "visit f t (0, s) = (0, fold (\<lambda>(a, k, v) s. snd (f k v s)) (inord t) s)"
proof (induction t arbitrary: s)
  case (Nd l a k v b r)
  obtain x where "f k v (fold (\<lambda>(a, k, v) s. snd (f k v s)) (inord l) s) = (0, x)" using assms by (metis surjective_pairing)
  with Nd show ?case by simp
qed simp

fun spine :: "avl \<Rightarrow> nat" where
  "spine Tip = 0"
| "spine (Nd l a k v b r) = Suc (spine l)"

lemma visit_fail: "t \<noteq> Tip \<Longrightarrow> visit (\<lambda>k v n. (1, Suc n)) t (0, n) = (1, n + spine t)"
proof (induction t arbitrary: n)
  case (Nd l a k v b r)
  have "visit (\<lambda>k v n. (1, Suc n)) r (1, n) = (1, n)" for n by (simp add: visit_stop)
  with Nd show ?case by (cases l) simp_all
qed simp

subsection \<open>Destruction\<close>

fun links_on :: "avl_heap \<Rightarrow> avl \<Rightarrow> bool" where
  "links_on h Tip \<longleftrightarrow> True"
| "links_on h (Nd l a k v b r) \<longleftrightarrow>
     (\<exists>n. h a = Some n \<and> avl_link n = two (rootp l) (rootp r) \<and> node_val n = v) \<and> links_on h l \<and> links_on h r"

lemma on_heap_links: "on_heap h p t \<Longrightarrow> links_on h t"
  by (induction t arbitrary: p) auto

lemma links_on_upd [simp]: "a \<notin> set (addrs t) \<Longrightarrow> links_on (h(a := n)) t \<longleftrightarrow> links_on h t"
  by (induction t) auto

definition vals :: "bool \<Rightarrow> (addr \<times> str \<times> addr option) list \<Rightarrow> addr list" where
  "vals destroy xs = (if destroy then List.map_filter (\<lambda>(a, k, v). v) xs else [])"

fun right_len :: "avl \<Rightarrow> nat" where
  "right_len Tip = 0"
| "right_len (Nd l a k v b r) = Suc (right_len r)"

lemma right_len_le: "right_len t \<le> length (inord t)"
  by (induction t) auto

lemma destroy_loop_ok:
  assumes "links_on h t" "distinct (addrs t)"
  shows "\<exists>h'. destroy_loop destroy h (rootp t) out = Some (h', out @ vals destroy (inord t)) \<and>
     (\<forall>a. h' a = (if a \<in> set (addrs t) then None else h a))"
  using assms
proof (induction "2 * length (inord t) - right_len t" arbitrary: t h out rule: less_induct)
  case less
  show ?case
  proof (cases t)
    case Tip
    then show ?thesis by (subst destroy_loop.simps) (auto simp: vals_def)
  next
    case (Nd l a k v b r)
    note t = this
    show ?thesis
    proof (cases l)
      case Tip
      obtain n where n: "h a = Some n" "avl_link n False = None" "avl_link n True = rootp r" "node_val n = v"
        using less.prems(1) t Tip by auto
      have "2 * length (inord r) - right_len r < 2 * length (inord t) - right_len t" using t Tip right_len_le [of r] by simp
      from less.hyps [OF this, of "h(a := None)" "case v of None \<Rightarrow> out | Some v \<Rightarrow> if destroy then out @ [v] else out"]
      obtain h' where h': "destroy_loop destroy (h(a := None)) (rootp r) (case v of None \<Rightarrow> out | Some v \<Rightarrow> if destroy then out @ [v] else out) =
          Some (h', (case v of None \<Rightarrow> out | Some v \<Rightarrow> if destroy then out @ [v] else out) @ vals destroy (inord r))"
        "\<forall>x. h' x = (if x \<in> set (addrs r) then None else (h(a := None)) x)" using less.prems t Tip by auto
      have "destroy_loop destroy h (rootp t) out = Some (h', out @ vals destroy (inord t))"
        using n h'(1) t Tip by (subst destroy_loop.simps) (simp add: vals_def List.map_filter_simps split: option.splits)
      then show ?thesis using h'(2) t Tip by auto
    next
      case (Nd ll q qk qv qb lr)
      let ?u = "Nd ll q qk qv qb (Nd lr a k v b r)"
      obtain na nq where n: "h a = Some na" "avl_link na = two (Some q) (rootp r)" "h q = Some nq" "avl_link nq = two (rootp ll) (rootp lr)"
        "node_val na = v" "node_val nq = qv" "a \<noteq> q" using less.prems t Nd by auto
      let ?h = "h(a \<mapsto> na\<lparr>avl_link := two (rootp lr) (rootp r)\<rparr>, q \<mapsto> nq\<lparr>avl_link := two (rootp ll) (Some a)\<rparr>)"
      have "2 * length (inord ?u) - right_len ?u < 2 * length (inord t) - right_len t" using t Nd right_len_le [of r] by simp
      moreover have "links_on ?h ?u" using less.prems t Nd n by auto
      moreover have "distinct (addrs ?u)" using less.prems t Nd by simp
      ultimately obtain h' where h': "destroy_loop destroy ?h (Some q) out = Some (h', out @ vals destroy (inord ?u))"
        "\<forall>x. h' x = (if x \<in> set (addrs ?u) then None else ?h x)" using less.hyps [of ?u ?h out] by auto
      have "destroy_loop destroy h (rootp t) out = Some (h', out @ vals destroy (inord t))"
        using n h'(1) t Nd by (subst destroy_loop.simps) (simp add: get_link_def set_link_def upd_node_def)
      then show ?thesis using h'(2) t Nd by (intro exI [of _ h']) auto
    qed
  qed
qed

end
