(* ===== verification/Avl_Laws.thy ===== *)
theory Avl_Laws
  imports Avl_Walk
begin

text \<open>
  What the map promises to its clients: an interface of lookup, insertion, update and removal
  over the sorted list of entries, its interpretation by the AVL tree, and the properties of the
  operations of map.c.
\<close>

subsection \<open>Entries\<close>

definition entry :: "(addr \<times> str \<times> addr option) list \<Rightarrow> str \<Rightarrow> (addr \<times> str \<times> addr option) option" where
  "entry xs k = List.find (\<lambda>e. ekey e = key_rank k) xs"

definition put_entry :: "(addr \<times> str \<times> addr option) list \<Rightarrow> addr \<Rightarrow> str \<Rightarrow> (addr \<times> str \<times> addr option) list" where
  "put_entry xs n k = filter (\<lambda>e. ekey e < key_rank k) xs @ (n, k, None) # filter (\<lambda>e. key_rank k < ekey e) xs"

definition drop_entry :: "(addr \<times> str \<times> addr option) list \<Rightarrow> str \<Rightarrow> (addr \<times> str \<times> addr option) list" where
  "drop_entry xs k = filter (\<lambda>e. ekey e \<noteq> key_rank k) xs"

definition set_entry :: "(addr \<times> str \<times> addr option) list \<Rightarrow> addr \<Rightarrow> addr option \<Rightarrow> (addr \<times> str \<times> addr option) list" where
  "set_entry xs a v = map (\<lambda>(b, k, w). (b, k, if b = a then v else w)) xs"

definition look :: "(addr \<times> str \<times> addr option) list \<Rightarrow> str \<Rightarrow> addr option option" where
  "look xs k = map_option (\<lambda>e. snd (snd e)) (entry xs k)"

lemma entry_append: "entry (xs @ ys) k = (case entry xs k of None \<Rightarrow> entry ys k | Some e \<Rightarrow> Some e)"
  unfolding entry_def by (induction xs) auto

lemma entry_Cons: "entry (e # xs) k = (if ekey e = key_rank k then Some e else entry xs k)"
  by (simp add: entry_def)

lemma entry_filter: "(\<And>e. ekey e = key_rank k \<Longrightarrow> P e) \<Longrightarrow> entry (filter P xs) k = entry xs k"
  unfolding entry_def by (induction xs) auto

lemma entry_None_iff: "entry xs k = None \<longleftrightarrow> (\<forall>e \<in> set xs. ekey e \<noteq> key_rank k)"
  unfolding entry_def find_None_iff by blast

lemma entry_Some_in: "entry xs k = Some e \<Longrightarrow> e \<in> set xs \<and> ekey e = key_rank k"
  by (auto simp: entry_def find_Some_iff)

lemma entry_put:
  assumes "entry xs k = None"
  shows "entry (put_entry xs n k) k' = (if key_rank k' = key_rank k then Some (n, k, None) else entry xs k')"
proof (cases "key_rank k' = key_rank k")
  case True
  then have "entry (filter (\<lambda>e. ekey e < key_rank k) xs) k' = None" unfolding entry_None_iff by auto
  with True show ?thesis by (simp add: put_entry_def entry_append entry_Cons)
next
  case False
  then consider "key_rank k' < key_rank k" | "key_rank k < key_rank k'" by (metis linorder_cases)
  then show ?thesis
  proof cases
    case 1
    then have "entry (filter (\<lambda>e. key_rank k < ekey e) xs) k' = None" unfolding entry_None_iff by auto
    moreover have "entry (filter (\<lambda>e. ekey e < key_rank k) xs) k' = entry xs k'" using 1 by (intro entry_filter) simp
    ultimately show ?thesis using False by (simp add: put_entry_def entry_append entry_Cons split: option.splits)
  next
    case 2
    then have "entry (filter (\<lambda>e. ekey e < key_rank k) xs) k' = None" unfolding entry_None_iff by auto
    moreover have "entry (filter (\<lambda>e. key_rank k < ekey e) xs) k' = entry xs k'" using 2 by (intro entry_filter) simp
    ultimately show ?thesis using False by (simp add: put_entry_def entry_append entry_Cons)
  qed
qed

lemma entry_drop: "entry (drop_entry xs k) k' = (if key_rank k' = key_rank k then None else entry xs k')"
  unfolding drop_entry_def using entry_None_iff [of "filter (\<lambda>e. ekey e \<noteq> key_rank k) xs" k'] by (auto intro: entry_filter)

lemma entry_set:
  "entry (set_entry xs a v) k = map_option (\<lambda>(b, k, w). (b, k, if b = a then v else w)) (entry xs k)"
  unfolding entry_def set_entry_def by (induction xs) auto

lemma set_entry_simps [simp]:
  "map fst (set_entry xs a v) = map fst xs" "map ekey (set_entry xs a v) = map ekey xs" "length (set_entry xs a v) = length xs"
  by (auto simp: set_entry_def)

subsection \<open>The interface of a map\<close>

text \<open>
  \<open>rep m xs\<close>: the map holds the entries \<open>xs\<close> (address of the node, key, value) in the order of the
  keys. \<open>load\<close> and \<open>store\<close> read and write a value through the pointer that a lookup returned.
\<close>

locale ordered_map =
  fixes rep :: "'m \<Rightarrow> (addr \<times> str \<times> addr option) list \<Rightarrow> bool"
    and used :: "'m \<Rightarrow> addr set"
    and find :: "'m \<Rightarrow> str \<Rightarrow> addr option option"
    and get :: "'m \<Rightarrow> str \<Rightarrow> (addr \<times> avl_node) option \<Rightarrow> bool \<Rightarrow> ('m \<times> addr option) option"
    and remove :: "'m \<Rightarrow> str \<Rightarrow> ('m \<times> addr option) option"
    and load :: "'m \<Rightarrow> addr \<Rightarrow> addr option option"
    and store :: "'m \<Rightarrow> addr \<Rightarrow> addr option \<Rightarrow> 'm option"
    and copies :: "'m \<Rightarrow> bool"
  assumes find_law: "rep m xs \<Longrightarrow> find m k = Some (map_option fst (entry xs k))"
    and get_old: "rep m xs \<Longrightarrow> entry xs k = Some (a, k', v) \<Longrightarrow> get m k mem copied = Some (m, Some a)"
    and get_new: "rep m xs \<Longrightarrow> entry xs k = None \<Longrightarrow> n \<notin> used m \<Longrightarrow> copied \<or> \<not> copies m \<Longrightarrow>
        \<exists>m'. get m k (Some (n, raw)) copied = Some (m', Some n) \<and> rep m' (put_entry xs n k) \<and> copies m' = copies m"
    and remove_law: "rep m xs \<Longrightarrow> \<exists>m'. remove m k = Some (m', Option.bind (entry xs k) (\<lambda>e. snd (snd e))) \<and>
        rep m' (drop_entry xs k) \<and> copies m' = copies m"
    and load_law: "rep m xs \<Longrightarrow> (a, k, v) \<in> set xs \<Longrightarrow> load m a = Some v"
    and store_law: "rep m xs \<Longrightarrow> (a, k, v) \<in> set xs \<Longrightarrow> \<exists>m'. store m a w = Some m' \<and> rep m' (set_entry xs a w) \<and> copies m' = copies m"
    and used_law: "rep m xs \<Longrightarrow> used m = fst ` set xs \<and> distinct (map fst xs)"
begin

text \<open>\<open>*map_get(m, k) = w\<close>, the way clients insert or replace a value.\<close>

lemma get_store:
  assumes "rep m xs" "n \<notin> used m" "copied \<or> \<not> copies m"
  shows "\<exists>m1 a m2 ys. get m k (Some (n, raw)) copied = Some (m1, Some a) \<and> store m1 a w = Some m2 \<and> rep m2 ys \<and> copies m2 = copies m \<and>
     used m2 \<subseteq> insert n (used m) \<and> load m1 a = Some (Option.bind (entry xs k) (\<lambda>e. snd (snd e))) \<and>
     (\<forall>k'. look ys k' = (if key_rank k' = key_rank k then Some w else look xs k'))"
proof (cases "entry xs k")
  case None
  obtain m1 where m1: "get m k (Some (n, raw)) copied = Some (m1, Some n)" "rep m1 (put_entry xs n k)" "copies m1 = copies m"
    using get_new [OF assms(1) None assms(2,3)] by blast
  have "(n, k, None) \<in> set (put_entry xs n k)" by (simp add: put_entry_def)
  from store_law [OF m1(2) this] obtain m2 where m2: "store m1 n w = Some m2" "rep m2 (set_entry (put_entry xs n k) n w)" "copies m2 = copies m1"
    by blast
  have n: "entry xs k' = Some e \<Longrightarrow> fst e \<noteq> n" for k' e using assms(2) used_law [OF assms(1)] entry_Some_in by fastforce
  have "look (set_entry (put_entry xs n k) n w) k' = (if key_rank k' = key_rank k then Some w else look xs k')" for k'
    using n [of k'] by (cases "entry xs k'") (auto simp: look_def entry_set entry_put [OF None])
  moreover have "load m1 n = Some None" using load_law [OF m1(2)] \<open>(n, k, None) \<in> set (put_entry xs n k)\<close> by blast
  moreover have "used m2 \<subseteq> insert n (used m)" unfolding used_law [OF m2(2), THEN conjunct1] used_law [OF assms(1), THEN conjunct1]
    by (force simp: set_entry_def put_entry_def)
  ultimately show ?thesis using m1 m2 None
    by (intro exI [of _ m1] exI [of _ n] exI [of _ m2] exI [of _ "set_entry (put_entry xs n k) n w"]) simp
next
  case (Some e)
  obtain a k0 v where e: "e = (a, k0, v)" by (cases e)
  have in_xs: "(a, k0, v) \<in> set xs" using entry_Some_in Some e by blast
  have m1: "get m k (Some (n, raw)) copied = Some (m, Some a)" using get_old [OF assms(1)] Some e by blast
  obtain m2 where m2: "store m a w = Some m2" "rep m2 (set_entry xs a w)" "copies m2 = copies m" using store_law [OF assms(1) in_xs] by blast
  have "look (set_entry xs a w) k' = (if key_rank k' = key_rank k then Some w else look xs k')" for k'
  proof (cases "entry xs k'")
    case None
    moreover have "key_rank k' = key_rank k \<Longrightarrow> entry xs k' = entry xs k" by (simp add: entry_def)
    ultimately show ?thesis using Some by (auto simp: look_def entry_set)
  next
    case (Some e')
    obtain b k1 v1 where e': "e' = (b, k1, v1)" by (cases e')
    have in': "(b, k1, v1) \<in> set xs" "key_rank k1 = key_rank k'" using entry_Some_in [OF Some] e' by auto
    have "b = a \<Longrightarrow> (b, k1, v1) = (a, k0, v)" using used_law [OF assms(1)] in'(1) in_xs by (metis eq_key_imp_eq_value)
    moreover have "key_rank k0 = key_rank k" using entry_Some_in [OF \<open>entry xs k = Some e\<close>] e by simp
    moreover have "key_rank k' = key_rank k \<Longrightarrow> entry xs k' = entry xs k" by (simp add: entry_def)
    ultimately show ?thesis using Some e' in'(2) \<open>entry xs k = Some e\<close> e by (auto simp: look_def entry_set)
  qed
  moreover have "used m2 \<subseteq> insert n (used m)" unfolding used_law [OF m2(2), THEN conjunct1] used_law [OF assms(1), THEN conjunct1]
    by (force simp: set_entry_def)
  ultimately show ?thesis using m1 m2 load_law [OF assms(1) in_xs] Some e
    by (intro exI [of _ m] exI [of _ a] exI [of _ m2] exI [of _ "set_entry xs a w"]) simp
qed

end

subsection \<open>The AVL tree implements it\<close>

fun set_val :: "avl \<Rightarrow> addr \<Rightarrow> addr option \<Rightarrow> avl" where
  "set_val Tip a w = Tip"
| "set_val (Nd l c k v b r) a w = Nd (set_val l a w) c k (if c = a then w else v) b (set_val r a w)"

lemma set_val_simps [simp]:
  "rootp (set_val t a w) = rootp t" "addrs (set_val t a w) = addrs t" "ht (set_val t a w) = ht t"
  "inord (set_val t a w) = set_entry (inord t) a w"
proof -
  show "rootp (set_val t a w) = rootp t" by (cases t) auto
  show "addrs (set_val t a w) = addrs t" "ht (set_val t a w) = ht t" "inord (set_val t a w) = set_entry (inord t) a w"
    by (induction t) (auto simp: set_entry_def)
qed

lemma set_val_balanced [simp]: "balanced (set_val t a w) = balanced t"
  by (induction t) auto

lemma set_val_other: "a \<notin> set (addrs t) \<Longrightarrow> set_val t a w = t"
  by (induction t) auto

lemma on_heap_set_val:
  "on_heap h p t \<Longrightarrow> distinct (addrs t) \<Longrightarrow> h a = Some n \<Longrightarrow> on_heap (h(a \<mapsto> n\<lparr>node_val := w\<rparr>)) p (set_val t a w)"
proof (induction t arbitrary: p)
  case (Nd l c k v b r)
  show ?case
  proof (cases "c = a")
    case True
    with Nd.prems have "a \<notin> set (addrs l)" "a \<notin> set (addrs r)" by auto
    with Nd.prems True show ?thesis by (auto simp: set_val_other simp del: fun_upd_apply simp add: fun_upd_same)
  next
    case False
    with Nd show ?thesis by simp
  qed
qed simp

lemma store_val_ok:
  assumes "is_map m t" "a \<in> set (addrs t)"
  shows "\<exists>m'. store_val m a w = Some m' \<and> is_map m' (set_val t a w) \<and> no_duplicate m' = no_duplicate m"
proof -
  note D = is_mapD [OF assms(1)]
  obtain n where n: "nodes m a = Some n" using D(4) assms(2) by blast
  have "is_map (m\<lparr>nodes := (nodes m)(a \<mapsto> n\<lparr>node_val := w\<rparr>)\<rparr>) (set_val t a w)"
    using D on_heap_set_val [OF D(1,3) n] n by (auto simp: is_map_def)
  with n show ?thesis by (simp add: store_val_def upd_node_def)
qed

lemma on_heap_val: "on_heap h p t \<Longrightarrow> (a, k, v) \<in> set (inord t) \<Longrightarrow> \<exists>n. h a = Some n \<and> node_val n = v \<and> node_key n = k"
  by (induction t arbitrary: p) fastforce+

interpretation avl: ordered_map avl_rep "\<lambda>m. dom (nodes m)" map_find map_get map_remove load_val store_val "\<lambda>m. \<not> no_duplicate m"
proof
  fix m xs k a k' v n raw copied mem w
  assume "avl_rep m xs"
  then obtain t where m: "is_map m t" and xs: "inord t = xs" by (auto simp: avl_rep_def)
  note D = is_mapD [OF m]
  show "map_find m k = Some (map_option fst (entry xs k))" using map_find_ok [OF m] xs by (simp add: entry_def)
  show "entry xs k = Some (a, k', v) \<Longrightarrow> map_get m k mem copied = Some (m, Some a)"
    using map_get_found [OF m] xs by (simp add: entry_def)
  show "entry xs k = None \<Longrightarrow> n \<notin> dom (nodes m) \<Longrightarrow> copied \<or> \<not> \<not> no_duplicate m \<Longrightarrow>
     \<exists>m'. map_get m k (Some (n, raw)) copied = Some (m', Some n) \<and> avl_rep m' (put_entry xs n k) \<and> (\<not> no_duplicate m') = (\<not> no_duplicate m)"
    using map_get_new [OF m, of k n copied raw] xs unfolding avl_rep_def entry_def put_entry_def by auto
  show "\<exists>m'. map_remove m k = Some (m', Option.bind (entry xs k) (\<lambda>e. snd (snd e))) \<and> avl_rep m' (drop_entry xs k) \<and>
     (\<not> no_duplicate m') = (\<not> no_duplicate m)"
  proof (cases "entry xs k")
    case None
    then have "drop_entry xs k = xs" unfolding entry_None_iff drop_entry_def by (simp add: filter_id_conv)
    then show ?thesis using None map_remove_ok [OF m, of k] m xs by (auto simp: entry_def avl_rep_def)
  next
    case (Some e)
    then show ?thesis using map_remove_ok [OF m, of k] xs by (cases e) (auto simp: entry_def drop_entry_def avl_rep_def)
  qed
  show "(a, k, v) \<in> set xs \<Longrightarrow> load_val m a = Some v" using on_heap_val [OF D(1)] xs by (fastforce simp: load_val_def)
  show "(a, k, v) \<in> set xs \<Longrightarrow> \<exists>m'. store_val m a w = Some m' \<and> avl_rep m' (set_entry xs a w) \<and> (\<not> no_duplicate m') = (\<not> no_duplicate m)"
    using store_val_ok [OF m, of a w] xs unfolding avl_rep_def addrs_inord by force
  show "dom (nodes m) = fst ` set xs \<and> distinct (map fst xs)" using D(3,4) xs by (simp add: addrs_inord)
qed

subsection \<open>Depth\<close>

lemma find_cost_ht:
  assumes "on_heap h p t"
  shows "\<exists>n. find_cost h k (rootp t) = Some n \<and> n \<le> ht t"
  using assms
proof (induction t arbitrary: p)
  case Tip
  show ?case by (subst find_cost.simps) simp
next
  case (Nd l a k' v b r)
  from Nd.IH Nd.prems obtain c d where "find_cost h k (rootp l) = Some c" "c \<le> ht l" "find_cost h k (rootp r) = Some d" "d \<le> ht r"
    by fastforce
  with Nd.prems show ?case by (subst find_cost.simps) (auto simp: str_cmp_sign)
qed

lemma balanced_size: "balanced t \<Longrightarrow> 2 ^ (ht t div 2) \<le> Suc (length (inord t))"
proof (induction "ht t" arbitrary: t rule: less_induct)
  case less
  show ?case
  proof (cases t)
    case (Nd l a k v b r)
    let ?h = "ht t"
    have hl: "ht l < ?h" "ht r < ?h" and bal: "balanced l" "balanced r" using Nd less.prems by auto
    have *: "2 ^ (ht l div 2) \<le> Suc (length (inord l))" "2 ^ (ht r div 2) \<le> Suc (length (inord r))"
      using less.hyps hl bal by blast+
    have low: "?h - 2 \<le> ht l" "?h - 2 \<le> ht r" using Nd less.prems by auto
    have "(2::nat) ^ ((?h - 2) div 2) \<le> 2 ^ (ht l div 2)" "(2::nat) ^ ((?h - 2) div 2) \<le> 2 ^ (ht r div 2)"
      using low by (auto intro!: power_increasing div_le_mono)
    moreover have "Suc (length (inord t)) = Suc (length (inord l)) + Suc (length (inord r))" using Nd by simp
    ultimately have "2 * 2 ^ ((?h - 2) div 2) \<le> Suc (length (inord t))" using * by linarith
    moreover have "2 ^ (?h div 2) \<le> (2::nat) * 2 ^ ((?h - 2) div 2)"
      by (cases "?h < 2") (auto simp: div_less less_2_cases_iff le_div_geq simp flip: power_Suc)
    ultimately show ?thesis by linarith
  qed simp
qed

lemma ht_zero: "ht t = 0 \<longleftrightarrow> t = Tip"
  by (cases t) auto

lemma spine_two:
  assumes "balanced t" "3 \<le> length (inord t)"
  shows "2 \<le> spine t"
proof -
  obtain l a k v b r where n: "t = Nd l a k v b r" using assms(2) by (cases t) auto
  have "l \<noteq> Tip"
  proof
    assume l: "l = Tip"
    then have "ht r \<le> 1" using assms(1) n by simp
    then have "length (inord r) \<le> 1" by (cases r) (auto simp: ht_zero)
    then show False using assms(2) n l by simp
  qed
  then show ?thesis using n by (cases l) auto
qed

subsection \<open>A sample map\<close>

definition sample_node :: "str \<Rightarrow> addr option \<Rightarrow> addr option \<Rightarrow> addr option \<Rightarrow> addr option \<Rightarrow> avl_node" where
  "sample_node k l r p v = \<lparr>avl_link = two l r, avl_parent = p, node_key = k, node_val = v, avl_balance = 0\<rparr>"

definition sample_map :: avl_table where
  "sample_map = \<lparr>avl_root = Some 2, avl_count = 3, ret_code = 0, no_duplicate = False, nodes =
     [1 \<mapsto> sample_node ''a'' None None (Some 2) (Some 11), 2 \<mapsto> sample_node ''b'' (Some 1) (Some 3) None None,
      3 \<mapsto> sample_node ''c'' None None (Some 2) (Some 13)]\<rparr>"

definition sample_entries :: "(addr \<times> str \<times> addr option) list" where
  "sample_entries = [(1, ''a'', Some 11), (2, ''b'', None), (3, ''c'', Some 13)]"

lemma sample_rep: "avl_rep sample_map sample_entries"
proof -
  let ?t = "Nd (Nd Tip 1 ''a'' (Some 11) 0 Tip) 2 ''b'' None 0 (Nd Tip 3 ''c'' (Some 13) 0 Tip)"
  have "ordered (inord ?t)" by (simp add: key_rank_def less_prod_simp less_char_def)
  then have "is_map sample_map ?t" by (auto simp: is_map_def sample_map_def sample_node_def)
  then show ?thesis unfolding avl_rep_def by (intro exI [of _ ?t]) (simp add: sample_entries_def)
qed

lemma sample_lookup:
  "entry sample_entries ''b'' = Some (2, ''b'', None)" "entry sample_entries ''d'' = None" "look sample_entries ''a'' = Some (Some 11)"
  "4 \<notin> dom (nodes sample_map)" "Suc (length sample_entries) = 4"
  by (simp_all add: entry_def sample_entries_def key_rank_def look_def sample_map_def)

subsection \<open>The operations\<close>

text \<open>
  C3. \<open>map_get\<close> on a well-formed map always ends. It returns the node of an entry with the key and
  leaves the map alone; without one, and without memory, it returns null and leaves the map alone;
  and with memory it puts a new entry with a null value at the place of the key, and the map stays
  balanced, ordered, with exact balance factors and parent pointers, and owns exactly its nodes.
\<close>

theorem map_get_refines:
  assumes "avl_rep m xs"
  shows "(\<forall>a k' v. entry xs k = Some (a, k', v) \<longrightarrow> map_get m k mem copied = Some (m, Some a)) \<and>
    (entry xs k = None \<longrightarrow> map_get m k None copied = Some (m, None)) \<and>
    (entry xs k = None \<longrightarrow> n \<notin> dom (nodes m) \<longrightarrow> copied \<or> no_duplicate m \<longrightarrow>
       (\<exists>m'. map_get m k (Some (n, raw)) copied = Some (m', Some n) \<and> avl_rep m' (put_entry xs n k)))"
proof (intro conjI allI impI)
  show "map_get m k mem copied = Some (m, Some a)" if "entry xs k = Some (a, k', v)" for a k' v
    using avl.get_old [OF assms that] .
  show "map_get m k None copied = Some (m, None)" if "entry xs k = None"
  proof -
    obtain t where t: "is_map m t" "inord t = xs" using assms by (auto simp: avl_rep_def)
    obtain fs u where d: "descend k t [] = (fs, u)" by fastforce
    with descend_find(1) [OF is_mapD(6) [OF t(1)] d] that t(2) map_get_run [OF t(1) d]
    show ?thesis by (auto simp: map_get_def entry_def split: avl.splits)
  qed
  show "\<exists>m'. map_get m k (Some (n, raw)) copied = Some (m', Some n) \<and> avl_rep m' (put_entry xs n k)"
    if "entry xs k = None" "n \<notin> dom (nodes m)" "copied \<or> no_duplicate m"
    using avl.get_new [OF assms that(1,2)] that(3) by blast
qed

theorem map_get_refines_witness:
  "map_get sample_map ''b'' None True = Some (sample_map, Some 2) \<and>
   (\<exists>m'. map_get sample_map ''d'' (Some (4, sample_node ''x'' None None None None)) True = Some (m', Some 4) \<and>
      avl_rep m' (put_entry sample_entries 4 ''d''))"
  using map_get_refines [OF sample_rep, of "''b''" None True] map_get_refines [OF sample_rep, of "''d''" _ True 4] sample_lookup
  by auto

text \<open>
  C4. \<open>map_remove\<close> always ends and returns the value of the entry with the key, or null; afterwards
  the map is well formed and has the same entries without that one, and the node is freed.
  \<open>iterator_delete\<close> does the same for the node of the iterator.
\<close>

theorem map_remove_refines:
  assumes "avl_rep m xs"
  shows "(\<exists>m'. map_remove m k = Some (m', Option.bind (look xs k) (\<lambda>v. v)) \<and> avl_rep m' (drop_entry xs k)) \<and>
    (\<forall>a k' v. (a, k', v) \<in> set xs \<longrightarrow>
       (\<exists>m'. iterator_delete m (Some a) = Some (m', None, v) \<and> avl_rep m' (filter (\<lambda>e. fst e \<noteq> a) xs)))"
proof (intro conjI allI impI)
  have "Option.bind (look xs k) (\<lambda>v. v) = Option.bind (entry xs k) (\<lambda>e. snd (snd e))"
    by (cases "entry xs k") (simp_all add: look_def)
  then show "\<exists>m'. map_remove m k = Some (m', Option.bind (look xs k) (\<lambda>v. v)) \<and> avl_rep m' (drop_entry xs k)"
    using avl.remove_law [OF assms, of k] by auto
  fix a k' v assume a: "(a, k', v) \<in> set xs"
  obtain t where t: "is_map m t" "inord t = xs" using assms by (auto simp: avl_rep_def)
  have "a \<in> set (addrs t)" using a t(2) by (force simp: addrs_inord)
  then obtain fs l k0 v0 b r where p: "t = plug fs (Nd l a k0 v0 b r)" using in_context by blast
  have all: "xs = lefts fs @ inord l @ (a, k0, v0) # inord r @ rights fs" using t(2) unfolding p by (simp add: inord_plug)
  have dist: "distinct (map fst xs)" using is_mapD(3) [OF t(1)] t(2) by (simp add: addrs_inord)
  then have "v0 = v" using a all by (metis eq_key_imp_eq_value in_set_conv_decomp append.assoc snd_conv)
  moreover have "filter (\<lambda>e. fst e \<noteq> a) xs = lefts fs @ inord l @ inord r @ rights fs"
  proof -
    have "filter (\<lambda>e. fst e \<noteq> a) ys = ys" if "a \<notin> fst ` set ys" for ys :: "(addr \<times> str \<times> addr option) list"
      using that by (force simp: filter_id_conv)
    then show ?thesis using dist unfolding all by simp
  qed
  ultimately show "\<exists>m'. iterator_delete m (Some a) = Some (m', None, v) \<and> avl_rep m' (filter (\<lambda>e. fst e \<noteq> a) xs)"
    using delete_node_ok [OF t(1) p] by (auto simp: iterator_delete_def avl_rep_def)
qed

theorem map_remove_refines_witness:
  "(\<exists>m'. map_remove sample_map ''a'' = Some (m', Some 11) \<and> avl_rep m' (drop_entry sample_entries ''a'')) \<and>
   (\<exists>m'. iterator_delete sample_map (Some 3) = Some (m', None, Some 13) \<and> avl_rep m' (filter (\<lambda>e. fst e \<noteq> 3) sample_entries))"
proof
  show "\<exists>m'. map_remove sample_map ''a'' = Some (m', Some 11) \<and> avl_rep m' (drop_entry sample_entries ''a'')"
    using map_remove_refines [OF sample_rep, of "''a''"] sample_lookup(3) by simp
  have "(3, ''c'', Some 13) \<in> set sample_entries" by (simp add: sample_entries_def)
  then show "\<exists>m'. iterator_delete sample_map (Some 3) = Some (m', None, Some 13) \<and> avl_rep m' (filter (\<lambda>e. fst e \<noteq> 3) sample_entries)"
    using map_remove_refines [OF sample_rep, of "''a''"] by blast
qed



text \<open>
  C29. A search compares at most about twice the binary logarithm of the number of entries many
  keys, and its result is the node of the entry with the key.
\<close>

theorem map_find_bound:
  assumes "avl_rep m xs"
  shows "\<exists>n. find_cost (nodes m) k (avl_root m) = Some n \<and> 2 ^ (n div 2) \<le> Suc (length xs) \<and>
     map_find m k = Some (map_option fst (entry xs k))"
proof -
  obtain t where t: "is_map m t" "inord t = xs" using assms by (auto simp: avl_rep_def)
  note D = is_mapD [OF t(1)]
  obtain n where n: "find_cost (nodes m) k (avl_root m) = Some n" "n \<le> ht t" using find_cost_ht [OF D(1)] D(2) by auto
  have "2 ^ (n div 2) \<le> (2::nat) ^ (ht t div 2)" using n(2) by (simp add: div_le_mono)
  with n(1) balanced_size [OF D(5)] t(2) avl.find_law [OF assms] show ?thesis by (metis le_trans)
qed

theorem map_find_bound_witness:
  "\<exists>n. find_cost (nodes sample_map) ''b'' (avl_root sample_map) = Some n \<and> 2 ^ (n div 2) \<le> (4::nat) \<and>
     map_find sample_map ''b'' = Some (Some 2)"
  using map_find_bound [OF sample_rep, of "''b''"] sample_lookup(1,5) by simp

definition addr_at :: "(addr \<times> str \<times> addr option) list \<Rightarrow> nat \<Rightarrow> addr option" where
  "addr_at xs i = (if i < length xs then Some (fst (xs ! i)) else None)"

lemma iterator_at:
  assumes "is_map m t" "i < length (inord t)"
  shows "iterator_next m (addr_at (inord t) i) = Some (0, addr_at (inord t) (Suc i))"
    "iterator_prev m (addr_at (inord t) i) = Some (0, if i = 0 then None else addr_at (inord t) (i - 1))"
proof -
  obtain a k v where e: "inord t ! i = (a, k, v)" by (metis prod_cases3)
  then have "a \<in> set (addrs t)" using assms(2) unfolding addrs_inord by (metis fst_conv length_map nth_map nth_mem)
  then obtain fs l k0 v0 b r where p: "t = plug fs (Nd l a k0 v0 b r)" using in_context by blast
  let ?L = "lefts fs @ inord l" let ?R = "inord r @ rights fs"
  have all: "inord t = ?L @ (a, k0, v0) # ?R" unfolding p by (simp add: inord_plug)
  have dist: "distinct (map fst (inord t))" using is_mapD(3) [OF assms(1)] by (simp add: addrs_inord)
  have i: "i = length ?L"
  proof (rule ccontr)
    assume "i \<noteq> length ?L"
    moreover have "length ?L < length (inord t)" "inord t ! length ?L = (a, k0, v0)" unfolding all by (simp_all add: nth_append)
    ultimately show False using dist assms(2) e nth_eq_iff_index_eq [OF dist] by (metis fst_conv length_map nth_map)
  qed
  have "addr_at (inord t) i = Some a" using assms(2) e by (simp add: addr_at_def)
  moreover have "addr_at (inord t) (Suc i) = edge False ?R"
    unfolding all i by (cases ?R) (auto simp: addr_at_def edge_def nth_append hd_append)
  moreover have "(if i = 0 then None else addr_at (inord t) (i - 1)) = edge True ?L"
  proof (cases ?L rule: rev_cases)
    case (snoc ys y)
    then show ?thesis unfolding all i by (simp add: addr_at_def edge_def nth_append)
  qed (simp add: i edge_def)
  ultimately show "iterator_next m (addr_at (inord t) i) = Some (0, addr_at (inord t) (Suc i))"
    "iterator_prev m (addr_at (inord t) i) = Some (0, if i = 0 then None else addr_at (inord t) (i - 1))"
    using iterator_move_ok [OF assms(1) p] by (simp_all add: iterator_next_def iterator_prev_def)
qed

text \<open>
  C30. Iterators visit the entries in the order of the keys: the first and the last entry, and from
  each entry the next and the previous one, with an invalid iterator behind the ends.
\<close>

theorem iterator_order:
  assumes "avl_rep m xs"
  shows "map_first m = Some (addr_at xs 0) \<and> map_last m = Some (addr_at xs (length xs - 1)) \<and>
    (\<forall>i < length xs. iterator_next m (addr_at xs i) = Some (0, addr_at xs (Suc i)) \<and>
       iterator_prev m (addr_at xs i) = Some (0, if i = 0 then None else addr_at xs (i - 1)))"
proof -
  obtain t where t: "is_map m t" "inord t = xs" using assms by (auto simp: avl_rep_def)
  note D = is_mapD [OF t(1)]
  have edge: "edge False xs = addr_at xs 0" "edge True xs = addr_at xs (length xs - 1)"
    by (simp_all add: edge_def addr_at_def hd_conv_nth last_conv_nth)
  have "map_first m = Some (edge False xs) \<and> map_last m = Some (edge True xs)"
  proof (cases t)
    case Tip
    with D(2) t(2) show ?thesis by (auto simp: map_first_def map_last_def edge_def)
  next
    case (Nd l a k v b r)
    then have "leftmost (nodes m) d a = edge d xs" for d using leftmost_edge [OF D(1), of d] t(2) by simp
    moreover have "edge d xs = Some (fst (if d then last xs else hd xs))" for d using Nd t(2) by (auto simp: edge_def)
    ultimately show ?thesis using D(2) Nd by (simp add: map_first_def map_last_def)
  qed
  then show ?thesis using iterator_at [OF t(1)] t(2) unfolding edge by auto
qed

theorem iterator_order_witness:
  "map_first sample_map = Some (Some 1) \<and> iterator_next sample_map (Some 1) = Some (0, Some 2) \<and>
   iterator_prev sample_map (Some 1) = Some (0, None)"
proof -
  have "0 < length sample_entries" and at: "addr_at sample_entries 0 = Some 1" "addr_at sample_entries (Suc 0) = Some 2"
    by (simp_all add: addr_at_def sample_entries_def)
  with iterator_order [OF sample_rep] have "map_first sample_map = Some (addr_at sample_entries 0) \<and>
    iterator_next sample_map (addr_at sample_entries 0) = Some (0, addr_at sample_entries (Suc 0)) \<and>
    iterator_prev sample_map (addr_at sample_entries 0) = Some (0, None)" by auto
  then show ?thesis unfolding at .
qed

text \<open>
  C31. Destroying a map always ends, gives each value that is not null to the destroy function once,
  in the order of the keys, and frees all nodes without touching a freed one.
\<close>

theorem map_destroy_frees:
  assumes "avl_rep m xs"
  shows "map_destroy m destroy = Some (Map.empty, if destroy then List.map_filter (\<lambda>(a, k, v). v) xs else [])"
proof -
  obtain t where t: "is_map m t" "inord t = xs" using assms by (auto simp: avl_rep_def)
  note D = is_mapD [OF t(1)]
  obtain h where h: "destroy_loop destroy (nodes m) (rootp t) [] = Some (h, vals destroy (inord t))"
    "\<forall>a. h a = (if a \<in> set (addrs t) then None else nodes m a)"
    using destroy_loop_ok [OF on_heap_links [OF D(1)] D(3), of destroy "[]"] by auto
  have "h = Map.empty" using h(2) D(4) by (fastforce simp: fun_eq_iff)
  with h(1) D(2) t(2) show ?thesis by (simp add: map_destroy_def vals_def)
qed

theorem map_destroy_frees_witness: "map_destroy sample_map True = Some (Map.empty, [11, 13])"
  using map_destroy_frees [OF sample_rep, of True] by (simp add: sample_entries_def List.map_filter_simps)

text \<open>
  C32. \<open>map_for_each\<close> calls a function that never fails once for each entry in the order of the keys.
  When a call fails it does not stop, as map.h says: in any map of three or more entries a function
  that always fails is called a second time, for the parent of the first entry.
\<close>

theorem map_for_each_visits:
  assumes "avl_rep m xs"
  shows "((\<forall>k v s. fst (f k v s) = 0) \<longrightarrow> map_for_each m f s = Some (0, fold (\<lambda>(a, k, v) s. snd (f k v s)) xs s)) \<and>
    (3 \<le> length xs \<longrightarrow> (\<exists>n. map_for_each m (\<lambda>k v calls. (1, Suc calls)) 0 = Some (1, n) \<and> 2 \<le> n))"
proof (intro conjI impI)
  obtain t where t: "is_map m t" "inord t = xs" using assms by (auto simp: avl_rep_def)
  show "map_for_each m f s = Some (0, fold (\<lambda>(a, k, v) s. snd (f k v s)) xs s)" if "\<forall>k v s. fst (f k v s) = 0"
    using visit_all [of f t s] that map_for_each_ok [OF t(1), of f s] t(2) by simp
  show "\<exists>n. map_for_each m (\<lambda>k v calls. (1, Suc calls)) 0 = Some (1, n) \<and> 2 \<le> n" if len: "3 \<le> length xs"
  proof -
    have "2 \<le> spine t" "t \<noteq> Tip" using spine_two [OF is_mapD(5) [OF t(1)]] len t(2) by auto
    then show ?thesis using map_for_each_ok [OF t(1), of "\<lambda>k v calls. (1, Suc calls)" 0] visit_fail [of t 0] by simp
  qed
qed

theorem map_for_each_visits_witness:
  "map_for_each sample_map (\<lambda>k v ks. (0, ks @ [k])) [] = Some (0, [''a'', ''b'', ''c'']) \<and>
   (\<exists>n. map_for_each sample_map (\<lambda>k v calls. (1, Suc calls)) 0 = Some (1, n) \<and> 2 \<le> n)"
  using map_for_each_visits [OF sample_rep, of "\<lambda>k v ks. (0, ks @ [k])" "[]"] map_for_each_visits [OF sample_rep, of "\<lambda>k v s. (0, s)" "()"]
  by (simp add: sample_entries_def)

lemma on_heap_unique:
  "on_heap h p t \<Longrightarrow> on_heap h' q t' \<Longrightarrow> rootp t = rootp t' \<Longrightarrow> (\<And>a. a \<in> set (addrs t) \<Longrightarrow> h' a = h a) \<Longrightarrow> addrs t = addrs t'"
proof (induction t arbitrary: p q t')
  case (Nd l a k v b r)
  obtain l' k' v' b' r' where t': "t' = Nd l' a k' v' b' r'" using Nd.prems(3) by (cases t') auto
  have eq: "h' a = h a" using Nd.prems(4) by simp
  have "addrs l = addrs l'" by (rule Nd.IH(1)) (use Nd.prems t' eq in auto)
  moreover have "addrs r = addrs r'" by (rule Nd.IH(2)) (use Nd.prems t' eq in auto)
  ultimately show ?case using t' by simp
next
  case Tip
  then show ?case by (cases t') auto
qed

text \<open>
  C33. When the copy of a new key cannot be allocated, \<open>map_get\<close> returns null but has counted the new
  node, which is neither linked nor freed: all searches stay as they were, but the table is no
  well-formed map any more, and its size is one too large.
\<close>

theorem map_get_copy_failure:
  assumes "avl_rep m xs" "entry xs k = None" "n \<notin> dom (nodes m)" "\<not> no_duplicate m"
  shows "\<exists>m'. map_get m k (Some (n, raw)) False = Some (m', None) \<and> avl_count m' = avl_count m + 1 \<and> n \<in> dom (nodes m') \<and>
     (\<forall>k'. map_find m' k' = map_find m k') \<and> (\<forall>ys. \<not> avl_rep m' ys)"
proof -
  obtain t where t: "is_map m t" "inord t = xs" using assms(1) by (auto simp: avl_rep_def)
  note D = is_mapD [OF t(1)]
  obtain fs u where d: "descend k t [] = (fs, u)" by fastforce
  then have "u = Tip" using descend_find(1) [OF D(6) d] assms(2) t(2) by (cases u) (auto simp: entry_def)
  let ?m = "m\<lparr>avl_count := avl_count m + 1, nodes := (nodes m)(n \<mapsto> raw\<lparr>avl_link := \<lambda>_. None, avl_parent := parent_of fs\<rparr>)\<rparr>"
  have run: "map_get m k (Some (n, raw)) False = Some (?m, None)"
    using map_get_run [OF t(1) d] \<open>u = Tip\<close> assms(4) by (simp add: map_get_def)
  have on: "on_heap (nodes ?m) None t" using D(1,4) assms(3) by simp
  have "map_find ?m k' = map_find m k'" for k'
    using find_loop_ok [OF on, of k' "[]"] find_loop_ok [OF D(1), of k' "[]"] D(2) by (simp add: map_find_def)
  moreover have "\<not> avl_rep ?m ys" for ys
  proof
    assume "avl_rep ?m ys"
    then obtain t' where t': "is_map ?m t'" by (auto simp: avl_rep_def)
    have "addrs t = addrs t'" using on_heap_unique [OF on is_mapD(1) [OF t']] is_mapD(2) [OF t'] D(2) by simp
    then show False using is_mapD(4) [OF t'] D(4) assms(3) by auto
  qed
  ultimately show ?thesis using run by (intro exI [of _ ?m]) simp
qed

theorem map_get_copy_failure_witness:
  "\<exists>m'. map_get sample_map ''d'' (Some (4, sample_node ''x'' None None None None)) False = Some (m', None) \<and>
     avl_count m' = avl_count sample_map + 1 \<and> 4 \<in> dom (nodes m') \<and> (\<forall>ys. \<not> avl_rep m' ys)"
proof -
  have "\<not> no_duplicate sample_map" by (simp add: sample_map_def)
  from map_get_copy_failure [OF sample_rep sample_lookup(2,4) this] show ?thesis by blast
qed

text \<open>
  Keys are counted strings, but two keys of the same length that differ only behind a null byte
  are one key for the map: a search for one finds the entry of the other.
\<close>

theorem map_null_keys:
  assumes "avl_rep m xs" "length s = length s'"
  shows "map_find m (p @ CHR 0x00 # s) = map_find m (p @ CHR 0x00 # s')"
proof -
  have "key_rank (p @ CHR 0x00 # s) = key_rank (p @ CHR 0x00 # s')"
    using assms(2) by (induction p) (simp_all add: key_rank_def)
  then show ?thesis using avl.find_law [OF assms(1)] by (simp add: entry_def)
qed

theorem map_null_keys_witness: "map_find sample_map (''a'' @ CHR 0x00 # ''x'') = map_find sample_map (''a'' @ CHR 0x00 # ''y'')"
  using map_null_keys [OF sample_rep, of "''x''" "''y''" "''a''"] by simp

end
