(* ===== verification/Kv_Store.thy ===== *)
theory Kv_Store
  imports Avl_Laws
begin

text \<open>
  The key-value store of the user location module (modules/usrloc/kv_store.c), a client of the
  ordered map: its values live in shared memory of their own, and the store owns them.
\<close>

subsection \<open>Values\<close>

text \<open>
  \<open>int_str_t\<close> (ut.h) is a union with a tag. A string is the size of its buffer, 0 for a null
  pointer, and the bytes up to its length.
\<close>

datatype int_str = Int_Val int | Str_Val nat str

record kv_state =
  kv_map :: avl_table
  kv_vals :: "addr \<rightharpoonup> int_str"

fun is_str :: "int_str \<Rightarrow> bool" where
  "is_str (Int_Val i) = False"
| "is_str (Str_Val cap s) = True"

text \<open>
  \<open>shm_str_extend\<close> (ut.h), with the outcome of the reallocation: it grows the buffer when the
  string is shorter than the size asked for. \<open>None\<close> is its failure.
\<close>

definition shm_str_extend :: "nat \<Rightarrow> str \<Rightarrow> nat \<Rightarrow> bool \<Rightarrow> nat option" where
  "shm_str_extend cap s n ok = (if length s < n then if ok then Some n else None else Some cap)"

subsection \<open>Operations\<close>

definition kv_get :: "kv_state \<Rightarrow> str \<Rightarrow> addr option option" where
  "kv_get st k = do {
     p \<leftarrow> map_find (kv_map st) k;
     case p of None \<Rightarrow> Some None | Some a \<Rightarrow> load_val (kv_map st) a }"

text \<open>
  The allocations of \<open>kv_put\<close>: the two of \<open>map_get\<close>, the one of the value and the reallocation of the
  string. The outer \<open>None\<close> is an access outside of allocated memory; the inner one the null result.
\<close>

record kv_mem =
  node_mem :: "(addr \<times> avl_node) option"
  key_mem :: bool
  val_mem :: "addr option"
  str_mem :: bool

fun kv_assign :: "int_str \<Rightarrow> int_str \<Rightarrow> bool \<Rightarrow> (int_str \<times> bool) option" where
  "kv_assign new_val (Int_Val i) ok = Some (Int_Val i, True)"
| "kv_assign new_val (Str_Val c s) ok =
     (let (cap, old) = (case new_val of Int_Val i \<Rightarrow> (0, []) | Str_Val cap old \<Rightarrow> (cap, old))
      in case shm_str_extend cap old (length s + 1) ok of
           None \<Rightarrow> Some (Str_Val cap old, False)
         | Some cap \<Rightarrow> if length s + 1 \<le> cap then Some (Str_Val cap s, True) else None)"

definition kv_put :: "kv_state \<Rightarrow> str \<Rightarrow> int_str \<Rightarrow> kv_mem \<Rightarrow> (kv_state \<times> addr option) option" where
  "kv_put st k v mem = do {
     (m, cur) \<leftarrow> map_get (kv_map st) k (node_mem mem) (key_mem mem);
     let st = st\<lparr>kv_map := m\<rparr>;
     case cur of
       None \<Rightarrow> Some (st, None)
     | Some p \<Rightarrow> do {
         old \<leftarrow> load_val m p;
         case (old, val_mem mem) of
           (None, None) \<Rightarrow> Some (st, None)
         | _ \<Rightarrow> do {
             (st, a) \<leftarrow> (case old of
                         Some a \<Rightarrow> Some (st, a)
                       | None \<Rightarrow> do {
                           a \<leftarrow> val_mem mem;
                           m \<leftarrow> store_val m p (Some a);
                           Some (st\<lparr>kv_map := m, kv_vals := (kv_vals st)(a \<mapsto> Int_Val 0)\<rparr>, a) });
             new_val \<leftarrow> kv_vals st a;
             (r, done_ok) \<leftarrow> kv_assign new_val v (str_mem mem);
             Some (st\<lparr>kv_vals := (kv_vals st)(a \<mapsto> r)\<rparr>, if done_ok then Some a else None) } } }"

definition kv_del :: "kv_state \<Rightarrow> str \<Rightarrow> kv_state option" where
  "kv_del st k = do {
     (m, v) \<leftarrow> map_remove (kv_map st) k;
     let st = st\<lparr>kv_map := m\<rparr>;
     case v of
       None \<Rightarrow> Some st
     | Some a \<Rightarrow> do { x \<leftarrow> kv_vals st a; Some (st\<lparr>kv_vals := (kv_vals st)(a := None)\<rparr>) } }"

text \<open>
  The members of the JSON object that \<open>store_serialize\<close> prints. The callback dereferences the value
  of each entry; the state is \<open>None\<close> once it read through a null pointer. \<open>js\<close> tells for which
  entries the JSON item can be allocated.
\<close>

definition push_kv_to_json ::
    "(addr \<rightharpoonup> int_str) \<Rightarrow> (str \<Rightarrow> bool) \<Rightarrow> str \<Rightarrow> addr option \<Rightarrow> (str \<times> int_str) list option \<Rightarrow> int \<times> (str \<times> int_str) list option" where
  "push_kv_to_json h js k v out =
     (case (out, Option.bind v h) of
        (Some items, Some x) \<Rightarrow> if js k then (0, Some (items @ [(k, x)])) else (-1, Some items)
      | _ \<Rightarrow> (0, None))"

definition store_items :: "kv_state \<Rightarrow> (str \<Rightarrow> bool) \<Rightarrow> (str \<times> int_str) list option" where
  "store_items st js =
     (if map_size (kv_map st) = 0 then Some []
      else do {
        (code, out) \<leftarrow> map_for_each (kv_map st) (push_kv_to_json (kv_vals st) js) (Some []);
        out })"








text \<open>
  The script functions, on the store of the record that \<open>get_urecord\<close> finds; \<open>None\<close> is no record.
  \<open>w_get_key\<close> writes to the destination with \<open>pv_set_value\<close>, whose outcome is an argument; it
  returns the value it wrote.
\<close>

definition w_add_key :: "kv_state option \<Rightarrow> str \<Rightarrow> str \<Rightarrow> kv_mem \<Rightarrow> (kv_state option \<times> int) option" where
  "w_add_key r k v mem =
     (case r of
        None \<Rightarrow> Some (None, -1)
      | Some st \<Rightarrow>
          if v \<noteq> [] then do {
            (st, p) \<leftarrow> kv_put st k (Str_Val (length v) v) mem;
            Some (Some st, if p = None then -1 else 1) }
          else do { st \<leftarrow> kv_del st k; Some (Some st, 1) })"

definition w_get_key :: "kv_state option \<Rightarrow> str \<Rightarrow> bool \<Rightarrow> (int_str option \<times> int) option" where
  "w_get_key r k set_ok =
     (case r of
        None \<Rightarrow> Some (None, -1)
      | Some st \<Rightarrow> do {
          p \<leftarrow> kv_get st k;
          case p of
            None \<Rightarrow> Some (None, -1)
          | Some a \<Rightarrow> do { x \<leftarrow> kv_vals st a; Some (if set_ok then (Some x, 1) else (None, -1)) } })"

definition w_delete_key :: "kv_state option \<Rightarrow> str \<Rightarrow> (kv_state option \<times> int) option" where
  "w_delete_key r k =
     (case r of
        None \<Rightarrow> Some (None, -1)
      | Some st \<Rightarrow> do { st \<leftarrow> kv_del st k; Some (Some st, 1) })"

subsection \<open>What the store holds\<close>

fun content :: "int_str \<Rightarrow> int + str" where
  "content (Int_Val i) = Inl i"
| "content (Str_Val cap s) = Inr s"

text \<open>A string that is not null has room for its terminating null byte.\<close>

fun val_ok :: "int_str \<Rightarrow> bool" where
  "val_ok (Int_Val i) = True"
| "val_ok (Str_Val cap s) \<longleftrightarrow> cap = 0 \<and> s = [] \<or> length s < cap"

text \<open>Each value belongs to one key, and the memory of values holds these and no others.\<close>

definition kv_inv :: "kv_state \<Rightarrow> (addr \<times> str \<times> addr option) list \<Rightarrow> bool" where
  "kv_inv st xs \<longleftrightarrow> avl_rep (kv_map st) xs \<and> \<not> no_duplicate (kv_map st) \<and>
     (\<forall>k k' a. look xs k = Some (Some a) \<longrightarrow> look xs k' = Some (Some a) \<longrightarrow> key_rank k = key_rank k') \<and>
     (\<forall>a. (kv_vals st a \<noteq> None) = (\<exists>k. look xs k = Some (Some a))) \<and>
     (\<forall>a x. kv_vals st a = Some x \<longrightarrow> val_ok x)"

lemma kv_invD:
  assumes "kv_inv st xs"
  shows "avl_rep (kv_map st) xs" "\<not> no_duplicate (kv_map st)"
    "look xs k = Some (Some a) \<Longrightarrow> look xs k' = Some (Some a) \<Longrightarrow> key_rank k = key_rank k'"
    "kv_vals st a = Some x \<Longrightarrow> \<exists>k. look xs k = Some (Some a)" "look xs k = Some (Some a) \<Longrightarrow> \<exists>x. kv_vals st a = Some x"
    "kv_vals st a = Some x \<Longrightarrow> val_ok x"
  using assms unfolding kv_inv_def by (blast, blast, blast, metis option.distinct(1), metis not_None_eq, blast)

lemma kv_invI:
  assumes "avl_rep (kv_map st) xs" "\<not> no_duplicate (kv_map st)"
    "\<And>k k' a. look xs k = Some (Some a) \<Longrightarrow> look xs k' = Some (Some a) \<Longrightarrow> key_rank k = key_rank k'"
    "\<And>a x. kv_vals st a = Some x \<Longrightarrow> \<exists>k. look xs k = Some (Some a)" "\<And>a k. look xs k = Some (Some a) \<Longrightarrow> \<exists>x. kv_vals st a = Some x"
    "\<And>a x. kv_vals st a = Some x \<Longrightarrow> val_ok x"
  shows "kv_inv st xs"
  unfolding kv_inv_def using assms by (metis option.distinct(1) not_None_eq)

definition kv_read :: "kv_state \<Rightarrow> str \<Rightarrow> (int + str) option" where
  "kv_read st k = (case kv_get st k of Some (Some a) \<Rightarrow> map_option content (kv_vals st a) | _ \<Rightarrow> None)"

lemma kv_get_look:
  assumes "avl_rep (kv_map st) xs"
  shows "kv_get st k = Some (Option.bind (look xs k) (\<lambda>v. v))"
proof (cases "entry xs k")
  case None
  then show ?thesis using avl.find_law [OF assms, of k] by (simp add: kv_get_def look_def)
next
  case (Some e)
  then have "load_val (kv_map st) (fst e) = Some (snd (snd e))"
    using avl.load_law [OF assms, of "fst e" "fst (snd e)"] entry_Some_in by force
  then show ?thesis using avl.find_law [OF assms, of k] Some by (simp add: kv_get_def look_def)
qed

lemma kv_read_look:
  assumes "avl_rep (kv_map st) xs"
  shows "kv_read st k = (case look xs k of Some (Some a) \<Rightarrow> map_option content (kv_vals st a) | _ \<Rightarrow> None)"
  using kv_get_look [OF assms, of k] by (simp add: kv_read_def split: option.splits)

lemma look_rank: "key_rank k = key_rank k' \<Longrightarrow> look xs k = look xs k'"
  by (simp add: look_def entry_def)

lemma kv_assign_ok:
  assumes "val_ok x"
  shows "\<exists>r. kv_assign x v True = Some (r, True) \<and> val_ok r \<and> content r = content v"
    "\<exists>r b. kv_assign x v ok = Some (r, b) \<and> val_ok r"
  using assms by (cases v; cases x; auto simp: shm_str_extend_def)+

text \<open>A value is assigned in place.\<close>

lemma kv_inv_assign:
  assumes I: "kv_inv st xs" and a: "look xs k = Some (Some a)" and r: "val_ok r"
  shows "kv_inv (st\<lparr>kv_vals := (kv_vals st)(a \<mapsto> r)\<rparr>) xs"
    "kv_read (st\<lparr>kv_vals := (kv_vals st)(a \<mapsto> r)\<rparr>) k' = (if key_rank k' = key_rank k then Some (content r) else kv_read st k')"
proof -
  note D = kv_invD [OF I]
  let ?st = "st\<lparr>kv_vals := (kv_vals st)(a \<mapsto> r)\<rparr>"
  have rep: "avl_rep (kv_map ?st) xs" using D(1) by simp
  show "kv_inv ?st xs"
  proof (rule kv_invI)
    show "kv_vals ?st b = Some x \<Longrightarrow> \<exists>k. look xs k = Some (Some b)" for b x using a D(4) [of b] by (auto split: if_splits)
    show "look xs k1 = Some (Some b) \<Longrightarrow> \<exists>x. kv_vals ?st b = Some x" for k1 b using D(5) [of k1 b] by auto
    show "kv_vals ?st b = Some x \<Longrightarrow> val_ok x" for b x using r D(6) [of b x] by (auto split: if_splits)
    show "key_rank k1 = key_rank k2" if "look xs k1 = Some (Some b)" "look xs k2 = Some (Some b)" for k1 k2 b
      using that D(3) by blast
  qed (use D(1,2) in auto)
  have "look xs k' \<noteq> Some (Some a)" if "key_rank k' \<noteq> key_rank k" using D(3) a that by blast
  moreover have "look xs k' = Some (Some a)" if "key_rank k' = key_rank k" using a look_rank [OF that] by simp
  ultimately show "kv_read ?st k' = (if key_rank k' = key_rank k then Some (content r) else kv_read st k')"
    unfolding kv_read_look [OF D(1)] kv_read_look [OF rep] by (auto split: option.splits)
qed

text \<open>A new value is stored for a key that has none.\<close>

lemma kv_inv_new:
  assumes I: "kv_inv st xs" and none: "Option.bind (look xs k) (\<lambda>v. v) = None" and a: "kv_vals st a = None"
    and rep: "avl_rep m ys" "\<not> no_duplicate m" and look: "\<And>k'. look ys k' = (if key_rank k' = key_rank k then Some (Some a) else look xs k')"
  shows "kv_inv (st\<lparr>kv_map := m, kv_vals := (kv_vals st)(a \<mapsto> Int_Val 0)\<rparr>) ys"
    "key_rank k' \<noteq> key_rank k \<Longrightarrow> kv_read (st\<lparr>kv_map := m, kv_vals := (kv_vals st)(a \<mapsto> Int_Val 0)\<rparr>) k' = kv_read st k'"
proof -
  note D = kv_invD [OF I]
  let ?st = "st\<lparr>kv_map := m, kv_vals := (kv_vals st)(a \<mapsto> Int_Val 0)\<rparr>"
  have unused: "look xs k' \<noteq> Some (Some a)" for k' using D(5) a by force
  have nk: "key_rank k' = key_rank k \<Longrightarrow> look xs k' \<noteq> Some (Some b)" for k' b
    using none look_rank [of k' k xs] by (cases "look xs k") auto
  have repx: "avl_rep (kv_map ?st) ys" using rep by simp
  show "kv_inv ?st ys"
  proof (rule kv_invI)
    show "\<exists>k. look ys k = Some (Some b)" if v: "kv_vals ?st b = Some x" for b x
    proof (cases "b = a")
      case True
      then show ?thesis using look by (intro exI [of _ k]) simp
    next
      case False
      then obtain k1 where "look xs k1 = Some (Some b)" using D(4) [of b x] v by auto
      moreover have "key_rank k1 \<noteq> key_rank k" using nk calculation by blast
      ultimately show ?thesis using look [of k1] by (intro exI [of _ k1]) simp
    qed
    show "\<exists>x. kv_vals ?st b = Some x" if "look ys k1 = Some (Some b)" for k1 b
      using that look [of k1] D(5) [of k1 b] by (auto split: if_splits)
    show "key_rank k1 = key_rank k2" if "look ys k1 = Some (Some b)" "look ys k2 = Some (Some b)" for k1 k2 b
      using that D(3) [of k1 b k2] unused [of k1] unused [of k2] look [of k1] look [of k2] by (auto split: if_splits)
    show "kv_vals ?st b = Some x \<Longrightarrow> val_ok x" for b x using D(6) [of b x] by (auto split: if_splits)
  qed (use rep in auto)
  show "key_rank k' \<noteq> key_rank k \<Longrightarrow> kv_read ?st k' = kv_read st k'"
    unfolding kv_read_look [OF D(1)] kv_read_look [OF repx] using look [of k'] unused [of k'] by (auto split: option.splits)
qed

lemma kv_put_ok:
  assumes I: "kv_inv st xs" and mem: "node_mem mem = Some (n, raw)" "n \<notin> dom (nodes (kv_map st))" "key_mem mem"
    "val_mem mem = Some a" "kv_vals st a = None" "str_mem mem"
  shows "\<exists>st' p ys. kv_put st k v mem = Some (st', Some p) \<and> kv_inv st' ys \<and>
     dom (nodes (kv_map st')) \<subseteq> insert n (dom (nodes (kv_map st))) \<and> dom (kv_vals st') \<subseteq> insert a (dom (kv_vals st)) \<and>
     (\<forall>k'. kv_read st' k' = (if key_rank k' = key_rank k then Some (content v) else kv_read st k'))"
proof -
  note D = kv_invD [OF I]
  have fin: ?thesis if x: "kv_inv st1 ys" "look ys k = Some (Some p)" "kv_vals st1 p = Some x" "val_ok x"
    "\<And>r. kv_assign x v True = Some (r, True) \<Longrightarrow> kv_put st k v mem = Some (st1\<lparr>kv_vals := (kv_vals st1)(p \<mapsto> r)\<rparr>, Some p)"
    "\<And>k'. key_rank k' \<noteq> key_rank k \<Longrightarrow> kv_read st1 k' = kv_read st k'"
    "dom (nodes (kv_map st1)) \<subseteq> insert n (dom (nodes (kv_map st)))" "dom (kv_vals st1) \<subseteq> insert a (dom (kv_vals st))" for st1 ys p x
  proof -
    obtain r where r: "kv_assign x v True = Some (r, True)" "val_ok r" "content r = content v" using kv_assign_ok(1) [OF x(4)] by blast
    note A = kv_inv_assign [OF x(1,2) r(2)]
    have "dom ((kv_vals st1)(p \<mapsto> r)) = dom (kv_vals st1)" using x(3) by auto
    then show ?thesis using x(5) [OF r(1)] A(1) A(2) r(3) x(6-8)
      by (intro exI [of _ "st1\<lparr>kv_vals := (kv_vals st1)(p \<mapsto> r)\<rparr>"] exI [of _ p] exI [of _ ys]) simp
  qed
  show ?thesis
  proof (cases "Option.bind (look xs k) (\<lambda>v. v)")
    case (Some p)
    then have look: "look xs k = Some (Some p)" by (cases "look xs k") auto
    then obtain b k' where e: "entry xs k = Some (b, k', Some p)" by (auto simp: look_def)
    obtain x where x: "kv_vals st p = Some x" using D(5) look by blast
    have "map_get (kv_map st) k (node_mem mem) (key_mem mem) = Some (kv_map st, Some b)" using avl.get_old [OF D(1) e] .
    moreover have "load_val (kv_map st) b = Some (Some p)" using avl.load_law [OF D(1)] entry_Some_in [OF e] by blast
    ultimately show ?thesis using fin [OF I look x D(6) [OF x] _ _ subset_insertI subset_insertI] x mem by (simp add: kv_put_def)
  next
    case None
    have old: "Option.bind (entry xs k) (\<lambda>e. snd (snd e)) = None" using None by (cases "entry xs k") (auto simp: look_def)
    obtain m1 b m2 ys where m: "map_get (kv_map st) k (Some (n, raw)) True = Some (m1, Some b)" "store_val m1 b (Some a) = Some m2"
      "avl_rep m2 ys" "\<not> no_duplicate m2" "load_val m1 b = Some None"
      "dom (nodes m2) \<subseteq> insert n (dom (nodes (kv_map st)))" "\<forall>k'. look ys k' = (if key_rank k' = key_rank k then Some (Some a) else look xs k')"
      using avl.get_store [OF D(1) mem(2), of True k raw "Some a"] D(2) unfolding old by blast
    let ?st = "st\<lparr>kv_map := m2, kv_vals := (kv_vals st)(a \<mapsto> Int_Val 0)\<rparr>"
    note N = kv_inv_new [OF I None mem(5) m(3,4) m(7) [rule_format]]
    have "kv_put st k v mem = Some (?st\<lparr>kv_vals := (kv_vals ?st)(a \<mapsto> r)\<rparr>, Some a)" if "kv_assign (Int_Val 0) v True = Some (r, True)" for r
      using m(1,2,5) mem that by (simp add: kv_put_def)
    then show ?thesis using fin [OF N(1), of a "Int_Val 0"] N(2) m(6,7) by auto
  qed
qed

lemma look_drop: "look (drop_entry xs k) k' = (if key_rank k' = key_rank k then None else look xs k')"
  by (simp add: look_def entry_drop)

lemma kv_del_ok:
  assumes I: "kv_inv st xs"
  shows "\<exists>st'. kv_del st k = Some st' \<and> kv_inv st' (drop_entry xs k) \<and>
     (\<forall>k'. kv_read st' k' = (if key_rank k' = key_rank k then None else kv_read st k'))"
proof -
  note D = kv_invD [OF I]
  have old: "Option.bind (entry xs k) (\<lambda>e. snd (snd e)) = Option.bind (look xs k) (\<lambda>v. v)"
    by (cases "entry xs k") (auto simp: look_def)
  obtain m where m: "map_remove (kv_map st) k = Some (m, Option.bind (look xs k) (\<lambda>v. v))" "avl_rep m (drop_entry xs k)" "\<not> no_duplicate m"
    using avl.remove_law [OF D(1), of k] D(2) unfolding old by auto
  define h where "h = (case Option.bind (look xs k) (\<lambda>v. v) of None \<Rightarrow> kv_vals st | Some a \<Rightarrow> (kv_vals st)(a := None))"
  let ?st = "st\<lparr>kv_map := m, kv_vals := h\<rparr>"
  have at: "h a = (if look xs k = Some (Some a) then None else kv_vals st a)" for a
    by (auto simp: h_def split: option.splits Option.bind_splits)
  have "kv_del st k = Some ?st"
  proof (cases "Option.bind (look xs k) (\<lambda>v. v)")
    case (Some a)
    then have "look xs k = Some (Some a)" by (cases "look xs k") auto
    with D(5) [OF this] Some m(1) show ?thesis by (auto simp: kv_del_def h_def)
  qed (use m(1) in \<open>simp add: kv_del_def h_def\<close>)
  moreover have I': "kv_inv ?st (drop_entry xs k)"
  proof (rule kv_invI)
    show "\<exists>k1. look (drop_entry xs k) k1 = Some (Some a)" if "kv_vals ?st a = Some x" for a x
    proof -
      from that at [of a] obtain k1 where k1: "look xs k1 = Some (Some a)" "look xs k \<noteq> Some (Some a)" using D(4) [of a x] by (auto split: if_splits)
      then have "key_rank k1 \<noteq> key_rank k" using look_rank by metis
      then show ?thesis using k1(1) by (intro exI [of _ k1]) (simp add: look_drop)
    qed
    show "\<exists>x. kv_vals ?st a = Some x" if "look (drop_entry xs k) k1 = Some (Some a)" for k1 a
      using that at [of a] D(3) [of k1 a k] D(5) [of k1 a] by (auto simp: look_drop split: if_splits)
    show "key_rank k1 = key_rank k2" if "look (drop_entry xs k) k1 = Some (Some a)" "look (drop_entry xs k) k2 = Some (Some a)" for k1 k2 a
      using that D(3) [of k1 a k2] by (auto simp: look_drop split: if_splits)
    show "kv_vals ?st a = Some x \<Longrightarrow> val_ok x" for a x using at [of a] D(6) [of a x] by (auto split: if_splits)
  qed (use m in auto)
  moreover have "kv_read ?st k' = (if key_rank k' = key_rank k then None else kv_read st k')" for k'
  proof -
    have "h a = kv_vals st a" if "look xs k' = Some (Some a)" "key_rank k' \<noteq> key_rank k" for a
      using at [of a] D(3) [OF that(1), of k] that(2) by auto
    then show ?thesis unfolding kv_read_look [OF kv_invD(1) [OF I']] kv_read_look [OF D(1)] by (auto simp: look_drop split: option.splits)
  qed
  ultimately show ?thesis by blast
qed

text \<open>The script functions read what they stored, and an empty value deletes the key.\<close>

lemma kv_read_Some: "kv_read st k = Some c \<longleftrightarrow> (\<exists>a x. kv_get st k = Some (Some a) \<and> kv_vals st a = Some x \<and> content x = c)"
  by (auto simp: kv_read_def split: option.splits)

lemma w_add_get:
  assumes I: "kv_inv st xs" and mem: "node_mem mem = Some (n, raw)" "n \<notin> dom (nodes (kv_map st))" "key_mem mem"
    "val_mem mem = Some a" "kv_vals st a = None" "str_mem mem"
  shows "\<exists>st' ys. w_add_key (Some st) k v mem = Some (Some st', 1) \<and> kv_inv st' ys \<and>
     (if v = [] then w_get_key (Some st') k True = Some (None, -1)
      else \<exists>x. w_get_key (Some st') k True = Some (Some x, 1) \<and> content x = Inr v)"
proof (cases "v = []")
  case True
  obtain st' where st': "kv_del st k = Some st'" "kv_inv st' (drop_entry xs k)" using kv_del_ok [OF I] by blast
  have "kv_get st' k = Some None" using kv_get_look [OF kv_invD(1) [OF st'(2)], of k] by (simp add: look_drop)
  then show ?thesis using True st' by (auto simp: w_add_key_def w_get_key_def)
next
  case False
  obtain st' p ys where st': "kv_put st k (Str_Val (length v) v) mem = Some (st', Some p)" "kv_inv st' ys" "kv_read st' k = Some (Inr v)"
    using kv_put_ok [OF assms, of k "Str_Val (length v) v"] by auto
  then show ?thesis using False by (auto simp: w_add_key_def w_get_key_def kv_read_Some)
qed

subsection \<open>All values\<close>


lemma rep_ordered: "avl_rep m xs \<Longrightarrow> ordered xs \<and> avl_count m = of_nat (length xs)"
  by (auto simp: avl_rep_def is_map_def)

lemma rep_visit:
  assumes "avl_rep m xs" "\<And>k v s. fst (f k v s) = 0"
  shows "map_for_each m f s = Some (0, fold (\<lambda>(a, k, v) s. snd (f k v s)) xs s)"
proof -
  obtain t where t: "is_map m t" "inord t = xs" using assms(1) by (auto simp: avl_rep_def)
  show ?thesis using map_for_each_ok [OF t(1), of f s] visit_all [of f t s] assms(2) t(2) by simp
qed




text \<open>The members of the JSON object: all entries, unless one of them has a null value.\<close>

lemma push_simps:
  "push_kv_to_json h js k v None = (0, None)"
  "Option.bind v h = None \<Longrightarrow> push_kv_to_json h js k v (Some items) = (0, None)"
  "Option.bind v h = Some x \<Longrightarrow> push_kv_to_json h (\<lambda>_. True) k v (Some items) = (0, Some (items @ [(k, x)]))"
  by (simp_all add: push_kv_to_json_def)

lemma items_fold:
  "fold (\<lambda>(a, k, v) s. snd (push_kv_to_json h (\<lambda>_. True) k v s)) xs (Some items) =
     (if \<exists>e \<in> set xs. Option.bind (snd (snd e)) h = None then None
      else Some (items @ map (\<lambda>(a, k, v). (k, the (Option.bind v h))) xs))"
proof (induction xs arbitrary: items)
  case (Cons e xs)
  have none: "fold (\<lambda>(a, k, v) s. snd (push_kv_to_json h (\<lambda>_. True) k v s)) ys None = None" for ys
    by (induction ys) (auto simp: push_simps)
  obtain a k v where e: "e = (a, k, v)" by (cases e)
  show ?case by (cases "Option.bind v h") (simp_all add: e push_simps none Cons.IH)
qed simp

lemma push_ok: "fst (push_kv_to_json h (\<lambda>_. True) k v s) = 0"
  by (simp add: push_kv_to_json_def split: option.splits)

lemma store_items_ok:
  assumes "avl_rep (kv_map st) xs" "map_size (kv_map st) \<noteq> 0"
  shows "store_items st (\<lambda>_. True) =
     (if \<exists>e \<in> set xs. Option.bind (snd (snd e)) (kv_vals st) = None then None
      else Some (map (\<lambda>(a, k, v). (k, the (Option.bind v (kv_vals st)))) xs))"
  using assms(2) rep_visit [OF assms(1), of "push_kv_to_json (kv_vals st) (\<lambda>_. True)" "Some []"] push_ok
  by (simp add: store_items_def items_fold)

subsection \<open>Printing and reading back\<close>








subsection \<open>The store as a finite map\<close>

definition empty_store :: kv_state where
  "empty_store = \<lparr>kv_map = the (map_create False (Some 0)), kv_vals = Map.empty\<rparr>"

definition sample_mem :: kv_mem where
  "sample_mem = \<lparr>node_mem = Some (1, sample_node ''x'' None None None None), key_mem = True, val_mem = Some 7, str_mem = True\<rparr>"

lemma empty_store_inv: "kv_inv empty_store []"
proof (rule kv_invI)
  have "is_map (kv_map empty_store) Tip" by (simp add: is_map_def empty_store_def map_create_def)
  then show "avl_rep (kv_map empty_store) []" unfolding avl_rep_def by (intro exI [of _ Tip]) simp
qed (simp_all add: empty_store_def map_create_def look_def entry_def)



lemma length_around: "length (filter (\<lambda>e. ekey e < key_rank k) xs) + length (filter (\<lambda>e. key_rank k < ekey e) xs) \<le> length xs"
  by (induction xs) auto

lemma map_size_pos:
  assumes "avl_rep m xs" "xs \<noteq> []" "length xs < 2 ^ 31"
  shows "map_size m \<noteq> 0"
proof -
  have "ucast (avl_count m) = (of_nat (length xs) :: u32)" using rep_ordered [OF assms(1)]
    by (auto intro!: bit_eqI simp: bit_simps)
  moreover have "(of_nat (length xs) :: u32) \<noteq> 0" using assms(2,3) by (auto simp: word_of_nat_eq_0_iff dest: dvd_imp_le)
  ultimately show ?thesis by (metis map_size_def signed_0 signed_word_eqI)
qed

text \<open>
  C35. When the memory for a new value runs out, \<open>kv_put\<close> reports the failure but leaves the key in the
  map with a null value. A lookup treats it as missing, but serializing the store reads through
  the null pointer.
\<close>

theorem kv_put_null_value:
  assumes "avl_rep (kv_map st) xs" "\<not> no_duplicate (kv_map st)" "look xs k = None" "length xs + 1 < 2 ^ 31"
    and "node_mem mem = Some (n, raw)" "n \<notin> dom (nodes (kv_map st))" "key_mem mem" "val_mem mem = None"
  shows "\<exists>st'. kv_put st k v mem = Some (st', None) \<and> kv_get st' k = Some None \<and> store_items st' (\<lambda>_. True) = None"
proof -
  have e: "entry xs k = None" using assms(3) by (simp add: look_def)
  obtain m where m: "map_get (kv_map st) k (Some (n, raw)) True = Some (m, Some n)" "avl_rep m (put_entry xs n k)"
    using avl.get_new [OF assms(1) e assms(6)] by blast
  have mem: "(n, k, None) \<in> set (put_entry xs n k)" by (simp add: put_entry_def)
  have "load_val m n = Some None" using avl.load_law [OF m(2) mem] .
  then have run: "kv_put st k v mem = Some (st\<lparr>kv_map := m\<rparr>, None)" using m(1) assms(5,7,8) by (simp add: kv_put_def)
  let ?st = "st\<lparr>kv_map := m\<rparr>"
  have rep: "avl_rep (kv_map ?st) (put_entry xs n k)" using m(2) by simp
  have "length (put_entry xs n k) \<le> length xs + 1" unfolding put_entry_def using length_around [of k xs] by simp
  with assms(4) have "length (put_entry xs n k) < 2 ^ 31" by linarith
  moreover have "put_entry xs n k \<noteq> []" by (simp add: put_entry_def)
  ultimately have "map_size m \<noteq> 0" using map_size_pos [OF m(2)] by simp
  then have "store_items ?st (\<lambda>_. True) = None" using store_items_ok [OF rep] mem by force
  moreover have "kv_get ?st k = Some None" using kv_get_look [OF rep, of k] entry_put [OF e, of n k] by (simp add: look_def)
  ultimately show ?thesis using run by blast
qed

theorem kv_put_null_value_witness:
  "\<exists>st'. kv_put empty_store ''k'' (Int_Val 5) (sample_mem\<lparr>val_mem := None\<rparr>) = Some (st', None) \<and> kv_get st' ''k'' = Some None \<and>
     store_items st' (\<lambda>_. True) = None"
proof -
  have "avl_rep (kv_map empty_store) []" "\<not> no_duplicate (kv_map empty_store)" using kv_invD(1,2) [OF empty_store_inv] by auto
  moreover have "look [] ''k'' = None" by (simp add: look_def entry_def)
  ultimately show ?thesis
    by (rule kv_put_null_value) (simp_all add: sample_mem_def empty_store_def map_create_def)
qed




end
