(* ===== verification/Qm_Malloc.thy ===== *)
theory Qm_Malloc
  imports Sip_Prelude
begin

text \<open>
  The quality assurance allocator (mem/q_malloc.h, mem/q_malloc.c and mem/q_malloc_dyn.h), in its
  debugging flavour, which is the one with the checks and has the same structures as the other one.
  A block is cut into fragments, each with a header before and an end behind its bytes; the free
  ones are in circular lists by size, sorted by size.
\<close>

subsection \<open>Memory\<close>

text \<open>
  The sizes are those of an LP64 build with \<open>DBG_MALLOC\<close> and one entry of debugging history. The
  coordinates of the caller that are kept for messages are not modelled.
\<close>

definition QM_ROUNDTO :: nat where "QM_ROUNDTO = 8"
definition Q_MALLOC_OPTIMIZE_FACTOR :: nat where "Q_MALLOC_OPTIMIZE_FACTOR = 14"
definition Q_MALLOC_OPTIMIZE :: nat where "Q_MALLOC_OPTIMIZE = 2 ^ Q_MALLOC_OPTIMIZE_FACTOR"
definition QM_HASH_SIZE :: nat where
  "QM_HASH_SIZE = Q_MALLOC_OPTIMIZE div QM_ROUNDTO + (64 - Q_MALLOC_OPTIMIZE_FACTOR) + 1"

definition QM_FRAG_OVERHEAD :: nat where "QM_FRAG_OVERHEAD = 48"
definition QM_FRAG_END_SIZE :: nat where "QM_FRAG_END_SIZE = 48"
definition FRAG_OVERHEAD :: nat where "FRAG_OVERHEAD = QM_FRAG_OVERHEAD + QM_FRAG_END_SIZE"
definition MIN_FRAG_SIZE :: nat where "MIN_FRAG_SIZE = QM_ROUNDTO"
definition QM_FRAG_LNK_SIZE :: nat where "QM_FRAG_LNK_SIZE = QM_FRAG_OVERHEAD + QM_FRAG_END_SIZE + 8"
definition QM_FREE_HASH :: nat where "QM_FREE_HASH = 64"
definition QM_BLOCK_SIZE :: nat where "QM_BLOCK_SIZE = QM_FREE_HASH + QM_HASH_SIZE * QM_FRAG_LNK_SIZE"

definition ST_CHECK_PATTERN :: u64 where "ST_CHECK_PATTERN = (- 1) div 255 * 0xf0"
definition END_CHECK_PATTERN1 :: u64 where "END_CHECK_PATTERN1 = (- 1) div 255 * 0xc0"
definition END_CHECK_PATTERN2 :: u64 where "END_CHECK_PATTERN2 = 0xabcdefedabcdefed"

text \<open>
  A \<open>qm_block\<close> at its address, with the memory it manages: a map for each field of the two
  structures \<open>qm_frag\<close> and \<open>qm_frag_end\<close>, from the address of the structure. Memory that was never
  written has no value, and a header that is given up keeps its values. The pointer \<open>nxt_free\<close> shares its
  place with \<open>is_free\<close>; 0 is the null pointer. \<open>qm_data\<close> are the bytes of the allocated fragments. The
  counters are integers; in a well-formed block they are sums of the sizes of fragments, so the
  \<open>unsigned long\<close> of the code does not wrap.
\<close>

record qm_block =
  qm_addr :: nat
  qm_size :: int
  qm_used :: int
  real_used :: int
  max_real_used :: int
  fragments :: int
  first_frag :: nat
  last_frag_end :: nat
  free_no :: "nat \<Rightarrow> int"
  frag_size :: "nat \<rightharpoonup> nat"
  nxt_free :: "nat \<rightharpoonup> nat"
  frag_check :: "nat \<rightharpoonup> u64"
  end_size :: "nat \<rightharpoonup> nat"
  prev_free :: "nat \<rightharpoonup> nat"
  end_check1 :: "nat \<rightharpoonup> u64"
  end_check2 :: "nat \<rightharpoonup> u64"
  qm_data :: "nat \<Rightarrow> u8"

text \<open>\<open>&qm->free_hash[h].head\<close>; the tail is directly behind it, where the end of a fragment of size 0 is.\<close>

definition free_head :: "qm_block \<Rightarrow> nat \<Rightarrow> nat" where
  "free_head qm h = qm_addr qm + QM_FREE_HASH + h * QM_FRAG_LNK_SIZE"

definition FRAG_END :: "qm_block \<Rightarrow> nat \<Rightarrow> nat option" where
  "FRAG_END qm f = do { s \<leftarrow> frag_size qm f; Some (f + QM_FRAG_OVERHEAD + s) }"

definition FRAG_NEXT :: "qm_block \<Rightarrow> nat \<Rightarrow> nat option" where
  "FRAG_NEXT qm f = do { s \<leftarrow> frag_size qm f; Some (f + QM_FRAG_OVERHEAD + s + QM_FRAG_END_SIZE) }"

definition PREV_FRAG_END :: "nat \<Rightarrow> nat" where
  "PREV_FRAG_END f = f - QM_FRAG_END_SIZE"

definition FRAG_PREV :: "qm_block \<Rightarrow> nat \<Rightarrow> nat option" where
  "FRAG_PREV qm f = do { s \<leftarrow> end_size qm (PREV_FRAG_END f); Some (PREV_FRAG_END f - s - QM_FRAG_OVERHEAD) }"

definition QM_FRAG :: "nat \<Rightarrow> nat" where
  "QM_FRAG p = p - QM_FRAG_OVERHEAD"

definition ROUNDUP :: "u64 \<Rightarrow> u64" where
  "ROUNDUP s = (s + 7) AND NOT 7"

definition ROUNDDOWN :: "u64 \<Rightarrow> u64" where
  "ROUNDDOWN s = s AND NOT 7"

subsection \<open>Size classes\<close>

text \<open>The loop shifts until the highest bit is set; it does not end for 0.\<close>

partial_function (option) big_hash_loop :: "u64 \<Rightarrow> nat \<Rightarrow> nat option" where
  "big_hash_loop s idx = (if bit s 63 then Some idx else big_hash_loop (push_bit 1 s) (idx - 1))"

definition big_hash_idx :: "nat \<Rightarrow> nat option" where
  "big_hash_idx s = big_hash_loop (of_nat s) 63"

definition GET_HASH :: "nat \<Rightarrow> nat option" where
  "GET_HASH s =
     (if s \<le> Q_MALLOC_OPTIMIZE then Some (s div QM_ROUNDTO)
      else do { i \<leftarrow> big_hash_idx s; Some (Q_MALLOC_OPTIMIZE div QM_ROUNDTO + i - Q_MALLOC_OPTIMIZE_FACTOR + 1) })"

subsection \<open>Checks\<close>

text \<open>A failed check aborts the process; \<open>None\<close> is a read of memory that holds no such structure.\<close>

datatype 'a outcome = Aborted | Returned 'a

definition qm_debug_frag :: "qm_block \<Rightarrow> nat \<Rightarrow> bool option" where
  "qm_debug_frag qm f = do {
     c \<leftarrow> frag_check qm f;
     if c \<noteq> ST_CHECK_PATTERN then Some False
     else do {
       e \<leftarrow> FRAG_END qm f;
       c1 \<leftarrow> end_check1 qm e;
       c2 \<leftarrow> end_check2 qm e;
       if c1 \<noteq> END_CHECK_PATTERN1 \<or> c2 \<noteq> END_CHECK_PATTERN2 then Some False
       else if f > first_frag qm then do {
         c1 \<leftarrow> end_check1 qm (PREV_FRAG_END f);
         c2 \<leftarrow> end_check2 qm (PREV_FRAG_END f);
         Some (c1 = END_CHECK_PATTERN1 \<and> c2 = END_CHECK_PATTERN2) }
       else Some True } }"

subsection \<open>Free lists\<close>

text \<open>The first fragment of a list that is not smaller, or the head.\<close>

partial_function (option) insert_pos :: "qm_block \<Rightarrow> nat \<Rightarrow> nat \<Rightarrow> nat \<Rightarrow> nat option" where
  "insert_pos qm head s f =
     (if f = head then Some f
      else do {
        t \<leftarrow> frag_size qm f;
        if s \<le> t then Some f else do { n \<leftarrow> nxt_free qm f; insert_pos qm head s n } })"

definition qm_insert_free :: "qm_block \<Rightarrow> nat \<Rightarrow> qm_block option" where
  "qm_insert_free qm frag = do {
     s \<leftarrow> frag_size qm frag;
     hash \<leftarrow> GET_HASH s;
     n \<leftarrow> nxt_free qm (free_head qm hash);
     f \<leftarrow> insert_pos qm (free_head qm hash) s n;
     e \<leftarrow> FRAG_END qm f;
     prev \<leftarrow> prev_free qm e;
     let qm = qm\<lparr>nxt_free := (nxt_free qm)(prev \<mapsto> frag)\<rparr>;
     ef \<leftarrow> FRAG_END qm frag;
     let qm = qm\<lparr>prev_free := (prev_free qm)(ef \<mapsto> prev), nxt_free := (nxt_free qm)(frag \<mapsto> f)\<rparr>;
     let qm = qm\<lparr>prev_free := (prev_free qm)(e \<mapsto> frag)\<rparr>;
     Some (qm\<lparr>free_no := (free_no qm)(hash := free_no qm hash + 1), real_used := real_used qm - int s,
              qm_used := qm_used qm - int s\<rparr>) }"

definition qm_detach_free :: "qm_block \<Rightarrow> nat \<Rightarrow> qm_block option" where
  "qm_detach_free qm frag = do {
     s \<leftarrow> frag_size qm frag;
     e \<leftarrow> FRAG_END qm frag;
     prev \<leftarrow> prev_free qm e;
     next \<leftarrow> nxt_free qm frag;
     let qm = qm\<lparr>nxt_free := (nxt_free qm)(prev \<mapsto> next)\<rparr>;
     en \<leftarrow> FRAG_END qm next;
     Some (qm\<lparr>prev_free := (prev_free qm)(en \<mapsto> prev), real_used := real_used qm + int s, qm_used := qm_used qm + int s\<rparr>) }"

text \<open>The two loops of \<open>qm_find_free\<close>.\<close>

partial_function (option) find_in_list :: "qm_block \<Rightarrow> nat \<Rightarrow> nat \<Rightarrow> nat \<Rightarrow> nat option option" where
  "find_in_list qm head s f =
     (if f = head then Some None
      else do {
        t \<leftarrow> frag_size qm f;
        if t \<ge> s then Some (Some f) else do { n \<leftarrow> nxt_free qm f; find_in_list qm head s n } })"

partial_function (option) find_from :: "qm_block \<Rightarrow> nat \<Rightarrow> nat \<Rightarrow> (nat \<times> nat) option option" where
  "find_from qm s hash =
     (if hash < QM_HASH_SIZE then do {
        n \<leftarrow> nxt_free qm (free_head qm hash);
        r \<leftarrow> find_in_list qm (free_head qm hash) s n;
        case r of Some f \<Rightarrow> Some (Some (f, hash)) | None \<Rightarrow> find_from qm s (hash + 1) }
      else Some None)"

definition qm_find_free :: "qm_block \<Rightarrow> nat \<Rightarrow> (nat \<times> nat) option option" where
  "qm_find_free qm s = do { hash \<leftarrow> GET_HASH s; find_from qm s hash }"

subsection \<open>Initialisation\<close>

text \<open>
  The memory at \<open>address\<close> is not yet known to hold any structure. The result is \<open>None\<close> inside of \<open>Some\<close>
  when the memory is too small.
\<close>

definition qm_malloc_init :: "u64 \<Rightarrow> u64 \<Rightarrow> (nat \<Rightarrow> u8) \<Rightarrow> qm_block option option" where
  "qm_malloc_init address siz bytes =
     (let start = ROUNDUP address in
      if siz < start - address then Some None
      else let siz = siz - (start - address) in
      if siz < of_nat (MIN_FRAG_SIZE + FRAG_OVERHEAD) then Some None
      else let siz = unat (ROUNDDOWN siz);
               init_overhead = unat (ROUNDUP (of_nat QM_BLOCK_SIZE)) + QM_FRAG_OVERHEAD + QM_FRAG_END_SIZE in
      if siz < init_overhead then Some None
      else let a = unat start;
               first = a + unat (ROUNDUP (of_nat QM_BLOCK_SIZE));
               lst = a + siz - QM_FRAG_END_SIZE;
               s = siz - init_overhead;
               heads = (\<lambda>h. a + QM_FREE_HASH + h * QM_FRAG_LNK_SIZE);
               hs = map heads [0..<QM_HASH_SIZE];
               qm = \<lparr>qm_addr = a, qm_size = int siz, qm_used = int s, real_used = int siz, max_real_used = 0, fragments = 0,
                     first_frag = first, last_frag_end = lst, free_no = (\<lambda>h. 0),
                     frag_size = (map_of (map (\<lambda>h. (h, 0)) hs))(first \<mapsto> s),
                     nxt_free = map_of (map (\<lambda>h. (h, h)) hs),
                     frag_check = (map_of (map (\<lambda>h. (h, 0)) hs))(first \<mapsto> ST_CHECK_PATTERN),
                     end_size = (map_of (map (\<lambda>h. (h + QM_FRAG_OVERHEAD, 0)) hs))(lst \<mapsto> s),
                     prev_free = map_of (map (\<lambda>h. (h + QM_FRAG_OVERHEAD, h)) hs),
                     end_check1 = (map_of (map (\<lambda>h. (h + QM_FRAG_OVERHEAD, 0)) hs))(lst \<mapsto> END_CHECK_PATTERN1),
                     end_check2 = (map_of (map (\<lambda>h. (h + QM_FRAG_OVERHEAD, 0)) hs))(lst \<mapsto> END_CHECK_PATTERN2),
                     qm_data = bytes\<rparr>
           in map_option Some (qm_insert_free qm first))"

subsection \<open>Allocation\<close>

text \<open>The return value, which no caller uses, is left out: whether the fragment was split.\<close>

definition qm_split_frag :: "qm_block \<Rightarrow> nat \<Rightarrow> nat \<Rightarrow> qm_block option" where
  "qm_split_frag qm f new_size = do {
     s \<leftarrow> frag_size qm f;
     let rest = s - new_size;
     if rest > FRAG_OVERHEAD + MIN_FRAG_SIZE then do {
       let qm = qm\<lparr>frag_size := (frag_size qm)(f \<mapsto> new_size)\<rparr>;
       e \<leftarrow> FRAG_END qm f;
       let n = e + QM_FRAG_END_SIZE;
       let qm = qm\<lparr>end_size := (end_size qm)(e \<mapsto> new_size), frag_size := (frag_size qm)(n \<mapsto> rest - FRAG_OVERHEAD)\<rparr>;
       en \<leftarrow> FRAG_END qm n;
       let qm = qm\<lparr>end_size := (end_size qm)(en \<mapsto> rest - FRAG_OVERHEAD), qm_used := qm_used qm - int FRAG_OVERHEAD,
                   end_check1 := (end_check1 qm)(e \<mapsto> END_CHECK_PATTERN1), end_check2 := (end_check2 qm)(e \<mapsto> END_CHECK_PATTERN2),
                   frag_check := (frag_check qm)(n \<mapsto> ST_CHECK_PATTERN)\<rparr>;
       qm_insert_free qm n }
     else Some qm }"

definition qm_malloc :: "qm_block \<Rightarrow> u64 \<Rightarrow> (qm_block \<times> nat) outcome option" where
  "qm_malloc qm siz =
     (let s = unat (ROUNDUP siz) in
      if int s > qm_size qm - real_used qm then Some (Returned (qm, 0))
      else do {
        r \<leftarrow> qm_find_free qm s;
        case r of
          None \<Rightarrow> Some (Returned (qm, 0))
        | Some (f, hash) \<Rightarrow> do {
            ok \<leftarrow> qm_debug_frag qm f;
            if \<not> ok then Some Aborted
            else do {
              qm \<leftarrow> qm_detach_free qm f;
              let qm = qm\<lparr>nxt_free := (nxt_free qm)(f \<mapsto> 0), free_no := (free_no qm)(hash := free_no qm hash - 1)\<rparr>;
              qm \<leftarrow> qm_split_frag qm f s;
              let qm = (if max_real_used qm < real_used qm then qm\<lparr>max_real_used := real_used qm\<rparr> else qm);
              let qm = qm\<lparr>frag_check := (frag_check qm)(f \<mapsto> ST_CHECK_PATTERN), fragments := fragments qm + 1\<rparr>;
              Some (Returned (qm, f + QM_FRAG_OVERHEAD)) } } })"

subsection \<open>Freeing\<close>

text \<open>
  Taking a neighbour of the freed fragment out of its list. The state and the size of what is to be
  joined are returned, or that the check of the neighbour failed.
\<close>

definition join_detach :: "qm_block \<Rightarrow> nat \<Rightarrow> (qm_block \<times> nat) option" where
  "join_detach qm g = do {
     qm \<leftarrow> qm_detach_free qm g;
     t \<leftarrow> frag_size qm g;
     hash \<leftarrow> GET_HASH t;
     Some (qm\<lparr>qm_used := qm_used qm + int FRAG_OVERHEAD, free_no := (free_no qm)(hash := free_no qm hash - 1)\<rparr>, t) }"

definition free_next :: "qm_block \<Rightarrow> nat \<Rightarrow> nat \<Rightarrow> (qm_block \<times> nat) outcome option" where
  "free_next qm f siz = do {
     next \<leftarrow> FRAG_NEXT qm f;
     if next < last_frag_end qm then do {
       free \<leftarrow> nxt_free qm next;
       if free \<noteq> 0 then do {
         ok \<leftarrow> qm_debug_frag qm next;
         if \<not> ok then Some Aborted
         else do { (qm, t) \<leftarrow> join_detach qm next; Some (Returned (qm, siz + t + FRAG_OVERHEAD)) } }
       else Some (Returned (qm, siz)) }
     else Some (Returned (qm, siz)) }"

definition free_prev :: "qm_block \<Rightarrow> nat \<Rightarrow> nat \<Rightarrow> (qm_block \<times> nat \<times> nat) outcome option" where
  "free_prev qm f siz =
     (if f > first_frag qm then do {
        prev \<leftarrow> FRAG_PREV qm f;
        ok \<leftarrow> qm_debug_frag qm prev;
        if \<not> ok then Some Aborted
        else do {
          free \<leftarrow> nxt_free qm prev;
          if free \<noteq> 0 then do { (qm, t) \<leftarrow> join_detach qm prev; Some (Returned (qm, prev, siz + t + FRAG_OVERHEAD)) }
          else Some (Returned (qm, f, siz)) } }
      else Some (Returned (qm, f, siz)))"

definition qm_free :: "qm_block \<Rightarrow> nat \<Rightarrow> qm_block outcome option" where
  "qm_free qm p =
     (if p = 0 then Some (Returned qm)
      else if p > last_frag_end qm \<or> p < first_frag qm then Some Aborted
      else do {
        let f = QM_FRAG p;
        ok \<leftarrow> qm_debug_frag qm f;
        if \<not> ok then Some Aborted
        else do {
          free \<leftarrow> nxt_free qm f;
          if free \<noteq> 0 then Some Aborted
          else do {
            siz \<leftarrow> frag_size qm f;
            r \<leftarrow> free_next qm f siz;
            case r of
              Aborted \<Rightarrow> Some Aborted
            | Returned (qm, siz) \<Rightarrow> do {
                r \<leftarrow> free_prev qm f siz;
                case r of
                  Aborted \<Rightarrow> Some Aborted
                | Returned (qm, f, siz) \<Rightarrow> do {
                    let qm = qm\<lparr>frag_size := (frag_size qm)(f \<mapsto> siz)\<rparr>;
                    e \<leftarrow> FRAG_END qm f;
                    let qm = qm\<lparr>end_size := (end_size qm)(e \<mapsto> siz)\<rparr>;
                    qm \<leftarrow> qm_insert_free qm f;
                    Some (Returned (qm\<lparr>fragments := fragments qm - 1\<rparr>)) } } } } })"

subsection \<open>Reallocation\<close>

definition memcpy :: "qm_block \<Rightarrow> nat \<Rightarrow> nat \<Rightarrow> nat \<Rightarrow> qm_block" where
  "memcpy qm dst src n = qm\<lparr>qm_data := (\<lambda>a. if dst \<le> a \<and> a < dst + n then qm_data qm (src + (a - dst)) else qm_data qm a)\<rparr>"

definition qm_realloc_move :: "qm_block \<Rightarrow> nat \<Rightarrow> nat \<Rightarrow> nat \<Rightarrow> (qm_block \<times> nat) outcome option" where
  "qm_realloc_move qm p orig_size s = do {
     r \<leftarrow> qm_malloc qm (of_nat s);
     case r of
       Aborted \<Rightarrow> Some Aborted
     | Returned (qm, ptr) \<Rightarrow>
         if ptr \<noteq> 0 then do {
           r \<leftarrow> qm_free (memcpy qm ptr p orig_size) p;
           case r of Aborted \<Rightarrow> Some Aborted | Returned qm \<Rightarrow> Some (Returned (qm, ptr)) }
         else Some (Returned (qm, 0)) }"

definition qm_realloc_join :: "qm_block \<Rightarrow> nat \<Rightarrow> nat \<Rightarrow> nat \<Rightarrow> nat \<Rightarrow> qm_block option" where
  "qm_realloc_join qm f n orig_size s = do {
     (qm, t) \<leftarrow> join_detach qm n;
     let qm = qm\<lparr>frag_size := (frag_size qm)(f \<mapsto> orig_size + t + FRAG_OVERHEAD)\<rparr>;
     e \<leftarrow> FRAG_END qm f;
     let qm = qm\<lparr>end_size := (end_size qm)(e \<mapsto> orig_size + t + FRAG_OVERHEAD)\<rparr>;
     if orig_size + t + FRAG_OVERHEAD > s then qm_split_frag qm f s else Some qm }"

definition qm_realloc :: "qm_block \<Rightarrow> nat \<Rightarrow> u64 \<Rightarrow> (qm_block \<times> nat) outcome option" where
  "qm_realloc qm p siz =
     (if p \<noteq> 0 \<and> (p > last_frag_end qm \<or> p < first_frag qm) then Some Aborted
      else if siz = 0 then
        (if p \<noteq> 0 then do {
           r \<leftarrow> qm_free qm p;
           case r of Aborted \<Rightarrow> Some Aborted | Returned qm \<Rightarrow> Some (Returned (qm, 0)) }
         else Some (Returned (qm, 0)))
      else if p = 0 then qm_malloc qm siz
      else do {
        let f = QM_FRAG p;
        ok \<leftarrow> qm_debug_frag qm f;
        if \<not> ok then Some Aborted
        else do {
          free \<leftarrow> nxt_free qm f;
          if free \<noteq> 0 then Some Aborted
          else do {
            let s = unat (ROUNDUP siz);
            fs \<leftarrow> frag_size qm f;
            if fs > s then do { qm \<leftarrow> qm_split_frag qm f s; Some (Returned (qm, p)) }
            else if fs < s then do {
              n \<leftarrow> FRAG_NEXT qm f;
              join \<leftarrow> (if n < last_frag_end qm then do {
                         free \<leftarrow> nxt_free qm n;
                         if free \<noteq> 0 then do { t \<leftarrow> frag_size qm n; Some (t + FRAG_OVERHEAD \<ge> s - fs) } else Some False }
                       else Some False);
              if join then do { qm \<leftarrow> qm_realloc_join qm f n fs s; Some (Returned (qm, p)) }
              else qm_realloc_move qm p fs s }
            else Some (Returned (qm, p)) } } })"

subsection \<open>Information\<close>

definition qm_frag_size :: "qm_block \<Rightarrow> nat \<Rightarrow> nat option" where
  "qm_frag_size qm p = (if p = 0 then Some 0 else frag_size qm (QM_FRAG p))"

text \<open>The loop of \<open>qm_mem_check\<close>, which aborts when a check fails and counts the fragments.\<close>

partial_function (option) qm_mem_check_loop :: "qm_block \<Rightarrow> nat \<Rightarrow> nat \<Rightarrow> nat outcome option" where
  "qm_mem_check_loop qm f i =
     (if f < last_frag_end qm then do {
        ok \<leftarrow> qm_debug_frag qm f;
        if \<not> ok then Some Aborted
        else do { n \<leftarrow> FRAG_NEXT qm f; qm_mem_check_loop qm n (i + 1) } }
      else Some (Returned i))"

definition qm_mem_check :: "qm_block \<Rightarrow> nat outcome option" where
  "qm_mem_check qm = qm_mem_check_loop qm (first_frag qm) 0"

record mem_info =
  total_size :: int
  min_frag :: nat
  info_free :: int
  info_used :: int
  info_real_used :: int
  max_used :: int
  total_frags :: int

definition qm_info :: "qm_block \<Rightarrow> mem_info" where
  "qm_info qm =
     \<lparr>total_size = qm_size qm, min_frag = MIN_FRAG_SIZE, info_free = qm_size qm - real_used qm, info_used = qm_used qm,
      info_real_used = real_used qm, max_used = max_real_used qm, total_frags = sum_list (map (free_no qm) [0..<QM_HASH_SIZE])\<rparr>"

end
