(* ===== verification/Qm_Lists.thy ===== *)
theory Qm_Lists
  imports Qm_Malloc
begin

text \<open>
  The structures of the allocator: size classes, circular lists, the row of fragments in a block,
  and the effect of putting a fragment on its free list and of taking it off.
\<close>

lemmas qm_sizes = QM_FRAG_OVERHEAD_def QM_FRAG_END_SIZE_def FRAG_OVERHEAD_def MIN_FRAG_SIZE_def QM_ROUNDTO_def QM_FREE_HASH_def
  QM_FRAG_LNK_SIZE_def Q_MALLOC_OPTIMIZE_def Q_MALLOC_OPTIMIZE_FACTOR_def QM_HASH_SIZE_def QM_BLOCK_SIZE_def

subsection \<open>Size classes\<close>

lemma big_hash_loop_ok:
  assumes "2 ^ i \<le> s" "s < 2 ^ (i + 1)" "i + k \<le> 63"
  shows "big_hash_loop (of_nat (s * 2 ^ k)) (63 - k) = Some i"
  using assms(3)
proof (induction "63 - i - k" arbitrary: k)
  case 0
  then have k: "i + k = 63" by simp
  have "s * 2 ^ k < 2 ^ (i + 1) * 2 ^ k" "2 ^ i * 2 ^ k \<le> s * 2 ^ k" using assms(1,2) by simp_all
  moreover have "(2::nat) ^ (i + 1) * 2 ^ k = 2 ^ 64" "(2::nat) ^ i * 2 ^ k = 2 ^ 63" using k by (simp_all flip: power_add add: ac_simps)
  ultimately have "s * 2 ^ k < 2 ^ 64" "2 ^ 63 \<le> s * 2 ^ k" by (simp_all only:)
  then have "s * 2 ^ k div 2 ^ 63 = 1" by (intro div_nat_eqI) simp_all
  then have "bit (s * 2 ^ k) 63" unfolding bit_iff_odd by simp
  then have "bit (of_nat (s * 2 ^ k) :: u64) 63" by (simp add: bit_simps del: of_nat_mult)
  moreover have "63 - k = i" using k by simp
  ultimately show ?case by (subst big_hash_loop.simps) simp
next
  case (Suc n)
  then have k: "i + Suc k \<le> 63" by simp
  have "s * 2 ^ k < 2 ^ (i + 1) * 2 ^ k" using assms(2) by simp
  also have "\<dots> = 2 ^ (i + 1 + k)" by (simp add: power_add)
  also have "\<dots> \<le> 2 ^ 63" by (rule power_increasing) (use k in simp_all)
  finally have "s * 2 ^ k div 2 ^ 63 = 0" by simp
  then have "\<not> bit (s * 2 ^ k) 63" unfolding bit_iff_odd by simp
  then have "\<not> bit (of_nat (s * 2 ^ k) :: u64) 63" by (simp add: bit_simps del: of_nat_mult)
  moreover have "push_bit 1 (of_nat (s * 2 ^ k)) = (of_nat (s * 2 ^ Suc k) :: u64)" by (simp add: push_bit_eq_mult)
  moreover have "63 - k - 1 = 63 - Suc k" by simp
  ultimately show ?case using Suc.hyps(1) [of "Suc k"] Suc.hyps(2) k by (subst big_hash_loop.simps) (simp del: of_nat_mult)
qed

lemma big_hash_idx_ok: "2 ^ i \<le> s \<Longrightarrow> s < 2 ^ (i + 1) \<Longrightarrow> i \<le> 63 \<Longrightarrow> big_hash_idx s = Some i"
  using big_hash_loop_ok [of i s 0] by (simp add: big_hash_idx_def)

lemma log_ex: "0 < s \<Longrightarrow> \<exists>i. 2 ^ i \<le> s \<and> s < 2 ^ (i + 1)" for s :: nat
  using ex_power_ivl1 [of 2 s] by simp

lemma GET_HASH_big:
  assumes "Q_MALLOC_OPTIMIZE < s" "s < 2 ^ 64"
  obtains i where "2 ^ i \<le> s" "s < 2 ^ (i + 1)" "14 \<le> i" "i \<le> 63" "GET_HASH s = Some (2035 + i)"
proof -
  obtain i where i: "2 ^ i \<le> s" "s < 2 ^ (i + 1)" using log_ex [of s] assms(1) by auto
  have "(2::nat) ^ i < 2 ^ 64" using i(1) assms(2) by linarith
  then have "i < 64" by (rule power_less_imp_less_exp [rotated]) simp
  have "(2::nat) ^ 14 < 2 ^ (i + 1)" using i(2) assms(1) by (simp add: qm_sizes)
  then have "14 < i + 1" by (rule power_less_imp_less_exp [rotated]) simp
  then have "GET_HASH s = Some (2035 + i)" using big_hash_idx_ok [OF i] \<open>i < 64\<close> assms(1) by (simp add: GET_HASH_def qm_sizes)
  then show ?thesis using that i \<open>i < 64\<close> \<open>14 < i + 1\<close> by simp
qed

lemma GET_HASH_ok: "s < 2 ^ 64 \<Longrightarrow> \<exists>h < QM_HASH_SIZE. GET_HASH s = Some h"
proof (cases "s \<le> Q_MALLOC_OPTIMIZE")
  case False
  assume "s < 2 ^ 64"
  with False obtain i where "i \<le> 63" "GET_HASH s = Some (2035 + i)" by (meson GET_HASH_big not_le)
  then show ?thesis by (auto simp: qm_sizes)
qed (auto simp: GET_HASH_def qm_sizes)

lemma GET_HASH_mono:
  assumes "s \<le> t" "t < 2 ^ 64" "GET_HASH s = Some h" "GET_HASH t = Some k"
  shows "h \<le> k"
proof (cases "t \<le> Q_MALLOC_OPTIMIZE")
  case True
  then show ?thesis using assms by (auto simp: GET_HASH_def qm_sizes div_le_mono)
next
  case False
  then obtain j where j: "t < 2 ^ (j + 1)" "14 \<le> j" "k = 2035 + j" using GET_HASH_big [of t] assms(2,4) by (metis not_le option.inject)
  show ?thesis
  proof (cases "s \<le> Q_MALLOC_OPTIMIZE")
    case True
    then show ?thesis using assms(3) j by (auto simp: GET_HASH_def qm_sizes)
  next
    case False
    then obtain i where i: "2 ^ i \<le> s" "h = 2035 + i" using GET_HASH_big [of s] assms(1-3) by (metis le_less_trans not_le option.inject)
    have "(2::nat) ^ i < 2 ^ (j + 1)" using i(1) j(1) assms(1) by linarith
    then have "i < j + 1" by (rule power_less_imp_less_exp [rotated]) simp
    then show ?thesis using i j by simp
  qed
qed

subsection \<open>Circular lists\<close>

text \<open>From \<open>a\<close> over \<open>xs\<close> to \<open>b\<close>, with both pointers of each step.\<close>

fun chain :: "('a \<rightharpoonup> 'a) \<Rightarrow> ('a \<rightharpoonup> 'a) \<Rightarrow> 'a \<Rightarrow> 'a list \<Rightarrow> 'a \<Rightarrow> bool" where
  "chain nx pv a [] b \<longleftrightarrow> nx a = Some b \<and> pv b = Some a"
| "chain nx pv a (x # xs) b \<longleftrightarrow> nx a = Some x \<and> pv x = Some a \<and> chain nx pv x xs b"

lemma chain_append: "chain nx pv a (xs @ x # ys) b \<longleftrightarrow> chain nx pv a xs x \<and> chain nx pv x ys b"
  by (induction xs arbitrary: a) auto

lemma chain_cong:
  "chain nx pv a xs b \<Longrightarrow> \<forall>y \<in> insert a (set xs). nx' y = nx y \<Longrightarrow> \<forall>y \<in> insert b (set xs). pv' y = pv y \<Longrightarrow> chain nx' pv' a xs b"
  by (induction xs arbitrary: a) auto

lemma chain_ends: "chain nx pv a xs b \<Longrightarrow> nx a = Some (hd (xs @ [b])) \<and> pv b = Some (last (a # xs))"
  by (induction xs arbitrary: a) auto

lemma chain_retarget:
  assumes "chain nx pv a xs b" "distinct (a # xs)" "c \<notin> set xs"
  shows "chain (nx(last (a # xs) \<mapsto> c)) (pv(c \<mapsto> last (a # xs))) a xs c"
  using assms
proof (induction xs arbitrary: a)
  case (Cons x xs)
  have "chain (nx(last (x # xs) \<mapsto> c)) (pv(c \<mapsto> last (x # xs))) x xs c" by (rule Cons.IH) (use Cons.prems in auto)
  moreover have "a \<noteq> last (x # xs)" using Cons.prems(2) last_in_set [of "x # xs"] by (metis distinct.simps(2) list.distinct(1))
  moreover have "last (a # x # xs) = last (x # xs)" by simp
  ultimately show ?case unfolding chain.simps(2) using Cons.prems by (intro conjI) (simp_all, blast)
qed simp

lemma chain_unlink:
  assumes C: "chain nx pv a (xs @ x # ys) b" and d: "distinct (a # xs @ x # ys)" and b: "b \<notin> set (xs @ x # ys)"
  shows "chain (nx(last (a # xs) \<mapsto> hd (ys @ [b]))) (pv(hd (ys @ [b]) \<mapsto> last (a # xs))) a (xs @ ys) b"
proof -
  have C: "chain nx pv a xs x" "chain nx pv x ys b" using C by (simp_all add: chain_append)
  let ?c = "hd (ys @ [b])"
  have "?c \<notin> set xs" using d b by (cases ys) auto
  then have L: "chain (nx(last (a # xs) \<mapsto> ?c)) (pv(?c \<mapsto> last (a # xs))) a xs ?c" using chain_retarget [OF C(1)] d by auto
  show ?thesis
  proof (cases ys)
    case (Cons y zs)
    have l: "last (a # xs) \<in> set (a # xs)" by (rule last_in_set) simp
    have "chain (nx(last (a # xs) \<mapsto> ?c)) (pv(?c \<mapsto> last (a # xs))) y zs b"
      by (rule chain_cong [of nx pv]) (use C(2) Cons d b l in auto)
    then show ?thesis using L Cons by (simp add: chain_append)
  qed (use L in simp)
qed

lemma chain_link:
  assumes C: "chain nx pv a (xs @ ys) b" and d: "distinct (a # xs @ ys)" and b: "b \<notin> set (xs @ ys)" and x: "x \<notin> set (a # b # xs @ ys)"
  shows "chain (nx(last (a # xs) \<mapsto> x, x \<mapsto> hd (ys @ [b]))) (pv(x \<mapsto> last (a # xs), hd (ys @ [b]) \<mapsto> x)) a (xs @ x # ys) b"
proof -
  let ?c = "hd (ys @ [b])" and ?l = "last (a # xs)"
  let ?nx = "nx(?l \<mapsto> x, x \<mapsto> ?c)" and ?pv = "pv(x \<mapsto> ?l, ?c \<mapsto> x)"
  have l: "?l \<in> set (a # xs)" by (rule last_in_set) simp
  have C: "chain nx pv a xs ?c" "ys \<noteq> [] \<Longrightarrow> chain nx pv (hd ys) (tl ys) b"
    using C by (cases ys; simp add: chain_append)+
  have c: "?c \<notin> set xs" "x \<noteq> ?c" using d b x by (cases ys; auto)+
  have "chain (nx(?l \<mapsto> x)) (pv(x \<mapsto> ?l)) a xs x" using chain_retarget [OF C(1)] d x by auto
  then have L: "chain ?nx ?pv a xs x" by (rule chain_cong) (use x c in auto)
  have "chain ?nx ?pv x ys b"
  proof (cases ys)
    case (Cons y zs)
    have "chain ?nx ?pv y zs b" by (rule chain_cong [of nx pv]) (use C(2) Cons d b x l in auto)
    then show ?thesis using Cons by simp
  qed simp
  with L show ?thesis by (simp add: chain_append)
qed

end
