(* ===== verification/Qm_Heap.thy ===== *)
theory Qm_Heap
  imports Qm_Lists
begin

text \<open>
  The invariant of a block: fragments in a row from the first to the last, each free one on the
  list of its size class. Putting a fragment on its list and taking it off keep it.
\<close>

subsection \<open>The row of fragments\<close>

type_synonym frag = "nat \<times> nat \<times> bool"

text \<open>Address, size and whether it is free; the next one starts behind the end of this one.\<close>

fun contig :: "nat \<Rightarrow> frag list \<Rightarrow> nat \<Rightarrow> bool" where
  "contig a [] e \<longleftrightarrow> a = e"
| "contig a ((f, s, b) # xs) e \<longleftrightarrow> f = a \<and> contig (f + s + 96) xs e"

lemma contig_append: "contig a (xs @ (f, s, b) # ys) e \<longleftrightarrow> contig a xs f \<and> contig (f + s + 96) ys e"
  by (induction a xs e rule: contig.induct) auto

lemma contig_le: "contig a xs e \<Longrightarrow> a \<le> e"
  by (induction a xs e rule: contig.induct) auto

lemma contig_bounds: "contig a xs e \<Longrightarrow> (f, s, b) \<in> set xs \<Longrightarrow> a \<le> f \<and> f + s + 96 \<le> e"
  using contig_le by (induction a xs e rule: contig.induct) fastforce+

lemma contig_apart:
  assumes "contig a xs e" "(f, s, b) \<in> set xs" "(g, t, c) \<in> set xs"
  shows "(f, s, b) = (g, t, c) \<or> f + s + 96 \<le> g \<or> g + t + 96 \<le> f"
proof -
  obtain us vs where xs: "xs = us @ (f, s, b) # vs" using split_list [OF assms(2)] by blast
  with assms(1) have "contig a us f" "contig (f + s + 96) vs e" by (simp_all add: contig_append)
  with assms(3) xs contig_bounds show ?thesis by fastforce
qed

lemma contig_unique: "contig a xs e \<Longrightarrow> (f, s, b) \<in> set xs \<Longrightarrow> (f, t, c) \<in> set xs \<Longrightarrow> t = s \<and> c = b"
  using contig_apart [of a xs e f s b f t c] by auto

lemma contig_distinct: "contig a xs e \<Longrightarrow> distinct (map fst xs)"
proof (induction a xs e rule: contig.induct)
  case (2 a f s b xs e)
  then have "f \<notin> fst ` set xs" using contig_bounds [of "f + s + 96" xs e] by fastforce
  then show ?case using 2 by auto
qed simp

subsection \<open>Blocks\<close>

definition frag_ok :: "qm_block \<Rightarrow> nat \<Rightarrow> nat \<Rightarrow> bool" where
  "frag_ok m f s \<longleftrightarrow> frag_size m f = Some s \<and> frag_check m f = Some ST_CHECK_PATTERN \<and> end_size m (f + 48 + s) = Some s \<and>
     end_check1 m (f + 48 + s) = Some END_CHECK_PATTERN1 \<and> end_check2 m (f + 48 + s) = Some END_CHECK_PATTERN2 \<and> 8 dvd s"

definition block_ok :: "qm_block \<Rightarrow> frag list \<Rightarrow> bool" where
  "block_ok m xs \<longleftrightarrow> contig (first_frag m) xs (last_frag_end m + 48) \<and> xs \<noteq> [] \<and> (\<forall>(f, s, b) \<in> set xs. frag_ok m f s) \<and>
     0 < qm_addr m \<and> 8 dvd qm_addr m \<and> first_frag m = qm_addr m + QM_BLOCK_SIZE \<and> last_frag_end m + 48 \<le> 2 ^ 64 \<and>
     (\<forall>h < QM_HASH_SIZE. frag_size m (free_head m h) = Some 0)"

definition endp :: "qm_block \<Rightarrow> nat \<Rightarrow> nat" where
  "endp m x = x + 48 + the (frag_size m x)"

abbreviation fsize :: "qm_block \<Rightarrow> nat \<Rightarrow> nat" where
  "fsize m f \<equiv> the (frag_size m f)"

abbreviation prevp :: "qm_block \<Rightarrow> nat \<Rightarrow> nat option" where
  "prevp m \<equiv> \<lambda>x. prev_free m (endp m x)"

text \<open>The list of size class \<open>h\<close> is \<open>bk h\<close>, sorted by size, and holds the free fragments of that class.\<close>

definition list_ok :: "qm_block \<Rightarrow> frag list \<Rightarrow> nat \<Rightarrow> nat list \<Rightarrow> bool" where
  "list_ok m xs h l \<longleftrightarrow> chain (nxt_free m) (prevp m) (free_head m h) l (free_head m h) \<and> distinct l \<and> sorted (map (fsize m) l) \<and>
     (\<forall>f. f \<in> set l \<longleftrightarrow> (\<exists>s. (f, s, True) \<in> set xs \<and> GET_HASH s = Some h))"

definition lists_ok :: "qm_block \<Rightarrow> frag list \<Rightarrow> (nat \<Rightarrow> nat list) \<Rightarrow> bool" where
  "lists_ok m xs bk \<longleftrightarrow> (\<forall>h < QM_HASH_SIZE. list_ok m xs h (bk h))"

lemma block_okD:
  assumes "block_ok m xs"
  shows "contig (first_frag m) xs (last_frag_end m + 48)" "(f, s, b) \<in> set xs \<Longrightarrow> frag_ok m f s" "0 < qm_addr m"
    "first_frag m = qm_addr m + QM_BLOCK_SIZE" "last_frag_end m + 48 \<le> 2 ^ 64" "h < QM_HASH_SIZE \<Longrightarrow> frag_size m (free_head m h) = Some 0"
    "xs \<noteq> []" "8 dvd qm_addr m"
  using assms by (auto simp: block_ok_def)

lemma frag_okD:
  assumes "frag_ok m f s"
  shows "frag_size m f = Some s" "frag_check m f = Some ST_CHECK_PATTERN" "end_size m (f + 48 + s) = Some s"
    "end_check1 m (f + 48 + s) = Some END_CHECK_PATTERN1" "end_check2 m (f + 48 + s) = Some END_CHECK_PATTERN2" "8 dvd s"
  using assms by (simp_all add: frag_ok_def)

lemma block_ok_cong:
  assumes "block_ok m xs" "first_frag m' = first_frag m" "last_frag_end m' = last_frag_end m" "qm_addr m' = qm_addr m"
    "frag_size m' = frag_size m" "frag_check m' = frag_check m" "end_size m' = end_size m" "end_check1 m' = end_check1 m" "end_check2 m' = end_check2 m"
  shows "block_ok m' xs"
  using assms(1) unfolding block_ok_def frag_ok_def free_head_def assms(2-9) .

lemma frag_addr:
  assumes "block_ok m xs" "(f, s, b) \<in> set xs"
  shows "qm_addr m + QM_BLOCK_SIZE \<le> f" "f + s + 96 \<le> last_frag_end m + 48" "s < 2 ^ 64" "frag_size m f = Some s" "endp m f = f + 48 + s" "0 < f"
proof -
  note D = block_okD [OF assms(1)]
  show *: "qm_addr m + QM_BLOCK_SIZE \<le> f" "f + s + 96 \<le> last_frag_end m + 48" using contig_bounds [OF D(1) assms(2)] D(4) by auto
  show "s < 2 ^ 64" using * D(5) by linarith
  show "frag_size m f = Some s" using frag_okD [OF D(2) [OF assms(2)]] by simp
  then show "endp m f = f + 48 + s" by (simp add: endp_def)
  show "0 < f" using * D(3) by linarith
qed

lemma head_addr:
  assumes "h < QM_HASH_SIZE"
  shows "free_head m h + 104 \<le> qm_addr m + QM_BLOCK_SIZE" "qm_addr m \<le> free_head m h"
    "k < QM_HASH_SIZE \<Longrightarrow> free_head m h = free_head m k \<Longrightarrow> h = k"
  using assms by (simp_all add: free_head_def qm_sizes)

definition nodes_of :: "qm_block \<Rightarrow> frag list \<Rightarrow> nat set" where
  "nodes_of m xs = free_head m ` {..<QM_HASH_SIZE} \<union> fst ` set xs"

lemma node_cases:
  assumes "block_ok m xs" "x \<in> nodes_of m xs"
  obtains h where "h < QM_HASH_SIZE" "x = free_head m h" "frag_size m x = Some 0" "endp m x = x + 48" "endp m x < qm_addr m + QM_BLOCK_SIZE"
  | s b where "(x, s, b) \<in> set xs" "frag_size m x = Some s" "endp m x = x + 48 + s" "qm_addr m + QM_BLOCK_SIZE \<le> x"
proof -
  consider h where "h < QM_HASH_SIZE" "x = free_head m h" | s b where "(x, s, b) \<in> set xs" using assms(2) by (auto simp: nodes_of_def)
  then show ?thesis
  proof cases
    case (1 h)
    then show ?thesis using that(1) [OF 1] block_okD(6) [OF assms(1)] head_addr(1) [OF 1(1), of m] by (simp add: endp_def)
  next
    case (2 s b)
    then show ?thesis using that(2) frag_addr [OF assms(1)] by blast
  qed
qed

lemma endp_inj:
  assumes "block_ok m xs" "x \<in> nodes_of m xs" "y \<in> nodes_of m xs" "endp m x = endp m y"
  shows "x = y"
proof (rule node_cases [OF assms(1,2)])
  fix h assume x: "h < QM_HASH_SIZE" "x = free_head m h" "endp m x = x + 48" "endp m x < qm_addr m + QM_BLOCK_SIZE"
  show ?thesis by (rule node_cases [OF assms(1,3)]) (use assms(4) x in auto)
next
  fix s b assume x: "(x, s, b) \<in> set xs" "endp m x = x + 48 + s" "qm_addr m + QM_BLOCK_SIZE \<le> x"
  show ?thesis
  proof (rule node_cases [OF assms(1,3)])
    fix t c assume "(y, t, c) \<in> set xs" "endp m y = y + 48 + t"
    then show ?thesis using contig_apart [OF block_okD(1) [OF assms(1)] x(1), of y t c] x(2) assms(4) by auto
  qed (use assms(4) x in auto)
qed

lemma list_okD:
  assumes "lists_ok m xs bk" "h < QM_HASH_SIZE"
  shows "chain (nxt_free m) (prevp m) (free_head m h) (bk h) (free_head m h)" "distinct (bk h)" "sorted (map (fsize m) (bk h))"
    "f \<in> set (bk h) \<longleftrightarrow> (\<exists>s. (f, s, True) \<in> set xs \<and> GET_HASH s = Some h)"
  using assms by (auto simp: lists_ok_def list_ok_def)

lemma list_nodes:
  assumes "block_ok m xs" "lists_ok m xs bk" "h < QM_HASH_SIZE"
  shows "insert (free_head m h) (set (bk h)) \<subseteq> nodes_of m xs" "free_head m h \<notin> set (bk h)"
proof -
  have f: "f \<in> set (bk h) \<Longrightarrow> f \<in> fst ` set xs \<and> qm_addr m + QM_BLOCK_SIZE \<le> f" for f
    using list_okD(4) [OF assms(2,3)] frag_addr(1) [OF assms(1)] by force
  then show "insert (free_head m h) (set (bk h)) \<subseteq> nodes_of m xs" using assms(3) by (auto simp: nodes_of_def)
  show "free_head m h \<notin> set (bk h)" using f head_addr(1) [OF assms(3), of m] by fastforce
qed

lemma lists_disjoint:
  assumes "block_ok m xs" "lists_ok m xs bk" "h < QM_HASH_SIZE" "k < QM_HASH_SIZE" "h \<noteq> k"
    and "x \<in> insert (free_head m h) (set (bk h))" "y \<in> insert (free_head m k) (set (bk k))"
  shows "x \<noteq> y"
proof
  assume eq: "x = y"
  have low: "free_head m i \<notin> set (bk j)" if "i < QM_HASH_SIZE" "j < QM_HASH_SIZE" for i j
    using list_okD(4) [OF assms(2) that(2)] frag_addr(1) [OF assms(1)] head_addr(1) [OF that(1), of m] by fastforce
  show False
  proof (cases "x \<in> set (bk h)")
    case True
    then have "y \<in> set (bk k)" using eq assms(7) low [OF assms(4,3)] by auto
    then show False using True eq list_okD(4) [OF assms(2)] assms(3-5) contig_unique [OF block_okD(1) [OF assms(1)]] by fastforce
  next
    case False
    then show False using eq assms(3-7) low head_addr(3) [OF assms(3), of k m] by auto
  qed
qed

text \<open>Counters and bytes are not part of the structure.\<close>

lemma endp_upd [simp]:
  "endp (m\<lparr>nxt_free := nx\<rparr>) = endp m" "endp (m\<lparr>prev_free := pv\<rparr>) = endp m" "endp (m\<lparr>real_used := i\<rparr>) = endp m"
  "endp (m\<lparr>qm_used := i\<rparr>) = endp m" "endp (m\<lparr>free_no := no\<rparr>) = endp m" "endp (m\<lparr>max_real_used := i\<rparr>) = endp m"
  "endp (m\<lparr>fragments := i\<rparr>) = endp m" "endp (m\<lparr>qm_data := d\<rparr>) = endp m"
  by (rule ext, simp add: endp_def)+

lemma free_head_upd [simp]:
  "free_head (m\<lparr>nxt_free := nx\<rparr>) = free_head m" "free_head (m\<lparr>prev_free := pv\<rparr>) = free_head m" "free_head (m\<lparr>real_used := i\<rparr>) = free_head m"
  "free_head (m\<lparr>qm_used := i\<rparr>) = free_head m" "free_head (m\<lparr>free_no := no\<rparr>) = free_head m" "free_head (m\<lparr>max_real_used := i\<rparr>) = free_head m"
  "free_head (m\<lparr>fragments := i\<rparr>) = free_head m" "free_head (m\<lparr>qm_data := d\<rparr>) = free_head m"
  "free_head (m\<lparr>frag_size := z\<rparr>) = free_head m" "free_head (m\<lparr>end_size := z\<rparr>) = free_head m" "free_head (m\<lparr>frag_check := c\<rparr>) = free_head m"
  "free_head (m\<lparr>end_check1 := c\<rparr>) = free_head m" "free_head (m\<lparr>end_check2 := c\<rparr>) = free_head m"
  by (rule ext, simp add: free_head_def)+

lemma block_ok_upd [simp]:
  "block_ok (m\<lparr>nxt_free := nx\<rparr>) = block_ok m" "block_ok (m\<lparr>prev_free := pv\<rparr>) = block_ok m" "block_ok (m\<lparr>real_used := i\<rparr>) = block_ok m"
  "block_ok (m\<lparr>qm_used := i\<rparr>) = block_ok m" "block_ok (m\<lparr>free_no := no\<rparr>) = block_ok m" "block_ok (m\<lparr>max_real_used := i\<rparr>) = block_ok m"
  "block_ok (m\<lparr>fragments := i\<rparr>) = block_ok m" "block_ok (m\<lparr>qm_data := d\<rparr>) = block_ok m"
  by (rule ext, simp add: block_ok_def frag_ok_def)+

lemma lists_ok_upd [simp]:
  "lists_ok (m\<lparr>real_used := i\<rparr>) = lists_ok m" "lists_ok (m\<lparr>qm_used := i\<rparr>) = lists_ok m" "lists_ok (m\<lparr>free_no := no\<rparr>) = lists_ok m"
  "lists_ok (m\<lparr>max_real_used := i\<rparr>) = lists_ok m" "lists_ok (m\<lparr>fragments := i\<rparr>) = lists_ok m" "lists_ok (m\<lparr>qm_data := d\<rparr>) = lists_ok m"
  by (rule ext, rule ext, simp add: lists_ok_def list_ok_def)+

lemma block_ok_flag: "block_ok m (us @ (f, s, b) # vs) = block_ok m (us @ (f, s, c) # vs)"
  by (auto simp: block_ok_def contig_append)

lemma free_frags:
  assumes "contig a (us @ (f, s, b) # vs) e"
  shows "(g, t, True) \<in> set (us @ (f, s, True) # vs) \<longleftrightarrow> (g, t, True) \<in> set (us @ (f, s, False) # vs) \<or> g = f \<and> t = s"
    "(f, t, True) \<notin> set (us @ (f, s, False) # vs)"
proof -
  have "f \<notin> fst ` set us" "f \<notin> fst ` set vs" using contig_distinct [OF assms] by auto
  then show "(f, t, True) \<notin> set (us @ (f, s, False) # vs)" by force
qed auto

subsection \<open>Taking a fragment off its list\<close>

lemma prevp_upd:
  assumes "block_ok m xs" "c \<in> nodes_of m xs" "y \<in> nodes_of m xs"
  shows "((prev_free m)(endp m c \<mapsto> v)) (endp m y) = ((prevp m)(c \<mapsto> v)) y"
  using endp_inj [OF assms] by auto

text \<open>The flags: which fragments look free.\<close>

definition keeps_flags :: "(nat \<rightharpoonup> nat) \<Rightarrow> (nat \<rightharpoonup> nat) \<Rightarrow> nat set \<Rightarrow> bool" where
  "keeps_flags nx nx' F \<longleftrightarrow> (\<forall>g. g \<notin> F \<longrightarrow> (nx' g = Some 0) = (nx g = Some 0) \<and> (nx' g = None) = (nx g = None))"

lemma node_pos: "block_ok m xs \<Longrightarrow> x \<in> nodes_of m xs \<Longrightarrow> 0 < x"
  using head_addr(2) [of _ m] block_okD(3) [of m xs] frag_addr(6) [of m xs] by (fastforce simp: nodes_of_def)

lemma chain_prevp:
  assumes "chain nx pv a l a" "insert a (set l) \<subseteq> S" "\<And>y. y \<in> S \<Longrightarrow> pv' y = pv y"
  shows "chain nx pv' a l a"
  by (rule chain_cong [OF assms(1)]) (use assms(2,3) in \<open>auto simp del: fun_upd_apply\<close>)

text \<open>A list of another class does not notice.\<close>

lemma list_ok_other:
  assumes B: "block_ok m xs" and L: "lists_ok m xs bk" and k: "h < QM_HASH_SIZE" "k < QM_HASH_SIZE" "k \<noteq> h"
    and nx: "\<And>y. y \<in> insert (free_head m k) (set (bk k)) \<Longrightarrow> nx y = nxt_free m y"
    and pv: "\<And>y. y \<in> insert (free_head m k) (set (bk k)) \<Longrightarrow> pv (endp m y) = prevp m y"
    and ys: "\<And>g t. GET_HASH t \<noteq> Some h \<Longrightarrow> (g, t, True) \<in> set ys \<longleftrightarrow> (g, t, True) \<in> set xs"
  shows "list_ok (m\<lparr>nxt_free := nx, prev_free := pv\<rparr>) ys k (bk k)"
proof -
  note K = list_okD [OF L k(2)]
  have "chain nx (\<lambda>y. pv (endp m y)) (free_head m k) (bk k) (free_head m k)"
    by (rule chain_cong [OF K(1)]) (use nx pv in blast)+
  moreover have "g \<in> set (bk k) \<longleftrightarrow> (\<exists>t. (g, t, True) \<in> set ys \<and> GET_HASH t = Some k)" for g
    using K(4) [of g] ys k(3) by (metis option.inject)
  ultimately show ?thesis using K(2,3) by (simp add: list_ok_def)
qed

lemma detach_ok:
  assumes B: "block_ok m (us @ (f, s, True) # vs)" and L: "lists_ok m (us @ (f, s, True) # vs) bk"
    and h: "GET_HASH s = Some h" "h < QM_HASH_SIZE"
  shows "\<exists>nx pv. qm_detach_free m f = Some (m\<lparr>nxt_free := nx, prev_free := pv, real_used := real_used m + int s, qm_used := qm_used m + int s\<rparr>) \<and>
     lists_ok (m\<lparr>nxt_free := nx, prev_free := pv\<rparr>) (us @ (f, s, False) # vs) (bk(h := remove1 f (bk h))) \<and>
     keeps_flags (nxt_free m) nx {} \<and> f \<in> set (bk h)"
proof -
  let ?xs = "us @ (f, s, True) # vs" and ?ys = "us @ (f, s, False) # vs" and ?hd = "free_head m h"
  note D = list_okD [OF L h(2)] and N = list_nodes [OF B L h(2)] and F = free_frags [OF block_okD(1) [OF B]]
  have f: "f \<in> set (bk h)" using D(4) h(1) by auto
  then obtain ps qs where bk: "bk h = ps @ f # qs" using split_list by metis
  define p n where "p = last (?hd # ps)" and "n = hd (qs @ [?hd])"
  have d: "distinct (?hd # ps @ f # qs)" using D(2) N(2) bk by auto
  have C: "chain (nxt_free m) (prevp m) ?hd (ps @ f # qs) ?hd" using D(1) bk by simp
  then have ends: "prevp m f = Some p" "nxt_free m f = Some n" unfolding p_def n_def using chain_ends by (fastforce simp: chain_append)+
  have np: "nxt_free m p = Some f" unfolding p_def using C by (cases ps rule: rev_cases) (auto simp: chain_append)
  have nodes: "p \<in> insert ?hd (set (bk h))" "n \<in> insert ?hd (set (bk h))"
    unfolding p_def n_def using bk last_in_set [of "?hd # ps"] hd_in_set [of "qs @ [?hd]"] by auto
  then have nodes': "p \<in> nodes_of m ?xs" "n \<in> nodes_of m ?xs" using N(1) by auto
  have fs: "frag_size m f = Some s" "0 < f" using frag_addr(4,6) [OF B, of f s True] by simp_all
  have ns: "frag_size m n \<noteq> None" by (rule node_cases [OF B nodes'(2)]) auto
  define nx pv where "nx = (nxt_free m)(p \<mapsto> n)" and "pv = (prev_free m)(endp m n \<mapsto> p)"
  let ?m = "m\<lparr>nxt_free := nx, prev_free := pv\<rparr>"
  have run: "qm_detach_free m f = Some (?m\<lparr>real_used := real_used m + int s, qm_used := qm_used m + int s\<rparr>)"
    using fs ends ns unfolding nx_def pv_def by (auto simp: qm_detach_free_def FRAG_END_def endp_def qm_sizes)
  have pv: "pv (endp m y) = ((prevp m)(n \<mapsto> p)) y" if "y \<in> nodes_of m ?xs" for y unfolding pv_def by (rule prevp_upd [OF B nodes'(2) that])
  have "list_ok ?m ?ys h (remove1 f (bk h))"
  proof -
    have "chain nx ((prevp m)(n \<mapsto> p)) ?hd (ps @ qs) ?hd" unfolding nx_def p_def n_def using chain_unlink [OF C d] N(2) bk by simp
    then have "chain nx (\<lambda>y. pv (endp m y)) ?hd (ps @ qs) ?hd"
      by (rule chain_prevp [where S = "nodes_of m ?xs"]) (use N(1) bk pv in \<open>simp_all del: fun_upd_apply\<close>)
    moreover have "remove1 f (bk h) = ps @ qs" using bk d by (simp add: remove1_append)
    moreover have "g \<in> set (ps @ qs) \<longleftrightarrow> (\<exists>t. (g, t, True) \<in> set ?ys \<and> GET_HASH t = Some h)" for g
      using D(4) [of g] bk d F by (cases "g = f") auto
    ultimately show ?thesis using D(3) d bk by (simp add: list_ok_def sorted_append)
  qed
  moreover have "list_ok ?m ?ys k (bk k)" if k: "k < QM_HASH_SIZE" "k \<noteq> h" for k
  proof (rule list_ok_other [OF B L h(2) k])
    fix y assume y: "y \<in> insert (free_head m k) (set (bk k))"
    then have ne: "y \<noteq> p" "y \<noteq> n" using lists_disjoint [OF B L h(2) k(1)] k(2) nodes by metis+
    then show "nx y = nxt_free m y" by (simp add: nx_def)
    have "y \<in> nodes_of m ?xs" using y list_nodes(1) [OF B L k(1)] by blast
    then show "pv (endp m y) = prevp m y" using pv ne by simp
  qed (use F h(1) in auto)
  ultimately have "lists_ok ?m ?ys (bk(h := remove1 f (bk h)))" by (simp add: lists_ok_def)
  moreover have "keeps_flags (nxt_free m) nx {}" using node_pos [OF B nodes'(2)] np fs(2) by (auto simp: keeps_flags_def nx_def)
  ultimately show ?thesis using run f by (intro exI [of _ nx] exI [of _ pv]) simp
qed

subsection \<open>Putting a fragment on its list\<close>

lemma insert_pos_ok:
  assumes "chain (nxt_free m) pv a l head" "head \<notin> set l" "\<forall>f \<in> set l. frag_size m f \<noteq> None"
  shows "insert_pos m head s (hd (l @ [head])) = Some (hd (dropWhile (\<lambda>f. fsize m f < s) l @ [head]))"
  using assms
proof (induction l arbitrary: a)
  case Nil
  show ?case by (subst insert_pos.simps) simp
next
  case (Cons x l)
  then obtain t where t: "frag_size m x = Some t" by auto
  have "nxt_free m x = Some (hd (l @ [head]))" using Cons.prems(1) chain_ends by fastforce
  then show ?case using Cons t by (subst insert_pos.simps) auto
qed

lemma chain_mid:
  assumes "chain nx pv a (xs @ ys) b"
  shows "pv (hd (ys @ [b])) = Some (last (a # xs))" "nx (last (a # xs)) = Some (hd (ys @ [b]))"
  using assms by (induction xs arbitrary: a) (cases ys; auto)+

lemma sorted_around:
  assumes "sorted (map g l)" "g x = s"
  shows "sorted (map g (takeWhile (\<lambda>f. g f < s) l @ x # dropWhile (\<lambda>f. g f < s) l))"
proof -
  have "s \<le> g y" if "y \<in> set (dropWhile (\<lambda>f. g f < s) l)" for y
    using assms(1) that
  proof (induction l)
    case (Cons z l)
    then show ?case by (cases "g z < s") auto
  qed simp
  moreover have "g y < s" if "y \<in> set (takeWhile (\<lambda>f. g f < s) l)" for y using set_takeWhileD [OF that] by simp
  moreover have "sorted (map g (takeWhile (\<lambda>f. g f < s) l))" "sorted (map g (dropWhile (\<lambda>f. g f < s) l))"
    using assms(1) by (metis map_append sorted_append takeWhile_dropWhile_id)+
  ultimately show ?thesis using assms(2) by (force simp: sorted_append)
qed

definition put_free :: "qm_block \<Rightarrow> nat \<Rightarrow> nat list \<Rightarrow> nat list" where
  "put_free m f l = takeWhile (\<lambda>g. fsize m g < fsize m f) l @ f # dropWhile (\<lambda>g. fsize m g < fsize m f) l"

lemma put_free_set: "set (put_free m f l) = insert f (set l)" "length (put_free m f l) = length l + 1"
proof -
  have "set (takeWhile P l) \<union> set (dropWhile P l) = set l" for P by (metis set_append takeWhile_dropWhile_id)
  then show "set (put_free m f l) = insert f (set l)" by (auto simp: put_free_def)
  have "length (takeWhile P l) + length (dropWhile P l) = length l" for P by (metis length_append takeWhile_dropWhile_id)
  then show "length (put_free m f l) = length l + 1" by (simp add: put_free_def)
qed

lemma insert_ok:
  assumes B: "block_ok m (us @ (f, s, False) # vs)" and L: "lists_ok m (us @ (f, s, False) # vs) bk"
    and h: "GET_HASH s = Some h" "h < QM_HASH_SIZE"
  shows "\<exists>nx pv. qm_insert_free m f = Some (m\<lparr>nxt_free := nx, prev_free := pv, free_no := (free_no m)(h := free_no m h + 1),
       real_used := real_used m - int s, qm_used := qm_used m - int s\<rparr>) \<and>
     lists_ok (m\<lparr>nxt_free := nx, prev_free := pv\<rparr>) (us @ (f, s, True) # vs) (bk(h := put_free m f (bk h))) \<and>
     keeps_flags (nxt_free m) nx {f} \<and> (\<exists>n. nx f = Some n \<and> n \<noteq> 0) \<and> f \<notin> set (bk h)"
proof -
  let ?xs = "us @ (f, s, False) # vs" and ?ys = "us @ (f, s, True) # vs" and ?hd = "free_head m h"
  note D = list_okD [OF L h(2)] and N = list_nodes [OF B L h(2)] and F = free_frags [OF block_okD(1) [OF B]]
  have fs: "frag_size m f = Some s" "0 < f" "f \<in> nodes_of m ?xs" using frag_addr(4,6) [OF B, of f s False] by (simp_all add: nodes_of_def)
  have f: "f \<notin> set (bk h)" using D(4) F(2) by blast
  define ps qs where "ps = takeWhile (\<lambda>g. fsize m g < s) (bk h)" and "qs = dropWhile (\<lambda>g. fsize m g < s) (bk h)"
  have bk: "bk h = ps @ qs" by (simp add: ps_def qs_def)
  have put: "put_free m f (bk h) = ps @ f # qs" by (simp add: put_free_def ps_def qs_def fs)
  define p n where "p = last (?hd # ps)" and "n = hd (qs @ [?hd])"
  have C: "chain (nxt_free m) (prevp m) ?hd (ps @ qs) ?hd" using D(1) bk by simp
  have ends: "prevp m n = Some p" "nxt_free m ?hd = Some (hd (bk h @ [?hd]))" "nxt_free m p = Some n"
    unfolding p_def n_def using chain_mid [OF C] chain_ends [OF D(1)] by blast+
  have nodes: "p \<in> insert ?hd (set (bk h))" "n \<in> insert ?hd (set (bk h))"
    unfolding p_def n_def using bk last_in_set [of "?hd # ps"] hd_in_set [of "qs @ [?hd]"] by auto
  then have nodes': "p \<in> nodes_of m ?xs" "n \<in> nodes_of m ?xs" using N(1) by auto
  have sz: "\<forall>g \<in> nodes_of m ?xs. frag_size m g \<noteq> None" using node_cases [OF B] by (metis option.distinct(1))
  have "insert_pos m ?hd s (hd (bk h @ [?hd])) = Some n"
    unfolding n_def qs_def by (rule insert_pos_ok [OF D(1) N(2)]) (use N(1) sz in auto)
  moreover have "f \<noteq> n" "f \<noteq> p" using nodes f fs(3) head_addr(1) [OF h(2), of m] frag_addr(1) [OF B, of f s False] by auto
  moreover have "endp m f \<noteq> endp m n" using endp_inj [OF B fs(3) nodes'(2)] \<open>f \<noteq> n\<close> by blast
  define nx pv where "nx = (nxt_free m)(p \<mapsto> f, f \<mapsto> n)" and "pv = (prev_free m)(endp m f \<mapsto> p, endp m n \<mapsto> f)"
  let ?m = "m\<lparr>nxt_free := nx, prev_free := pv\<rparr>"
  have run: "qm_insert_free m f = Some (?m\<lparr>free_no := (free_no m)(h := free_no m h + 1), real_used := real_used m - int s, qm_used := qm_used m - int s\<rparr>)"
    using fs ends sz nodes' calculation h(1) unfolding nx_def pv_def by (auto simp: qm_insert_free_def FRAG_END_def endp_def qm_sizes)
  have pv: "pv (endp m y) = ((prevp m)(f \<mapsto> p, n \<mapsto> f)) y" if "y \<in> nodes_of m ?xs" for y
    unfolding pv_def using endp_inj [OF B that] fs(3) nodes'(2) by auto
  have "list_ok ?m ?ys h (put_free m f (bk h))"
  proof -
    have d: "distinct (?hd # ps @ qs)" "?hd \<notin> set (ps @ qs)" "f \<notin> set (?hd # ?hd # ps @ qs)"
      using D(2) N(2) bk f fs(3) head_addr(1) [OF h(2), of m] frag_addr(1) [OF B, of f s False] by auto
    have "chain nx ((prevp m)(f \<mapsto> p, n \<mapsto> f)) ?hd (ps @ f # qs) ?hd" unfolding nx_def p_def n_def by (rule chain_link [OF C d])
    then have "chain nx (\<lambda>y. pv (endp m y)) ?hd (ps @ f # qs) ?hd"
      by (rule chain_prevp [where S = "nodes_of m ?xs"]) (use N(1) bk pv fs(3) in \<open>simp_all del: fun_upd_apply\<close>)
    moreover have "sorted (map (fsize m) (put_free m f (bk h)))" unfolding put_free_def by (rule sorted_around [OF D(3)]) simp
    moreover have "g \<in> set (put_free m f (bk h)) \<longleftrightarrow> (\<exists>t. (g, t, True) \<in> set ?ys \<and> GET_HASH t = Some h)" for g
      using D(4) [of g] F(1) [of g] h(1) by (auto simp: put_free_set)
    ultimately show ?thesis using d put by (simp add: list_ok_def)
  qed
  moreover have "list_ok ?m ?ys k (bk k)" if k: "k < QM_HASH_SIZE" "k \<noteq> h" for k
  proof (rule list_ok_other [OF B L h(2) k])
    fix y assume y: "y \<in> insert (free_head m k) (set (bk k))"
    then have "y \<noteq> p" "y \<noteq> n" using lists_disjoint [OF B L h(2) k(1)] k(2) nodes by metis+
    moreover have "y \<noteq> f" using y list_okD(4) [OF L k(1)] F(2) head_addr(1) [OF k(1), of m] frag_addr(1) [OF B, of f s False] by auto
    ultimately have ne: "y \<noteq> p" "y \<noteq> n" "y \<noteq> f" by auto
    then show "nx y = nxt_free m y" by (simp add: nx_def)
    have "y \<in> nodes_of m ?xs" using y list_nodes(1) [OF B L k(1)] by blast
    then show "pv (endp m y) = prevp m y" using pv ne by simp
  qed (use F h(1) in auto)
  ultimately have "lists_ok ?m ?ys (bk(h := put_free m f (bk h)))" by (simp add: lists_ok_def)
  moreover have "keeps_flags (nxt_free m) nx {f}" using node_pos [OF B nodes'(2)] ends(3) fs(2) by (auto simp: keeps_flags_def nx_def)
  moreover have "\<exists>n. nx f = Some n \<and> n \<noteq> 0" using node_pos [OF B nodes'(2)] by (simp add: nx_def)
  ultimately show ?thesis using run f by (intro exI [of _ nx] exI [of _ pv]) simp
qed

end
