(* ===== verification/Qm_Ops.thy ===== *)
theory Qm_Ops
  imports Qm_Heap
begin

text \<open>
  The steps of the allocator on a well-formed block: searching, checking, taking, splitting, joining
  and putting back fragments.
\<close>

subsection \<open>Well-formed blocks\<close>

fun free_bytes :: "frag list \<Rightarrow> nat" where
  "free_bytes [] = 0"
| "free_bytes ((f, s, b) # xs) = (if b then s else 0) + free_bytes xs"

fun used_bytes :: "frag list \<Rightarrow> nat" where
  "used_bytes [] = 0"
| "used_bytes ((f, s, b) # xs) = (if b then 0 else s) + used_bytes xs"

lemma bytes_append [simp]:
  "free_bytes (xs @ ys) = free_bytes xs + free_bytes ys" "used_bytes (xs @ ys) = used_bytes xs + used_bytes ys"
  by (induction xs) auto

text \<open>
  The fragments in \<open>X\<close> may look free or not; \<open>d\<close> bytes are counted as used although they are in no
  fragment. Both are empty between calls.
\<close>

definition flags_ok :: "qm_block \<Rightarrow> frag list \<Rightarrow> nat set \<Rightarrow> bool" where
  "flags_ok m xs X \<longleftrightarrow> (\<forall>(f, s, b) \<in> set xs. f \<notin> X \<longrightarrow> (\<exists>n. nxt_free m f = Some n \<and> (b \<longleftrightarrow> n \<noteq> 0)))"

definition counts_ok :: "qm_block \<Rightarrow> (nat \<Rightarrow> nat list) \<Rightarrow> bool" where
  "counts_ok m bk \<longleftrightarrow> (\<forall>h < QM_HASH_SIZE. free_no m h = int (length (bk h)))"

definition bytes_ok :: "qm_block \<Rightarrow> frag list \<Rightarrow> nat \<Rightarrow> bool" where
  "bytes_ok m xs d \<longleftrightarrow> qm_used m = int (used_bytes xs) + int d \<and> real_used m = qm_size m - int (free_bytes xs)"

definition qm_st :: "qm_block \<Rightarrow> frag list \<Rightarrow> (nat \<Rightarrow> nat list) \<Rightarrow> nat set \<Rightarrow> nat \<Rightarrow> bool" where
  "qm_st m xs bk X d \<longleftrightarrow> block_ok m xs \<and> lists_ok m xs bk \<and> flags_ok m xs X \<and> counts_ok m bk \<and> bytes_ok m xs d"

text \<open>What no step changes.\<close>

definition same_env :: "qm_block \<Rightarrow> qm_block \<Rightarrow> bool" where
  "same_env m m' \<longleftrightarrow> qm_addr m' = qm_addr m \<and> qm_size m' = qm_size m \<and> first_frag m' = first_frag m \<and> last_frag_end m' = last_frag_end m \<and>
     fragments m' = fragments m \<and> max_real_used m' = max_real_used m \<and> qm_data m' = qm_data m"

text \<open>
  What freeing leaves in memory that is no longer a header or an end: the check patterns, and
  whether a fragment looks free, except for those in \<open>F\<close>.
\<close>

definition leaves :: "qm_block \<Rightarrow> qm_block \<Rightarrow> nat set \<Rightarrow> bool" where
  "leaves m m' F \<longleftrightarrow> keeps_flags (nxt_free m) (nxt_free m') F \<and> frag_check m' = frag_check m \<and>
     end_check1 m' = end_check1 m \<and> end_check2 m' = end_check2 m \<and> frag_size m' = frag_size m \<and> end_size m' = end_size m"

lemma leaves_refl [simp]: "leaves m m F"
  by (simp add: leaves_def keeps_flags_def)

lemma leaves_trans: "leaves a b F \<Longrightarrow> leaves b c G \<Longrightarrow> leaves a c (F \<union> G)"
  unfolding leaves_def keeps_flags_def by auto

lemma same_env_refl [simp]: "same_env m m"
  by (simp add: same_env_def)

lemma same_env_trans: "same_env a b \<Longrightarrow> same_env b c \<Longrightarrow> same_env a c"
  by (simp add: same_env_def)

lemma qm_stD:
  assumes "qm_st m xs bk X d"
  shows "block_ok m xs" "lists_ok m xs bk" "flags_ok m xs X" "counts_ok m bk" "bytes_ok m xs d"
  using assms by (simp_all add: qm_st_def)

lemma flags_transfer:
  assumes "flags_ok m xs X" "keeps_flags (nxt_free m) (nxt_free m') F"
    and new: "\<And>g t b. (g, t, b) \<in> set ys \<Longrightarrow> g \<notin> Y \<Longrightarrow> (g, t, b) \<in> set xs \<and> g \<notin> X \<and> g \<notin> F \<or> (\<exists>n. nxt_free m' g = Some n \<and> (b \<longleftrightarrow> n \<noteq> 0))"
  shows "flags_ok m' ys Y"
proof -
  have "\<exists>n. nxt_free m' g = Some n \<and> (b \<longleftrightarrow> n \<noteq> 0)" if g: "(g, t, b) \<in> set xs" "g \<notin> X" "g \<notin> F" for g t b
  proof -
    obtain n where n: "nxt_free m g = Some n" "b \<longleftrightarrow> n \<noteq> 0" using assms(1) g(1,2) by (auto simp: flags_ok_def)
    then show ?thesis using assms(2) g(3) unfolding keeps_flags_def by (cases "nxt_free m' g") force+
  qed
  with new show ?thesis unfolding flags_ok_def by blast
qed

lemma keeps_flags_refl [simp]: "keeps_flags nx nx F"
  by (simp add: keeps_flags_def)

lemma st_hash:
  assumes "qm_st m xs bk X d" "(f, s, b) \<in> set xs"
  obtains h where "GET_HASH s = Some h" "h < QM_HASH_SIZE"
  using GET_HASH_ok frag_addr(3) [OF qm_stD(1) [OF assms(1)] assms(2)] by blast

subsection \<open>Taking a free fragment\<close>

text \<open>Off its list, with the counter of the list, still looking free.\<close>

lemma take_ok:
  assumes S: "qm_st m (us @ (f, s, True) # vs) bk X d"
  shows "\<exists>nx pv h bk'. GET_HASH s = Some h \<and> h < QM_HASH_SIZE \<and>
     qm_detach_free m f = Some (m\<lparr>nxt_free := nx, prev_free := pv, real_used := real_used m + int s, qm_used := qm_used m + int s\<rparr>) \<and>
     qm_st (m\<lparr>nxt_free := nx, prev_free := pv, real_used := real_used m + int s, qm_used := qm_used m + int s, free_no := (free_no m)(h := free_no m h - 1)\<rparr>)
       (us @ (f, s, False) # vs) bk' (insert f X) d \<and> keeps_flags (nxt_free m) nx {}"
proof -
  note D = qm_stD [OF S]
  obtain h where h: "GET_HASH s = Some h" "h < QM_HASH_SIZE" using st_hash [OF S, of f s True] by auto
  obtain nx pv where run: "qm_detach_free m f = Some (m\<lparr>nxt_free := nx, prev_free := pv, real_used := real_used m + int s, qm_used := qm_used m + int s\<rparr>)"
    and L: "lists_ok (m\<lparr>nxt_free := nx, prev_free := pv\<rparr>) (us @ (f, s, False) # vs) (bk(h := remove1 f (bk h)))"
    and K: "keeps_flags (nxt_free m) nx {}" and f: "f \<in> set (bk h)" using detach_ok [OF D(1,2) h] by blast
  let ?m = "m\<lparr>nxt_free := nx, prev_free := pv, real_used := real_used m + int s, qm_used := qm_used m + int s, free_no := (free_no m)(h := free_no m h - 1)\<rparr>"
  have "block_ok ?m (us @ (f, s, False) # vs)" using D(1) block_ok_flag [of m us f s True vs False] by simp
  moreover have "flags_ok ?m (us @ (f, s, False) # vs) (insert f X)"
    by (rule flags_transfer [OF D(3), where F = "{}"]) (use K in auto)
  moreover have "0 < length (bk h)" using f by (cases "bk h") auto
  then have "counts_ok ?m (bk(h := remove1 f (bk h)))" using D(4) f h by (auto simp: counts_ok_def length_remove1 of_nat_diff Suc_le_eq)
  moreover have "bytes_ok ?m (us @ (f, s, False) # vs) d" using D(5) by (simp add: bytes_ok_def)
  ultimately have "qm_st ?m (us @ (f, s, False) # vs) (bk(h := remove1 f (bk h))) (insert f X) d" using L by (simp add: qm_st_def)
  then show ?thesis using run h K by blast
qed

lemma not_listed:
  assumes "block_ok m xs" "lists_ok m xs bk" "(f, s, False) \<in> set xs" "h < QM_HASH_SIZE"
  shows "f \<notin> insert (free_head m h) (set (bk h))"
proof
  assume "f \<in> insert (free_head m h) (set (bk h))"
  moreover have "f \<noteq> free_head m h" using frag_addr(1) [OF assms(1,3)] head_addr(1) [OF assms(4), of m] by auto
  ultimately obtain t where "(f, t, True) \<in> set xs" using list_okD(4) [OF assms(2,4)] by auto
  then show False using contig_unique [OF block_okD(1) [OF assms(1)] assms(3)] by auto
qed

text \<open>Marked as busy.\<close>

lemma busy_ok:
  assumes S: "qm_st m xs bk (insert f X) d" and f: "(f, s, False) \<in> set xs"
  shows "qm_st (m\<lparr>nxt_free := (nxt_free m)(f \<mapsto> 0)\<rparr>) xs bk X d"
proof -
  note D = qm_stD [OF S]
  let ?m = "m\<lparr>nxt_free := (nxt_free m)(f \<mapsto> 0)\<rparr>"
  have "list_ok ?m xs h (bk h)" if h: "h < QM_HASH_SIZE" for h
  proof -
    note K = list_okD [OF D(2) h]
    have "chain (nxt_free ?m) (prevp m) (free_head m h) (bk h) (free_head m h)"
      by (rule chain_cong [OF K(1)]) (use not_listed [OF D(1,2) f h] in auto)
    then show ?thesis using K(2-4) by (simp add: list_ok_def)
  qed
  moreover have "flags_ok ?m xs X"
  proof (rule flags_transfer [OF D(3), where F = "{f}"])
    show "(g, t, b) \<in> set xs \<and> g \<notin> insert f X \<and> g \<notin> {f} \<or> (\<exists>n. nxt_free ?m g = Some n \<and> (b \<longleftrightarrow> n \<noteq> 0))"
      if "(g, t, b) \<in> set xs" "g \<notin> X" for g t b
      using that contig_unique [OF block_okD(1) [OF D(1)] f, of t b] by (cases "g = f") auto
  qed (simp add: keeps_flags_def)
  ultimately show ?thesis using D by (simp add: qm_st_def lists_ok_def counts_ok_def bytes_ok_def)
qed

subsection \<open>Putting a fragment on its list\<close>

lemma put_ok:
  assumes S: "qm_st m (us @ (f, s, False) # vs) bk (insert f X) d"
  shows "\<exists>m' bk'. qm_insert_free m f = Some m' \<and> qm_st m' (us @ (f, s, True) # vs) bk' X d \<and> same_env m m' \<and> leaves m m' {f}"
proof -
  note D = qm_stD [OF S]
  obtain h where h: "GET_HASH s = Some h" "h < QM_HASH_SIZE" using st_hash [OF S, of f s False] by auto
  obtain nx pv where run: "qm_insert_free m f = Some (m\<lparr>nxt_free := nx, prev_free := pv, free_no := (free_no m)(h := free_no m h + 1),
       real_used := real_used m - int s, qm_used := qm_used m - int s\<rparr>)"
    and L: "lists_ok (m\<lparr>nxt_free := nx, prev_free := pv\<rparr>) (us @ (f, s, True) # vs) (bk(h := put_free m f (bk h)))"
    and K: "keeps_flags (nxt_free m) nx {f}" "\<exists>n. nx f = Some n \<and> n \<noteq> 0" using insert_ok [OF D(1,2) h] by blast
  let ?m = "m\<lparr>nxt_free := nx, prev_free := pv, free_no := (free_no m)(h := free_no m h + 1), real_used := real_used m - int s, qm_used := qm_used m - int s\<rparr>"
  have "block_ok ?m (us @ (f, s, True) # vs)" using D(1) block_ok_flag [of m us f s False vs True] by simp
  moreover have "flags_ok ?m (us @ (f, s, True) # vs) X"
  proof (rule flags_transfer [OF D(3), where F = "{f}"])
    have ne: "f \<noteq> g" if "(g, t, b) \<in> set (us @ vs)" for g t b
      using contig_distinct [OF block_okD(1) [OF D(1)]] that by force
    show "(g, t, b) \<in> set (us @ (f, s, False) # vs) \<and> g \<notin> insert f X \<and> g \<notin> {f} \<or> (\<exists>n. nxt_free ?m g = Some n \<and> (b \<longleftrightarrow> n \<noteq> 0))"
      if "(g, t, b) \<in> set (us @ (f, s, True) # vs)" "g \<notin> X" for g t b
      using that ne [of g t b] K(2) by (cases "g = f") auto
  qed (use K(1) in simp)
  moreover have "counts_ok ?m (bk(h := put_free m f (bk h)))" using D(4) by (simp add: counts_ok_def put_free_set)
  moreover have "bytes_ok ?m (us @ (f, s, True) # vs) d" using D(5) by (simp add: bytes_ok_def)
  ultimately have "qm_st ?m (us @ (f, s, True) # vs) (bk(h := put_free m f (bk h))) X d" using L by (simp add: qm_st_def)
  then show ?thesis using run by (intro exI [of _ ?m] exI [of _ "bk(h := put_free m f (bk h))"]) (use K(1) in \<open>simp add: same_env_def leaves_def\<close>)
qed

subsection \<open>Joining and splitting\<close>

lemma contig_append2: "contig a (xs @ ys) e \<longleftrightarrow> (\<exists>c. contig a xs c \<and> contig c ys e)"
  by (induction xs arbitrary: a) auto

lemma contig_end: "contig a xs c \<Longrightarrow> contig a xs e \<Longrightarrow> c = e"
  by (induction a xs c rule: contig.induct) auto

lemma st_mono: "qm_st m xs bk X d \<Longrightarrow> X \<subseteq> Y \<Longrightarrow> qm_st m xs bk Y d"
  unfolding qm_st_def flags_ok_def by blast

lemma lists_resize:
  assumes "lists_ok m xs bk" "nxt_free m' = nxt_free m" "prev_free m' = prev_free m" "qm_addr m' = qm_addr m"
    and size: "\<And>h x. h < QM_HASH_SIZE \<Longrightarrow> x \<in> insert (free_head m h) (set (bk h)) \<Longrightarrow> frag_size m' x = frag_size m x"
    and same: "\<And>g t. (g, t, True) \<in> set ys \<longleftrightarrow> (g, t, True) \<in> set xs"
  shows "lists_ok m' ys bk"
  unfolding lists_ok_def
proof (intro allI impI)
  fix h assume h: "h < QM_HASH_SIZE"
  note K = list_okD [OF assms(1) h]
  have hd: "free_head m' = free_head m" using assms(4) by (auto simp: free_head_def)
  have endp: "endp m' x = endp m x" if "x \<in> insert (free_head m h) (set (bk h))" for x using size [OF h that] by (simp add: endp_def)
  have "chain (nxt_free m') (prevp m') (free_head m h) (bk h) (free_head m h)"
    by (rule chain_cong [OF K(1)]) (use endp assms(2,3) in auto)
  moreover have "sorted (map (fsize m') (bk h))" by (rule sorted_map_eqI [OF _ K(3)]) (use size [OF h] in simp)
  ultimately show "list_ok m' ys h (bk h)" using K(2,4) same by (simp add: list_ok_def hd)
qed

lemma listed_other:
  assumes "block_ok m xs" "lists_ok m xs bk" "h < QM_HASH_SIZE" "x \<in> insert (free_head m h) (set (bk h))"
    and "a \<le> f" "(a, t, False) \<in> set xs" "f < a + t + 96"
  shows "x \<noteq> f"
proof
  assume "x = f"
  have low: "free_head m h < a" using frag_addr(1) [OF assms(1,6)] head_addr(1) [OF assms(3), of m] by linarith
  then have "x \<in> set (bk h)" using assms(4,5) \<open>x = f\<close> by auto
  then obtain u where "(x, u, True) \<in> set xs" using list_okD(4) [OF assms(2,3)] by auto
  from contig_apart [OF block_okD(1) [OF assms(1)] this assms(6)] show False using assms(5,7) \<open>x = f\<close> by auto
qed

text \<open>A run of busy fragments becomes one: its header gets the size, and so does its end.\<close>

lemma join_ok:
  assumes S: "qm_st m (us @ ws @ vs) bk X (d + e)" and ws: "ws \<noteq> []" "contig f ws (f + z + 96)" "\<forall>(g, t, b) \<in> set ws. \<not> b"
    and e: "used_bytes ws + e = z" and z: "8 dvd z"
  shows "qm_st (m\<lparr>frag_size := (frag_size m)(f \<mapsto> z), end_size := (end_size m)(f + 48 + z \<mapsto> z)\<rparr>) (us @ (f, z, False) # vs) bk (X - fst ` set (tl ws)) d"
    (is "qm_st ?m ?ys bk ?Y d")
proof -
  note D = qm_stD [OF S] and B = block_okD [OF qm_stD(1) [OF S]]
  obtain s ws' where w: "ws = (f, s, False) # ws'" using ws by (cases ws) auto
  obtain c where c: "contig (first_frag m) us c" "contig c (ws @ vs) (last_frag_end m + 48)" using B(1) unfolding contig_append2 [of _ us] by blast
  then have "c = f" using w by simp
  then have row: "contig (first_frag m) ?ys (last_frag_end m + 48)"
    using c ws(2) contig_end unfolding contig_append2 [of _ ws] by (metis append.simps(1) append_Cons contig.simps(2) contig_append2)
  obtain us' g t where l: "ws = us' @ [(g, t, False)]" using ws(1,3) by (cases ws rule: rev_cases) auto
  then have gt: "g + t + 96 = f + z + 96" "(g, t, False) \<in> set ws" using ws(2) by (auto simp: contig_append)
  have sz: "frag_size m f = Some s" using frag_addr(4) [OF D(1), of f s False] w by simp
  have "frag_ok ?m k u" if k: "(k, u, b) \<in> set ?ys" for k u b
  proof (cases "(k, u, b) = (f, z, False)")
    case True
    have "frag_ok m f s" "frag_ok m g t" using B(2) [of f s False] B(2) [of g t False] w gt(2) by auto
    moreover have "g + 48 + t = f + 48 + z" using gt(1) by simp
    ultimately show ?thesis using True z by (simp add: frag_ok_def)
  next
    case False
    then have "(k, u, b) \<in> set (us @ ws @ vs)" using k by auto
    then have "frag_ok m k u" by (rule B(2))
    moreover have "k \<noteq> f" "k + 48 + u \<noteq> f + 48 + z" using contig_apart [OF row k, of f z False] False by auto
    ultimately show ?thesis by (simp add: frag_ok_def)
  qed
  moreover have "frag_size ?m (free_head m h) = Some 0" if "h < QM_HASH_SIZE" for h
    using B(6) [OF that] head_addr(1) [OF that, of m] frag_addr(1) [OF D(1), of f s False] w by auto
  ultimately have "block_ok ?m ?ys" using row B(3-5,8) unfolding block_ok_def by auto
  moreover have "lists_ok ?m ?ys bk"
  proof (rule lists_resize [OF D(2)])
    show "frag_size ?m x = frag_size m x" if "h < QM_HASH_SIZE" "x \<in> insert (free_head m h) (set (bk h))" for h x
      using not_listed [OF D(1,2), of f s h] that w by auto
    show "(k, u, True) \<in> set ?ys \<longleftrightarrow> (k, u, True) \<in> set (us @ ws @ vs)" for k u using ws(3) by auto
  qed simp_all
  moreover have "flags_ok ?m ?ys ?Y"
  proof (rule flags_transfer [OF D(3), where F = "{}"])
    fix k u b assume k: "(k, u, b) \<in> set ?ys" "k \<notin> ?Y"
    have "k \<notin> fst ` set (tl ws)"
    proof
      assume "k \<in> fst ` set (tl ws)"
      then obtain v c where v: "(k, v, c) \<in> set ws'" using w by auto
      have "contig (f + s + 96) ws' (f + z + 96)" using ws(2) w by simp
      with v have "f < k" "k + v + 96 \<le> f + z + 96" using contig_bounds by fastforce+
      then show False using contig_apart [OF row k(1), of f z False] by auto
    qed
    then have kX: "k \<notin> X" using k(2) by auto
    then show "(k, u, b) \<in> set (us @ ws @ vs) \<and> k \<notin> X \<and> k \<notin> {} \<or> (\<exists>n. nxt_free ?m k = Some n \<and> (b \<longleftrightarrow> n \<noteq> 0))"
      using k(1) D(3) w by (auto simp: flags_ok_def)
  qed simp
  moreover have "used_bytes ws + e = z" "free_bytes ws = 0"
  proof -
    show "free_bytes ws = 0" using ws(3) by (induction ws rule: free_bytes.induct) auto
  qed (rule e)
  then have "bytes_ok ?m ?ys d" using D(5) by (auto simp: bytes_ok_def)
  ultimately show ?thesis using D(4) by (simp add: qm_st_def counts_ok_def)
qed

lemma cut_ok:
  assumes S: "qm_st m (us @ (f, s, False) # vs) bk X d" and n: "n + 96 \<le> s" "8 dvd n" and g: "g = f + n + 96" and r: "r = s - n - 96"
    and m': "m' = m\<lparr>frag_size := (frag_size m)(f \<mapsto> n, g \<mapsto> r), end_size := (end_size m)(f + 48 + n \<mapsto> n, f + 48 + s \<mapsto> r),
        qm_used := qm_used m - 96, end_check1 := (end_check1 m)(f + 48 + n \<mapsto> END_CHECK_PATTERN1), end_check2 := (end_check2 m)(f + 48 + n \<mapsto> END_CHECK_PATTERN2),
        frag_check := (frag_check m)(g \<mapsto> ST_CHECK_PATTERN)\<rparr>"
  shows "qm_st m' (us @ (f, n, False) # (g, r, False) # vs) bk (insert g X) d"
proof -
  note D = qm_stD [OF S] and B = block_okD [OF qm_stD(1) [OF S]]
  let ?xs = "us @ (f, s, False) # vs" and ?ys = "us @ (f, n, False) # (g, r, False) # vs"
  have f: "(f, s, False) \<in> set ?xs" by simp
  have gr: "g + r + 96 = f + s + 96" "g + 48 + r = f + 48 + s" using n g r by auto
  have row: "contig (first_frag m) ?ys (last_frag_end m + 48)" using B(1) unfolding contig_append contig.simps(2) gr(1) by (simp add: g)
  have fok: "frag_ok m f s" by (rule B(2) [OF f])
  have ne: "f + 48 + n \<noteq> f + 48 + s" "f \<noteq> g" using n g by auto
  have "8 dvd r" using frag_okD(6) [OF fok] n r by (simp add: dvd_diff_nat)
  have "frag_ok m' k u" if k: "(k, u, b) \<in> set ?ys" for k u b
  proof -
    consider "(k, u) = (f, n)" | "(k, u) = (g, r)" | "(k, u, b) \<in> set (us @ vs)" using k by auto
    then show ?thesis
    proof cases
      case 1
      then show ?thesis using frag_okD [OF fok] n(2) ne by (simp add: frag_ok_def m')
    next
      case 2
      have "frag_ok m' g r" unfolding frag_ok_def gr(2) using frag_okD [OF fok] \<open>8 dvd r\<close> ne by (simp add: m')
      then show ?thesis using 2 by simp
    next
      case 3
      then have "(k, u, b) \<in> set ?xs" by auto
      then have "frag_ok m k u" by (rule B(2))
      moreover have "k \<in> fst ` set (us @ vs)" using 3 by force
      then have "k \<noteq> f" "k \<noteq> g" using contig_distinct [OF row] by auto
      then have "k \<noteq> f" "k \<noteq> g" "k + 48 + u \<noteq> f + 48 + n" "k + 48 + u \<noteq> f + 48 + s"
        using contig_apart [OF row k, of f n False] contig_apart [OF row k, of g r False] gr by auto
      ultimately show ?thesis by (simp add: frag_ok_def m')
    qed
  qed
  moreover have "frag_size m' (free_head m h) = Some 0" if "h < QM_HASH_SIZE" for h
    using B(6) [OF that] head_addr(1) [OF that, of m] frag_addr(1) [OF D(1) f] g by (auto simp: m')
  ultimately have "block_ok m' ?ys" using row B(3-5,8) unfolding block_ok_def by (auto simp: m')
  moreover have "lists_ok m' ?ys bk"
  proof (rule lists_resize [OF D(2)])
    show "frag_size m' x = frag_size m x" if "h < QM_HASH_SIZE" "x \<in> insert (free_head m h) (set (bk h))" for h x
    proof -
      have "x \<noteq> f" "x \<noteq> g" using listed_other [OF D(1,2) that _ f] n g by auto
      then show ?thesis by (simp add: m')
    qed
  qed (simp_all add: m')
  moreover have "flags_ok m' ?ys (insert g X)"
  proof (rule flags_transfer [OF D(3), where F = "{}"])
    fix k u b assume "(k, u, b) \<in> set ?ys" "k \<notin> insert g X"
    then show "(k, u, b) \<in> set ?xs \<and> k \<notin> X \<and> k \<notin> {} \<or> (\<exists>n. nxt_free m' k = Some n \<and> (b \<longleftrightarrow> n \<noteq> 0))"
      using D(3) by (auto simp: flags_ok_def m')
  qed (simp add: m')
  moreover have "counts_ok m' bk" using D(4) by (simp add: counts_ok_def m')
  moreover have "bytes_ok m' ?ys d" using D(5) n r by (simp add: bytes_ok_def m')
  ultimately show ?thesis by (simp add: qm_st_def)
qed

definition carve :: "nat \<Rightarrow> nat \<Rightarrow> nat \<Rightarrow> frag list" where
  "carve f s n = (if s - n > 104 then [(f, n, False), (f + n + 96, s - n - 96, True)] else [(f, s, False)])"

lemma split_ok:
  assumes S: "qm_st m (us @ (f, s, False) # vs) bk X d" and n: "n \<le> s" "8 dvd n"
  shows "\<exists>m' bk'. qm_split_frag m f n = Some m' \<and> qm_st m' (us @ carve f s n @ vs) bk' X d \<and> same_env m m'"
proof -
  have fs: "frag_size m f = Some s" using frag_addr(4) [OF qm_stD(1) [OF S], of f s False] by simp
  show ?thesis
  proof (cases "s - n > 104")
    case False
    then show ?thesis using S fs by (auto simp: qm_split_frag_def carve_def qm_sizes)
  next
    case True
    define g r where "g = f + n + 96" and "r = s - n - 96"
    define m1 where "m1 = m\<lparr>frag_size := (frag_size m)(f \<mapsto> n, g \<mapsto> r), end_size := (end_size m)(f + 48 + n \<mapsto> n, f + 48 + s \<mapsto> r),
        qm_used := qm_used m - 96, end_check1 := (end_check1 m)(f + 48 + n \<mapsto> END_CHECK_PATTERN1), end_check2 := (end_check2 m)(f + 48 + n \<mapsto> END_CHECK_PATTERN2),
        frag_check := (frag_check m)(g \<mapsto> ST_CHECK_PATTERN)\<rparr>"
    have n': "n + 96 \<le> s" using True by simp
    have "qm_st m1 ((us @ [(f, n, False)]) @ (g, r, False) # vs) bk (insert g X) d" using cut_ok [OF S n' n(2) g_def r_def m1_def] by simp
    from put_ok [OF this] obtain m' bk' where m': "qm_insert_free m1 g = Some m'" "qm_st m' (us @ [(f, n, False), (g, r, True)] @ vs) bk' X d" "same_env m1 m'"
      by auto
    have "g + 48 + r = f + 48 + s" "f \<noteq> g" using True by (auto simp: g_def r_def)
    then have "qm_split_frag m f n = qm_insert_free m1 g"
      using True fs by (simp add: qm_split_frag_def FRAG_END_def qm_sizes m1_def g_def r_def Let_def fun_upd_twist algebra_simps)
    moreover have "same_env m m'" using m'(3) by (simp add: same_env_def m1_def)
    ultimately show ?thesis using m'(1,2) True by (auto simp: carve_def g_def r_def)
  qed
qed

subsection \<open>Checks\<close>

lemma debug_frag_ok:
  assumes B: "block_ok m xs" and f: "(f, s, b) \<in> set xs"
  shows "qm_debug_frag m f = Some True"
proof -
  note F = frag_okD [OF block_okD(2) [OF B f]]
  have "end_check1 m (PREV_FRAG_END f) = Some END_CHECK_PATTERN1 \<and> end_check2 m (PREV_FRAG_END f) = Some END_CHECK_PATTERN2" if "f > first_frag m"
  proof -
    obtain us vs where xs: "xs = us @ (f, s, b) # vs" using split_list [OF f] by blast
    then have us: "contig (first_frag m) us f" using block_okD(1) [OF B] by (simp add: contig_append)
    with that obtain us' g t c where "us = us' @ [(g, t, c)]" by (cases us rule: rev_cases) auto
    with us xs have g: "(g, t, c) \<in> set xs" "g + t + 96 = f" by (auto simp: contig_append)
    then have "PREV_FRAG_END f = g + 48 + t" by (simp add: PREV_FRAG_END_def qm_sizes)
    then show ?thesis using frag_okD(4,5) [OF block_okD(2) [OF B g(1)]] by simp
  qed
  then show ?thesis using F by (simp add: qm_debug_frag_def FRAG_END_def qm_sizes)
qed

subsection \<open>Searching\<close>

lemma find_in_list_ok:
  assumes "chain (nxt_free m) pv a l head" "head \<notin> set l" "\<forall>f \<in> set l. frag_size m f \<noteq> None"
  shows "find_in_list m head s (hd (l @ [head])) = Some (List.find (\<lambda>f. s \<le> fsize m f) l)"
  using assms
proof (induction l arbitrary: a)
  case Nil
  show ?case by (subst find_in_list.simps) simp
next
  case (Cons x l)
  then obtain t where t: "frag_size m x = Some t" by auto
  have "nxt_free m x = Some (hd (l @ [head]))" using Cons.prems(1) chain_ends by fastforce
  then show ?case using Cons t by (subst find_in_list.simps) auto
qed

text \<open>The first list with a fitting fragment decides.\<close>

lemma find_from_ok:
  assumes B: "block_ok m xs" and L: "lists_ok m xs bk"
  shows "find_from m s h =
     Some (case List.find (\<lambda>k. List.find (\<lambda>f. s \<le> fsize m f) (bk k) \<noteq> None) [h..<QM_HASH_SIZE] of
             None \<Rightarrow> None | Some k \<Rightarrow> map_option (\<lambda>f. (f, k)) (List.find (\<lambda>f. s \<le> fsize m f) (bk k)))"
proof (induction "QM_HASH_SIZE - h" arbitrary: h)
  case 0
  then show ?case by (subst find_from.simps) simp
next
  case (Suc n)
  then have h: "h < QM_HASH_SIZE" by simp
  note K = list_okD [OF L h] and N = list_nodes [OF B L h]
  have sz: "\<forall>g \<in> set (bk h). frag_size m g \<noteq> None" using node_cases [OF B] N(1) by (metis insert_subset option.distinct(1) subsetD)
  have "nxt_free m (free_head m h) = Some (hd (bk h @ [free_head m h]))" using chain_ends [OF K(1)] by blast
  moreover have "find_in_list m (free_head m h) s (hd (bk h @ [free_head m h])) = Some (List.find (\<lambda>f. s \<le> fsize m f) (bk h))"
    by (rule find_in_list_ok [OF K(1) N(2) sz])
  moreover have "[h..<QM_HASH_SIZE] = h # [h + 1..<QM_HASH_SIZE]" using h by (simp add: upt_conv_Cons)
  ultimately show ?case using Suc.hyps(1) [of "h + 1"] Suc.hyps(2) h
    by (subst find_from.simps) (auto split: option.splits)
qed

lemma sorted_find_least:
  "sorted (map g l) \<Longrightarrow> List.find (\<lambda>f. s \<le> g f) l = Some x \<Longrightarrow> y \<in> set l \<Longrightarrow> s \<le> g y \<Longrightarrow> g x \<le> g y"
  by (induction l) (auto split: if_splits)

lemma find_upt:
  assumes "List.find P [h..<n] = Some k"
  shows "h \<le> k" "k < n" "P k" "\<forall>j. h \<le> j \<longrightarrow> j < k \<longrightarrow> \<not> P j"
proof -
  obtain i where i: "i < n - h" "P (h + i)" "k = h + i" "\<forall>j<i. \<not> P (h + j)" using assms by (auto simp: find_Some_iff)
  then show "h \<le> k" "k < n" "P k" by auto
  show "\<forall>j. h \<le> j \<longrightarrow> j < k \<longrightarrow> \<not> P j"
  proof (intro allI impI)
    fix j assume "h \<le> j" "j < k"
    then show "\<not> P j" using i(3) i(4) [rule_format, of "j - h"] by simp
  qed
qed

text \<open>The search finds a smallest fragment that is large enough, if there is one.\<close>

lemma find_free_ok:
  assumes S: "qm_st m xs bk X d" and s: "s < 2 ^ 64"
  shows "\<exists>r. qm_find_free m s = Some r \<and>
     (case r of
        None \<Rightarrow> \<forall>(g, t, b) \<in> set xs. b \<longrightarrow> t < s
      | Some (f, h) \<Rightarrow> \<exists>t. (f, t, True) \<in> set xs \<and> s \<le> t \<and> GET_HASH t = Some h \<and> (\<forall>(g, u, b) \<in> set xs. b \<longrightarrow> s \<le> u \<longrightarrow> t \<le> u))"
proof -
  note D = qm_stD [OF S]
  let ?fit = "\<lambda>k. List.find (\<lambda>f. s \<le> fsize m f) (bk k)"
  obtain h where h: "GET_HASH s = Some h" "h < QM_HASH_SIZE" using GET_HASH_ok [OF s] by blast
  have listed: "\<exists>k. GET_HASH u = Some k \<and> h \<le> k \<and> k < QM_HASH_SIZE \<and> g \<in> set (bk k) \<and> fsize m g = u \<and> ?fit k \<noteq> None"
    if gu: "(g, u, True) \<in> set xs" "s \<le> u" for g u
  proof -
    obtain k where k: "GET_HASH u = Some k" "k < QM_HASH_SIZE" using st_hash [OF S gu(1)] by blast
    have "g \<in> set (bk k)" "fsize m g = u" using list_okD(4) [OF D(2) k(2)] gu(1) k(1) frag_addr(4) [OF D(1) gu(1)] by auto
    moreover have "h \<le> k" using GET_HASH_mono [OF gu(2) frag_addr(3) [OF D(1) gu(1)] h(1) k(1)] .
    ultimately show ?thesis using k gu(2) by (auto simp: find_None_iff)
  qed
  have run: "qm_find_free m s = Some (case List.find (\<lambda>k. ?fit k \<noteq> None) [h..<QM_HASH_SIZE] of
             None \<Rightarrow> None | Some k \<Rightarrow> map_option (\<lambda>f. (f, k)) (?fit k))"
    using find_from_ok [OF D(1,2), of s h] h by (simp add: qm_find_free_def)
  show ?thesis
  proof (cases "List.find (\<lambda>k. ?fit k \<noteq> None) [h..<QM_HASH_SIZE]")
    case None
    then have none: "h \<le> k \<Longrightarrow> k < QM_HASH_SIZE \<Longrightarrow> ?fit k = None" for k by (auto simp: find_None_iff)
    have "t < s" if "(g, t, True) \<in> set xs" for g t using listed [OF that] none by (meson not_le)
    then have "\<forall>(g, t, b) \<in> set xs. b \<longrightarrow> t < s" by auto
    then show ?thesis using run None by simp
  next
    case (Some k)
    note k = find_upt [OF Some]
    obtain f where f: "?fit k = Some f" using k(3) by blast
    then have "f \<in> set (bk k)" "s \<le> fsize m f" by (auto simp: find_Some_iff)
    then obtain t where t: "(f, t, True) \<in> set xs" "GET_HASH t = Some k" "fsize m f = t" "s \<le> t"
      using list_okD(4) [OF D(2) k(2)] frag_addr(4) [OF D(1)] by fastforce
    have "t \<le> u" if gu: "(g, u, True) \<in> set xs" "s \<le> u" for g u
    proof -
      obtain j where j: "GET_HASH u = Some j" "h \<le> j" "g \<in> set (bk j)" "fsize m g = u" "?fit j \<noteq> None" using listed [OF gu] by blast
      then have "k \<le> j" using k(4) by (metis not_le)
      show ?thesis
      proof (cases "j = k")
        case True
        then show ?thesis using sorted_find_least [OF list_okD(3) [OF D(2) k(2)] f, of g] j t gu(2) by simp
      next
        case False
        then show ?thesis using GET_HASH_mono [of u t j k] frag_addr(3) [OF D(1) t(1)] j(1) t(2) \<open>k \<le> j\<close> by (meson le_antisym nat_le_linear)
      qed
    qed
    then have "\<forall>(g, u, b) \<in> set xs. b \<longrightarrow> s \<le> u \<longrightarrow> t \<le> u" by auto
    then show ?thesis using run Some f t by auto
  qed
qed

end
