(* ===== verification/Qm_Run.thy ===== *)
theory Qm_Run
  imports Qm_Ops
begin

text \<open>
  The calls of the allocator on a well-formed block: each returns, and refines an operation on the
  row of fragments.
\<close>

subsection \<open>Rounding\<close>

lemma unat_and_not7: "unat (x AND NOT 7 :: u64) = unat x div 8 * 8"
proof -
  have 7: "(7::u64) = mask 3" by (simp add: mask_eq_exp_minus_1)
  have eq: "x AND NOT 7 = push_bit 3 (drop_bit 3 x)" unfolding 7 by (rule bit_eqI) (auto simp: bit_simps)
  have x: "push_bit 3 (drop_bit 3 x) = x - take_bit 3 x" using bits_ident [of 3 x] by (simp add: algebra_simps)
  have t: "unat (take_bit 3 x) = unat x mod 8" by (simp add: take_bit_eq_mod unat_mod)
  then have "take_bit 3 x \<le> x" by (simp add: word_le_nat_alt)
  then have "unat (x - take_bit 3 x) = unat x - unat x mod 8" by (simp add: unat_sub t)
  then show ?thesis unfolding eq x by (simp add: minus_mod_eq_div_mult)
qed

lemma ROUNDUP_unat: "unat (ROUNDUP x) = (if unat x + 7 < 2 ^ 64 then (unat x + 7) div 8 * 8 else 0)"
proof (cases "unat x + 7 < 2 ^ 64")
  case True
  then have "unat (x + 7) = unat x + 7" by (subst unat_add_lem [THEN iffD1]) simp_all
  then show ?thesis using True unfolding ROUNDUP_def unat_and_not7 by simp
next
  case False
  have "unat x < 2 ^ 64" using unsigned_less [of x, where 'a = nat] by simp
  then have "unat (x + 7) = unat x + 7 - 2 ^ 64" using False by (simp add: unat_word_ariths mod_if)
  then have "unat (x + 7) < 8" using \<open>unat x < 2 ^ 64\<close> by simp
  then show ?thesis using False unfolding ROUNDUP_def unat_and_not7 by simp
qed

lemma ROUNDUP_dvd: "8 dvd unat (ROUNDUP x)"
  by (simp add: ROUNDUP_unat)

lemma ROUNDUP_ge: "unat x + 7 < 2 ^ 64 \<Longrightarrow> unat x \<le> unat (ROUNDUP x) \<and> unat (ROUNDUP x) < unat x + 8"
  unfolding ROUNDUP_unat by (simp, presburger)

lemma ROUNDUP_idem: "ROUNDUP (of_nat (unat (ROUNDUP x))) = ROUNDUP x"
proof -
  have "unat (ROUNDUP x) + 7 < 2 ^ 64"
  proof -
    obtain k where k: "unat (ROUNDUP x) = 8 * k" using ROUNDUP_dvd by blast
    have "unat (ROUNDUP x) < 2 ^ 64" using unsigned_less [of "ROUNDUP x", where 'a = nat] by simp
    with k have "k < 2 ^ 61" by simp
    then have "k + 1 \<le> 2 ^ 61" by simp
    then show ?thesis using k by simp
  qed
  then have "unat (ROUNDUP (ROUNDUP x)) = (unat (ROUNDUP x) + 7) div 8 * 8" by (subst ROUNDUP_unat) simp
  also have "\<dots> = unat (ROUNDUP x)" using ROUNDUP_dvd [of x] by presburger
  finally show ?thesis by (simp add: word_unat_eq_iff)
qed

subsection \<open>The row of fragments as the abstract state\<close>

text \<open>A freed fragment takes its free neighbours with it.\<close>

fun join_next :: "nat \<Rightarrow> frag list \<Rightarrow> nat \<times> frag list" where
  "join_next s ((g, t, True) # vs) = (s + t + 96, vs)"
| "join_next s vs = (s, vs)"

definition join_prev :: "frag list \<Rightarrow> nat \<Rightarrow> nat \<Rightarrow> frag list \<times> nat \<times> nat" where
  "join_prev us f s =
     (if us \<noteq> [] \<and> snd (snd (last us)) then (butlast us, fst (last us), fst (snd (last us)) + s + 96) else (us, f, s))"

definition release :: "frag list \<Rightarrow> nat \<Rightarrow> nat \<Rightarrow> frag list \<Rightarrow> frag list" where
  "release us f s vs = (let (s, vs) = join_next s vs; (us, f, s) = join_prev us f s in us @ (f, s, True) # vs)"

fun busy :: "frag list \<Rightarrow> nat" where
  "busy [] = 0"
| "busy ((f, s, b) # xs) = (if b then 0 else 1) + busy xs"

lemma busy_append [simp]: "busy (xs @ ys) = busy xs + busy ys"
  by (induction xs) auto

text \<open>The invariant between calls.\<close>

definition qm_inv :: "qm_block \<Rightarrow> frag list \<Rightarrow> bool" where
  "qm_inv m xs \<longleftrightarrow> (\<exists>bk. qm_st m xs bk {} 0) \<and> fragments m = int (busy xs)"

lemma qm_st_upd [simp]:
  "qm_st (m\<lparr>fragments := i\<rparr>) = qm_st m" "qm_st (m\<lparr>max_real_used := i\<rparr>) = qm_st m" "qm_st (m\<lparr>qm_data := b\<rparr>) = qm_st m"
  by (intro ext; simp add: qm_st_def flags_ok_def counts_ok_def bytes_ok_def)+

subsection \<open>Allocation\<close>

lemma frag_check_same:
  assumes "block_ok m xs" "(f, s, b) \<in> set xs"
  shows "m\<lparr>frag_check := (frag_check m)(f \<mapsto> ST_CHECK_PATTERN)\<rparr> = m"
proof -
  have "frag_check m f = Some ST_CHECK_PATTERN" using frag_okD(2) [OF block_okD(2) [OF assms]] .
  then have "(frag_check m)(f \<mapsto> ST_CHECK_PATTERN) = frag_check m" by auto
  then show ?thesis by simp
qed

text \<open>What the caller gets: the smallest free fragment that is large enough, cut to size.\<close>

definition fits :: "frag list \<Rightarrow> nat \<Rightarrow> bool" where
  "fits xs s \<longleftrightarrow> (\<exists>f t. (f, t, True) \<in> set xs \<and> s \<le> t)"

lemma fits_bytes: "fits xs s \<Longrightarrow> s \<le> free_bytes xs"
proof -
  have "(f, t, True) \<in> set xs \<Longrightarrow> t \<le> free_bytes xs" for f t by (induction xs) auto
  then show "fits xs s \<Longrightarrow> s \<le> free_bytes xs" unfolding fits_def using le_trans by blast
qed

definition same_place :: "qm_block \<Rightarrow> qm_block \<Rightarrow> bool" where
  "same_place m m' \<longleftrightarrow> qm_addr m' = qm_addr m \<and> qm_size m' = qm_size m \<and> first_frag m' = first_frag m \<and> last_frag_end m' = last_frag_end m"

lemma same_env_place: "same_env m m' \<Longrightarrow> same_place m m'"
  by (simp add: same_env_def same_place_def)

lemma malloc_ok:
  assumes I: "qm_inv m xs" and s: "s = unat (ROUNDUP siz)" "8 dvd s"
  shows "if fits xs s then
       \<exists>m' us f t vs. xs = us @ (f, t, True) # vs \<and> s \<le> t \<and> (\<forall>(g, u, b) \<in> set xs. b \<longrightarrow> s \<le> u \<longrightarrow> t \<le> u) \<and>
         qm_malloc m siz = Some (Returned (m', f + 48)) \<and> qm_inv m' (us @ carve f t s @ vs) \<and> qm_data m' = qm_data m \<and> same_place m m'
     else qm_malloc m siz = Some (Returned (m, 0))"
proof -
  obtain bk where S: "qm_st m xs bk {} 0" and fr: "fragments m = int (busy xs)" using I by (auto simp: qm_inv_def)
  note D = qm_stD [OF S]
  have avail: "qm_size m - real_used m = int (free_bytes xs)" using D(5) by (simp add: bytes_ok_def)
  have "s < 2 ^ 64" using s(1) unsigned_less [of "ROUNDUP siz", where 'a = nat] by simp
  from find_free_ok [OF S this] obtain r where r: "qm_find_free m s = Some r"
    "case r of None \<Rightarrow> \<forall>(g, t, b) \<in> set xs. b \<longrightarrow> t < s
       | Some (f, h) \<Rightarrow> \<exists>t. (f, t, True) \<in> set xs \<and> s \<le> t \<and> GET_HASH t = Some h \<and> (\<forall>(g, u, b) \<in> set xs. b \<longrightarrow> s \<le> u \<longrightarrow> t \<le> u)"
    by blast
  show ?thesis
  proof (cases "fits xs s")
    case False
    have "r = None"
    proof (rule ccontr)
      assume "r \<noteq> None"
      then show False using r(2) False by (auto simp: fits_def)
    qed
    then show ?thesis using False r(1) s(1) by (simp add: qm_malloc_def Let_def)
  next
    case True
    then have le: "\<not> int s > qm_size m - real_used m" using fits_bytes [OF True] avail by simp
    from True r(2) obtain f h t where f: "r = Some (f, h)" "(f, t, True) \<in> set xs" "s \<le> t" "GET_HASH t = Some h"
      "\<forall>(g, u, b) \<in> set xs. b \<longrightarrow> s \<le> u \<longrightarrow> t \<le> u" by (cases r) (fastforce simp: fits_def)+
    then obtain us vs where xs: "xs = us @ (f, t, True) # vs" using split_list by metis
    have dbg: "qm_debug_frag m f = Some True" by (rule debug_frag_ok [OF D(1) f(2)])
    from take_ok [OF S [unfolded xs]] f(4) obtain nx pv bk' where
      det: "qm_detach_free m f = Some (m\<lparr>nxt_free := nx, prev_free := pv, real_used := real_used m + int t, qm_used := qm_used m + int t\<rparr>)"
      and S1: "qm_st (m\<lparr>nxt_free := nx, prev_free := pv, real_used := real_used m + int t, qm_used := qm_used m + int t, free_no := (free_no m)(h := free_no m h - 1)\<rparr>)
        (us @ (f, t, False) # vs) bk' (insert f {}) 0" by auto
    define m1 where "m1 = m\<lparr>prev_free := pv, real_used := real_used m + int t, qm_used := qm_used m + int t, nxt_free := nx(f \<mapsto> 0), free_no := (free_no m)(h := free_no m h - 1)\<rparr>"
    have S2: "qm_st m1 (us @ (f, t, False) # vs) bk' {} 0" 
    proof -
      have "m1 = (m\<lparr>nxt_free := nx, prev_free := pv, real_used := real_used m + int t, qm_used := qm_used m + int t, free_no := (free_no m)(h := free_no m h - 1)\<rparr>)
        \<lparr>nxt_free := nx(f \<mapsto> 0)\<rparr>" unfolding m1_def by (rule qm_block.equality) simp_all
      then show ?thesis using busy_ok [OF S1, of t] by simp
    qed
    from split_ok [OF S2 f(3) s(2)] obtain m2 bk2 where m2: "qm_split_frag m1 f s = Some m2" "qm_st m2 (us @ carve f t s @ vs) bk2 {} 0" "same_env m1 m2"
      by blast
    define m3 where "m3 = (if max_real_used m2 < real_used m2 then m2\<lparr>max_real_used := real_used m2\<rparr> else m2)"
    define m' where "m' = m3\<lparr>fragments := fragments m2 + 1\<rparr>"
    have S3: "qm_st m3 (us @ carve f t s @ vs) bk2 {} 0" using m2(2) by (simp add: m3_def)
    have inf: "\<exists>z. (f, z, False) \<in> set (us @ carve f t s @ vs)" by (auto simp: carve_def)
    then have chk: "m3\<lparr>frag_check := (frag_check m3)(f \<mapsto> ST_CHECK_PATTERN)\<rparr> = m3" using frag_check_same [OF qm_stD(1) [OF S3]] by blast
    have fr3: "fragments m3 = fragments m2" by (simp add: m3_def)
    have "qm_malloc m siz = Some (Returned (m3\<lparr>frag_check := (frag_check m3)(f \<mapsto> ST_CHECK_PATTERN), fragments := fragments m3 + 1\<rparr>, f + 48))"
      using le r(1) f(1) dbg det m2(1) unfolding qm_malloc_def s(1) [symmetric] Let_def m3_def m1_def by (simp add: qm_sizes)
    then have run: "qm_malloc m siz = Some (Returned (m', f + 48))" using chk fr3 by (simp add: m'_def)
    have "fragments m2 = fragments m" using m2(3) by (simp add: same_env_def m1_def)
    moreover have "busy (us @ carve f t s @ vs) = busy xs + 1" by (simp add: xs carve_def)
    ultimately have "qm_inv m' (us @ carve f t s @ vs)" using S3 fr by (auto simp: qm_inv_def m'_def)
    moreover have "qm_data m' = qm_data m" "same_place m m'"
      using m2(3) by (simp_all add: same_env_def same_place_def m'_def m3_def m1_def)
    ultimately show ?thesis using True run xs f(3,5) by auto
  qed
qed

subsection \<open>Freeing\<close>

lemma join_detach_ok:
  assumes S: "qm_st m (us @ (g, t, True) # vs) bk X d"
  shows "\<exists>m' bk'. join_detach m g = Some (m', t) \<and> qm_st m' (us @ (g, t, False) # vs) bk' (insert g X) (d + 96) \<and> same_env m m' \<and> leaves m m' {}"
proof -
  have fs: "frag_size m g = Some t" using frag_addr(4) [OF qm_stD(1) [OF S], of g t True] by simp
  from take_ok [OF S] obtain nx pv h bk' where h: "GET_HASH t = Some h"
    and det: "qm_detach_free m g = Some (m\<lparr>nxt_free := nx, prev_free := pv, real_used := real_used m + int t, qm_used := qm_used m + int t\<rparr>)"
    and S1: "qm_st (m\<lparr>nxt_free := nx, prev_free := pv, real_used := real_used m + int t, qm_used := qm_used m + int t, free_no := (free_no m)(h := free_no m h - 1)\<rparr>)
        (us @ (g, t, False) # vs) bk' (insert g X) d" and K: "keeps_flags (nxt_free m) nx {}" by blast
  let ?m = "m\<lparr>nxt_free := nx, prev_free := pv, real_used := real_used m + int t, qm_used := qm_used m + int t, free_no := (free_no m)(h := free_no m h - 1)\<rparr>"
  have "qm_st (?m\<lparr>qm_used := qm_used ?m + 96\<rparr>) (us @ (g, t, False) # vs) bk' (insert g X) (d + 96)"
    using S1 unfolding qm_st_def by (simp add: flags_ok_def counts_ok_def bytes_ok_def)
  then show ?thesis using det fs h K
    by (intro exI [of _ "?m\<lparr>qm_used := qm_used ?m + 96\<rparr>"] exI [of _ bk']) (simp add: join_detach_def qm_sizes same_env_def leaves_def)
qed

lemma next_addr:
  assumes B: "block_ok m (us @ (f, s, b) # vs)"
  shows "FRAG_NEXT m f = Some (f + s + 96)" "f + s + 96 < last_frag_end m \<longleftrightarrow> vs \<noteq> []" "vs \<noteq> [] \<Longrightarrow> fst (hd vs) = f + s + 96"
proof -
  have row: "contig (f + s + 96) vs (last_frag_end m + 48)" using block_okD(1) [OF B] by (simp add: contig_append)
  show "FRAG_NEXT m f = Some (f + s + 96)" using frag_addr(4) [OF B, of f s b] by (simp add: FRAG_NEXT_def qm_sizes)
  show "vs \<noteq> [] \<Longrightarrow> fst (hd vs) = f + s + 96" using row by (cases vs) auto
  show "f + s + 96 < last_frag_end m \<longleftrightarrow> vs \<noteq> []"
  proof (cases vs)
    case (Cons v vs')
    obtain g t c where v: "v = (g, t, c)" by (cases v)
    then show ?thesis using row contig_le [of "g + t + 96" vs' "last_frag_end m + 48"] Cons by auto
  qed (use row in simp)
qed

lemma flag_of:
  assumes "qm_st m xs bk X d" "(f, s, b) \<in> set xs" "f \<notin> X"
  shows "\<exists>n. nxt_free m f = Some n \<and> (n \<noteq> 0 \<longleftrightarrow> b)"
  using qm_stD(3) [OF assms(1)] assms(2,3) by (auto simp: flags_ok_def)

text \<open>The fragment and those of its neighbours that were taken off their lists, all busy.\<close>

lemma free_next_ok:
  assumes S: "qm_st m (us @ (f, s, False) # vs) bk {} 0"
  shows "\<exists>m' bk' ws. free_next m f s = Some (Returned (m', fst (join_next s vs))) \<and> same_env m m' \<and> leaves m m' {} \<and>
     qm_st m' (us @ ((f, s, False) # ws) @ snd (join_next s vs)) bk' (fst ` set ws) (96 * length ws) \<and>
     contig f ((f, s, False) # ws) (f + fst (join_next s vs) + 96) \<and> (\<forall>(g, t, b) \<in> set ws. \<not> b) \<and>
     used_bytes ws + 96 * length ws + s = fst (join_next s vs) \<and> 8 dvd fst (join_next s vs)"
proof -
  note D = qm_stD [OF S] and N = next_addr [OF qm_stD(1) [OF S]]
  have ds: "8 dvd s" using frag_okD(6) [OF block_okD(2) [OF D(1), of f s False]] by simp
  show ?thesis
  proof (cases vs)
    case Nil
    then show ?thesis using N S ds by (intro exI [of _ m] exI [of _ bk] exI [of _ "[]"]) (simp add: free_next_def)
  next
    case (Cons v vs')
    obtain t b where v: "v = (f + s + 96, t, b)" using N(3) Cons by (cases v) auto
    let ?g = "f + s + 96"
    have g: "(?g, t, b) \<in> set (us @ (f, s, False) # vs)" using Cons v by simp
    obtain n where n: "nxt_free m ?g = Some n" "n \<noteq> 0 \<longleftrightarrow> b" using flag_of [OF S g] by auto
    show ?thesis
    proof (cases b)
      case False
      then show ?thesis using N n S ds Cons v by (intro exI [of _ m] exI [of _ bk] exI [of _ "[]"]) (simp add: free_next_def)
    next
      case True
      have "qm_st m ((us @ [(f, s, False)]) @ (?g, t, True) # vs') bk {} 0" using S Cons v True by simp
      from join_detach_ok [OF this] obtain m' bk' where m': "join_detach m ?g = Some (m', t)" "same_env m m'" "leaves m m' {}"
        "qm_st m' (us @ (f, s, False) # (?g, t, False) # vs') bk' {?g} 96" by auto
      have "qm_debug_frag m ?g = Some True" by (rule debug_frag_ok [OF D(1) g])
      moreover have "8 dvd t" using frag_okD(6) [OF block_okD(2) [OF D(1) g]] .
      ultimately show ?thesis using N n m' ds Cons v True
        by (intro exI [of _ m'] exI [of _ bk'] exI [of _ "[(?g, t, False)]"]) (simp add: free_next_def qm_sizes add.commute)
    qed
  qed
qed

lemma prev_addr:
  assumes B: "block_ok m (us @ (f, s, b) # vs)"
  shows "f > first_frag m \<longleftrightarrow> us \<noteq> []" "us \<noteq> [] \<Longrightarrow> fst (last us) + fst (snd (last us)) + 96 = f \<and> FRAG_PREV m f = Some (fst (last us))"
proof -
  have row: "contig (first_frag m) us f" using block_okD(1) [OF B] by (simp add: contig_append)
  have ex: "\<exists>us' g t c. us = us' @ [(g, t, c)] \<and> g + t + 96 = f \<and> first_frag m \<le> g" if "us \<noteq> []"
    using row that contig_le by (cases us rule: rev_cases) (auto simp: contig_append)
  show "f > first_frag m \<longleftrightarrow> us \<noteq> []" using ex row by (cases us) auto
  show "fst (last us) + fst (snd (last us)) + 96 = f \<and> FRAG_PREV m f = Some (fst (last us))" if "us \<noteq> []"
  proof -
    from ex [OF that] obtain us' g t c where u: "us = us' @ [(g, t, c)]" "g + t + 96 = f" by blast
    then have "end_size m (g + 48 + t) = Some t" using frag_okD(3) [OF block_okD(2) [OF B, of g t c]] by simp
    moreover have "PREV_FRAG_END f = g + 48 + t" using u by (simp add: PREV_FRAG_END_def qm_sizes)
    ultimately show ?thesis using u by (simp add: FRAG_PREV_def qm_sizes)
  qed
qed

lemma free_prev_ok:
  assumes S: "qm_st m (us @ ((f, s, False) # ws) @ vs) bk (fst ` set ws) d"
    and ws: "contig f ((f, s, False) # ws) (f + z + 96)" "\<forall>(g, t, b) \<in> set ws. \<not> b" "8 dvd z" "used_bytes ws + s + d = z"
    and jp: "join_prev us f z = (us', f', z')"
  shows "\<exists>m' bk' ws'. free_prev m f z = Some (Returned (m', f', z')) \<and> same_env m m' \<and> leaves m m' {} \<and>
     qm_st m' (us' @ ws' @ vs) bk' (insert f' (fst ` set (tl ws'))) (0 + (z' - used_bytes ws')) \<and> ws' \<noteq> [] \<and>
     contig f' ws' (f' + z' + 96) \<and> (\<forall>(g, t, b) \<in> set ws'. \<not> b) \<and> used_bytes ws' \<le> z' \<and> 8 dvd z'"
proof -
  have S': "qm_st m (us @ (f, s, False) # ws @ vs) bk (fst ` set ws) d" using S by simp
  note D = qm_stD [OF S'] and P = prev_addr [OF qm_stD(1) [OF S']]
  have stay: ?thesis if "free_prev m f z = Some (Returned (m, f, z))" "us' = us" "f' = f" "z' = z"
    using that S ws st_mono [OF S subset_insertI, of f]
    by (intro exI [of _ m] exI [of _ bk] exI [of _ "(f, s, False) # ws"]) auto
  show ?thesis
  proof (cases "us = []")
    case True
    have "free_prev m f z = Some (Returned (m, f, z))" using P(1) True by (simp add: free_prev_def)
    moreover have "us' = us" "f' = f" "z' = z" using jp True by (simp_all add: join_prev_def)
    ultimately show ?thesis by (rule stay)
  next
    case False
    then obtain u0 p t b where u: "us = u0 @ [(p, t, b)]" by (cases us rule: rev_cases) auto
    then have p: "(p, t, b) \<in> set (us @ (f, s, False) # ws @ vs)" "p + t + 96 = f" "FRAG_PREV m f = Some p" using P(2) by auto
    have "p \<notin> fst ` set ws"
    proof -
      have "contig (f + s + 96) ws (f + z + 96)" using ws(1) by simp
      then have "\<forall>g \<in> fst ` set ws. f < g" using contig_bounds by fastforce
      then show ?thesis using p(2) by fastforce
    qed
    then obtain n where n: "nxt_free m p = Some n" "n \<noteq> 0 \<longleftrightarrow> b" using flag_of [OF S' p(1)] by blast
    have dbg: "qm_debug_frag m p = Some True" by (rule debug_frag_ok [OF D(1) p(1)])
    have dt: "8 dvd t" using frag_okD(6) [OF block_okD(2) [OF D(1) p(1)]] .
    show ?thesis
    proof (cases b)
      case False
      have "free_prev m f z = Some (Returned (m, f, z))" using P(1) u p(3) n dbg False by (simp add: free_prev_def)
      moreover have "us' = us" "f' = f" "z' = z" using jp u False by (simp_all add: join_prev_def)
      ultimately show ?thesis by (rule stay)
    next
      case True
      have "qm_st m (u0 @ (p, t, True) # (f, s, False) # ws @ vs) bk (fst ` set ws) d" using S u True by simp
      from join_detach_ok [OF this] obtain m' bk' where m': "join_detach m p = Some (m', t)" "same_env m m'"
        "qm_st m' (u0 @ ((p, t, False) # (f, s, False) # ws) @ vs) bk' (insert p (fst ` set ws)) (d + 96)" "leaves m m' {}" by auto
      have j: "us' = u0" "f' = p" "z' = t + z + 96" using jp u True by (auto simp: join_prev_def)
      have run: "free_prev m f z = Some (Returned (m', f', z'))" using P(1) u p(3) dbg n True m'(1) j by (simp add: free_prev_def qm_sizes)
      have "contig p ((p, t, False) # (f, s, False) # ws) (p + z' + 96)"
      proof -
        have "p + z' + 96 = f + z + 96" using p(2) j(3) by simp
        then show ?thesis unfolding \<open>p + z' + 96 = f + z + 96\<close> using ws(1) p(2) by simp
      qed
      moreover have "z' - used_bytes ((p, t, False) # (f, s, False) # ws) = d + 96" using ws(4) j(3) by simp
      moreover have "qm_st m' (u0 @ ((p, t, False) # (f, s, False) # ws) @ vs) bk' (insert p (insert f (fst ` set ws))) (d + 96)"
        by (rule st_mono [OF m'(3)]) auto
      moreover have "8 dvd z'" using dt ws(3) j(3) by simp
      ultimately show ?thesis using run m'(2,4) ws(2,4) unfolding j(1,2)
        by (intro exI [of _ m'] exI [of _ bk'] exI [of _ "(p, t, False) # (f, s, False) # ws"]) (simp del: contig.simps add: j(3))
    qed
  qed
qed

lemma busy_release: "busy (release us f s vs) = busy us + busy vs"
proof -
  have "busy (snd (join_next s vs)) = busy vs" by (cases "(s, vs)" rule: join_next.cases) auto
  moreover have "busy (fst (join_prev us f z)) = busy us" for z
    by (cases us rule: rev_cases) (auto simp: join_prev_def)
  ultimately show ?thesis by (auto simp: release_def Let_def split: prod.splits)
      (metis fst_conv)
qed

lemma free_ok:
  assumes I: "qm_inv m (us @ (f, s, False) # vs)"
  shows "\<exists>m'. qm_free m (f + 48) = Some (Returned m') \<and> qm_inv m' (release us f s vs) \<and> qm_data m' = qm_data m \<and> same_place m m' \<and>
     (\<forall>us' f' z' vs' z. join_next s vs = (z, vs') \<longrightarrow> join_prev us f z = (us', f', z') \<longrightarrow>
       leaves (m\<lparr>frag_size := (frag_size m)(f' \<mapsto> z'), end_size := (end_size m)(f' + 48 + z' \<mapsto> z')\<rparr>) m' {f'})"
proof -
  obtain bk where S: "qm_st m (us @ (f, s, False) # vs) bk {} 0" and fr: "fragments m = int (busy (us @ (f, s, False) # vs))"
    using I by (auto simp: qm_inv_def)
  note D = qm_stD [OF S]
  have f: "(f, s, False) \<in> set (us @ (f, s, False) # vs)" by simp
  note A = frag_addr [OF D(1) f]
  obtain z vs' where jn: "join_next s vs = (z, vs')" by (cases "join_next s vs")
  obtain us' f' z' where jp: "join_prev us f z = (us', f', z')" by (cases "join_prev us f z") auto
  from free_next_ok [OF S] jn obtain m1 bk1 ws where m1: "free_next m f s = Some (Returned (m1, z))" "same_env m m1"
    "qm_st m1 (us @ ((f, s, False) # ws) @ vs') bk1 (fst ` set ws) (96 * length ws)" "contig f ((f, s, False) # ws) (f + z + 96)"
    "\<forall>(g, t, b) \<in> set ws. \<not> b" "used_bytes ws + 96 * length ws + s = z" "8 dvd z" "leaves m m1 {}" by auto
  have "used_bytes ws + s + 96 * length ws = z" using m1(6) by simp
  from free_prev_ok [OF m1(3-5,7) this jp] obtain m2 bk2 ws' where m2: "free_prev m1 f z = Some (Returned (m2, f', z'))" "same_env m1 m2"
    "qm_st m2 (us' @ ws' @ vs') bk2 (insert f' (fst ` set (tl ws'))) (0 + (z' - used_bytes ws'))" "ws' \<noteq> []"
    "contig f' ws' (f' + z' + 96)" "\<forall>(g, t, b) \<in> set ws'. \<not> b" "used_bytes ws' \<le> z'" "8 dvd z'" "leaves m1 m2 {}" by blast
  define m3 where "m3 = m2\<lparr>frag_size := (frag_size m2)(f' \<mapsto> z'), end_size := (end_size m2)(f' + 48 + z' \<mapsto> z')\<rparr>"
  have "used_bytes ws' + (z' - used_bytes ws') = z'" using m2(7) by simp
  from join_ok [OF m2(3-6) this m2(8)] have S3: "qm_st m3 (us' @ (f', z', False) # vs') bk2 (insert f' (fst ` set (tl ws')) - fst ` set (tl ws')) 0"
    by (simp add: m3_def)
  have "qm_st m3 (us' @ (f', z', False) # vs') bk2 (insert f' {}) 0" by (rule st_mono [OF S3]) auto
  from put_ok [OF this] obtain m4 bk4 where m4: "qm_insert_free m3 f' = Some m4" "qm_st m4 (us' @ (f', z', True) # vs') bk4 {} 0" "same_env m3 m4" "leaves m3 m4 {f'}"
    by blast
  have rel: "release us f s vs = us' @ (f', z', True) # vs'" using jn jp by (simp add: release_def)
  obtain n where "nxt_free m f = Some n" "n \<noteq> 0 \<longleftrightarrow> False" using flag_of [OF S f] by auto
  then have n: "nxt_free m f = Some 0" by simp
  have dbg: "qm_debug_frag m f = Some True" by (rule debug_frag_ok [OF D(1) f])
  have range: "\<not> (f + 48 > last_frag_end m \<or> f + 48 < first_frag m)" "QM_FRAG (f + 48) = f"
    using A(1,2) block_okD(4) [OF D(1)] by (simp_all add: QM_FRAG_def qm_sizes)
  have "qm_free m (f + 48) = Some (Returned (m4\<lparr>fragments := fragments m4 - 1\<rparr>))"
    using range dbg n A(4) m1(1) m2(1) m4(1) unfolding qm_free_def m3_def by (simp add: Let_def FRAG_END_def qm_sizes)
  moreover have E: "same_env m m4" using m1(2) m2(2) m4(3) by (simp add: same_env_def m3_def)
  moreover have "fragments m4 - 1 = int (busy (release us f s vs))" using E fr busy_release [of us f s vs] by (simp add: same_env_def)
  moreover have "leaves (m\<lparr>frag_size := (frag_size m)(f' \<mapsto> z'), end_size := (end_size m)(f' + 48 + z' \<mapsto> z')\<rparr>) m4 {f'}"
    using m1(8) m2(9) m4(4) unfolding leaves_def keeps_flags_def m3_def by simp
  ultimately show ?thesis using m4(2) rel jn jp by (auto simp: qm_inv_def same_env_def same_place_def leaves_def)
qed

subsection \<open>Reallocation\<close>

lemma realloc_join_ok:
  assumes S: "qm_st m (us @ (f, s, False) # (g, t, True) # vs) bk {} 0" and r: "r \<le> s + t + 96" "8 dvd r"
  shows "\<exists>m' bk'. qm_realloc_join m f g s r = Some m' \<and> qm_st m' (us @ carve f (s + t + 96) r @ vs) bk' {} 0 \<and> same_env m m'"
proof -
  let ?z = "s + t + 96"
  have g: "g = f + s + 96" using next_addr(3) [OF qm_stD(1) [OF S]] by simp
  have "qm_st m ((us @ [(f, s, False)]) @ (g, t, True) # vs) bk {} 0" using S by simp
  from join_detach_ok [OF this] obtain m1 bk1 where m1: "join_detach m g = Some (m1, t)" "same_env m m1"
    "qm_st m1 (us @ [(f, s, False), (g, t, False)] @ vs) bk1 {g} (0 + 96)" by auto
  define m2 where "m2 = m1\<lparr>frag_size := (frag_size m1)(f \<mapsto> ?z), end_size := (end_size m1)(f + 48 + ?z \<mapsto> ?z)\<rparr>"
  have d: "8 dvd s" "8 dvd t" using frag_okD(6) [OF block_okD(2) [OF qm_stD(1) [OF S]], of f s False]
    frag_okD(6) [OF block_okD(2) [OF qm_stD(1) [OF S]], of g t True] by auto
  have "qm_st m2 (us @ (f, ?z, False) # vs) bk1 ({g} - fst ` set (tl [(f, s, False), (g, t, False)])) 0"
    unfolding m2_def by (rule join_ok [OF m1(3)]) (use g d in auto)
  then have S2: "qm_st m2 (us @ (f, ?z, False) # vs) bk1 {} 0" by simp
  have E: "same_env m m2" using m1(2) by (simp add: same_env_def m2_def)
  show ?thesis
  proof (cases "?z > r")
    case True
    from split_ok [OF S2 r] obtain m' bk' where m': "qm_split_frag m2 f r = Some m'" "qm_st m' (us @ carve f ?z r @ vs) bk' {} 0" "same_env m2 m'" by blast
    then show ?thesis using m1(1) True same_env_trans [OF E m'(3)]
      by (auto simp: qm_realloc_join_def m2_def FRAG_END_def qm_sizes Let_def)
  next
    case False
    then have "r = ?z" using r(1) by simp
    then show ?thesis using m1(1) S2 E False
      by (auto simp: qm_realloc_join_def m2_def FRAG_END_def qm_sizes Let_def carve_def)
  qed
qed

text \<open>The fragments in use, as the callers see them: where the bytes start and how many there are.\<close>

definition allocs :: "frag list \<Rightarrow> (nat \<times> nat) set" where
  "allocs xs = {(f + 48, s) |f s. (f, s, False) \<in> set xs}"

lemma allocs_append [simp]: "allocs (xs @ ys) = allocs xs \<union> allocs ys"
  by (auto simp: allocs_def)

lemma allocs_Cons [simp]: "allocs ((f, s, b) # xs) = (if b then allocs xs else insert (f + 48, s) (allocs xs))"
  by (auto simp: allocs_def)

lemma allocs_Nil [simp]: "allocs [] = {}"
  by (simp add: allocs_def)

lemma allocs_carve: "allocs (carve f t n) = {(f + 48, if t - n > 104 then n else t)}"
  by (simp add: carve_def)

lemma allocs_release: "allocs (release us f s vs) = allocs us \<union> allocs vs"
proof -
  have n: "allocs (snd (join_next s vs)) = allocs vs" by (cases "(s, vs)" rule: join_next.cases) auto
  have p: "allocs (fst (join_prev us f z)) = allocs us" for z by (cases us rule: rev_cases) (auto simp: join_prev_def)
  obtain z vs' where z: "join_next s vs = (z, vs')" by (cases "join_next s vs")
  obtain us' f' z' where u: "join_prev us f z = (us', f', z')" by (cases "join_prev us f z") auto
  show ?thesis using n p [of z] z u by (simp add: release_def)
qed

lemma allocs_apart:
  assumes "qm_inv m xs" "(p, s) \<in> allocs xs" "(q, t) \<in> allocs xs"
  shows "(p, s) = (q, t) \<or> p + s \<le> q \<or> q + t \<le> p" "first_frag m < p" "p + s \<le> last_frag_end m" "p \<noteq> 0"
proof -
  obtain bk where S: "qm_st m xs bk {} 0" using assms(1) by (auto simp: qm_inv_def)
  note B = qm_stD(1) [OF S]
  obtain f where f: "p = f + 48" "(f, s, False) \<in> set xs" using assms(2) by (auto simp: allocs_def)
  obtain g where g: "q = g + 48" "(g, t, False) \<in> set xs" using assms(3) by (auto simp: allocs_def)
  show "(p, s) = (q, t) \<or> p + s \<le> q \<or> q + t \<le> p" using contig_apart [OF block_okD(1) [OF B] f(2) g(2)] f(1) g(1) by auto
  show "first_frag m < p" "p + s \<le> last_frag_end m" "p \<noteq> 0" using frag_addr [OF B f(2)] block_okD(4) [OF B] f(1) by auto
qed

lemma allocs_distinct:
  assumes "qm_inv m (us @ (f, s, False) # vs)"
  shows "(f + 48, t) \<notin> allocs us \<union> allocs vs"
proof -
  obtain bk where S: "qm_st m (us @ (f, s, False) # vs) bk {} 0" using assms by (auto simp: qm_inv_def)
  have "f \<notin> fst ` set us" "f \<notin> fst ` set vs" using contig_distinct [OF block_okD(1) [OF qm_stD(1) [OF S]]] by auto
  then show ?thesis by (force simp: allocs_def)
qed

text \<open>The three calls on the allocated fragments.\<close>

lemma malloc_allocs:
  assumes I: "qm_inv m xs" and s: "s = unat (ROUNDUP siz)"
  shows "if fits xs s then
       \<exists>m' ys p z. qm_malloc m siz = Some (Returned (m', p)) \<and> qm_inv m' ys \<and> allocs ys = insert (p, z) (allocs xs) \<and> s \<le> z \<and>
         (\<forall>t. (p, t) \<notin> allocs xs) \<and> p \<noteq> 0 \<and> qm_data m' = qm_data m \<and> same_place m m'
     else qm_malloc m siz = Some (Returned (m, 0))"
proof (cases "fits xs s")
  case True
  from malloc_ok [OF I s] True s ROUNDUP_dvd [of siz] obtain m' us f t vs where *: "xs = us @ (f, t, True) # vs" "s \<le> t"
    "qm_malloc m siz = Some (Returned (m', f + 48))" "qm_inv m' (us @ carve f t s @ vs)" "qm_data m' = qm_data m" "same_place m m'" by auto
  let ?z = "if t - s > 104 then s else t"
  have "allocs (us @ carve f t s @ vs) = insert (f + 48, ?z) (allocs xs)" by (auto simp: *(1) allocs_carve)
  moreover have "(f + 48, u) \<notin> allocs xs" for u
  proof -
    obtain bk where S: "qm_st m xs bk {} 0" using I by (auto simp: qm_inv_def)
    have "(f, t, True) \<in> set xs" using *(1) by simp
    then show ?thesis using contig_unique [OF block_okD(1) [OF qm_stD(1) [OF S]]] by (fastforce simp: allocs_def)
  qed
  moreover have "s \<le> ?z" using *(2) by simp
  ultimately show ?thesis using True *(3-6) by (auto intro!: exI [of _ m'] exI [of _ "us @ carve f t s @ vs"] exI [of _ "f + 48"] exI [of _ ?z])
next
  case False
  then show ?thesis using malloc_ok [OF I s] s ROUNDUP_dvd [of siz] by simp
qed

lemma free_allocs:
  assumes I: "qm_inv m xs" and p: "(p, s) \<in> allocs xs"
  shows "\<exists>m' ys. qm_free m p = Some (Returned m') \<and> qm_inv m' ys \<and> allocs ys = allocs xs - {(p, s)} \<and> qm_data m' = qm_data m \<and> same_place m m'"
proof -
  obtain f where f: "p = f + 48" "(f, s, False) \<in> set xs" using p by (auto simp: allocs_def)
  then obtain us vs where xs: "xs = us @ (f, s, False) # vs" using split_list by metis
  from free_ok [OF I [unfolded xs]] obtain m' where m': "qm_free m p = Some (Returned m')" "qm_inv m' (release us f s vs)" "qm_data m' = qm_data m" "same_place m m'"
    using f(1) by blast
  have "allocs (release us f s vs) = allocs xs - {(p, s)}"
    using allocs_distinct [OF I [unfolded xs], of s] f(1) by (auto simp: xs allocs_release)
  then show ?thesis using m' by blast
qed

end
