(* ===== verification/Qm_Laws.thy ===== *)
theory Qm_Laws
  imports Qm_Run
begin

text \<open>
  What the allocator promises to its callers: an interface over the set of allocated regions and the
  bytes in them, its interpretation by the allocator, and the properties of its calls.
\<close>

subsection \<open>Reallocation\<close>

text \<open>The region \<open>(p, s)\<close> becomes \<open>(q, z)\<close>, and its first bytes move along.\<close>

definition resized :: "qm_block \<Rightarrow> frag list \<Rightarrow> nat \<Rightarrow> nat \<Rightarrow> qm_block \<Rightarrow> nat \<Rightarrow> nat \<Rightarrow> bool" where
  "resized m xs p s m' q z \<longleftrightarrow> (\<exists>ys. qm_inv m' ys \<and> allocs ys = insert (q, z) (allocs xs - {(p, s)}) \<and> (\<forall>t. (q, t) \<notin> allocs xs - {(p, s)})) \<and>
     q \<noteq> 0 \<and> same_place m m' \<and>
     (\<forall>i < min s z. qm_data m' (q + i) = qm_data m (p + i)) \<and> (\<forall>(o', t) \<in> allocs xs - {(p, s)}. \<forall>i < t. qm_data m' (o' + i) = qm_data m (o' + i))"

lemma resized_in_place:
  assumes I: "qm_inv m (us @ (f, s, False) # vs)" and I': "qm_inv m' (us @ carve f t r @ vs')" and a: "allocs vs' = allocs vs"
    and e: "same_place m m'" "qm_data m' = qm_data m"
  shows "resized m (us @ (f, s, False) # vs) (f + 48) s m' (f + 48) (if t - r > 104 then r else t)"
proof -
  let ?z = "if t - r > 104 then r else t"
  have rest: "allocs (us @ (f, s, False) # vs) - {(f + 48, s)} = allocs us \<union> allocs vs"
    using allocs_distinct [OF I, of s] by auto
  have "allocs (us @ carve f t r @ vs') = insert (f + 48, ?z) (allocs us \<union> allocs vs)" by (auto simp: allocs_carve a)
  then show ?thesis unfolding resized_def rest using I' e allocs_distinct [OF I] by auto
qed

lemma resized_move:
  assumes I: "qm_inv m xs" and p: "(p, s) \<in> allocs xs"
    and m1: "qm_inv m1 ys" "allocs ys = insert (q, z) (allocs xs)" "\<forall>t. (q, t) \<notin> allocs xs" "q \<noteq> 0" "qm_data m1 = qm_data m" "same_place m m1"
    and z: "s \<le> z"
  shows "\<exists>m'. qm_free (memcpy m1 q p s) p = Some (Returned m') \<and> resized m xs p s m' q z"
proof -
  let ?m = "memcpy m1 q p s"
  have I2: "qm_inv ?m ys" using m1(1) by (simp add: qm_inv_def memcpy_def)
  have p2: "(p, s) \<in> allocs ys" using p m1(2) by simp
  from free_allocs [OF I2 p2] obtain m' zs where m': "qm_free ?m p = Some (Returned m')" "qm_inv m' zs" "allocs zs = allocs ys - {(p, s)}"
    "qm_data m' = qm_data ?m" "same_place ?m m'" by blast
  have "(q, z) \<noteq> (p, s)" using m1(3) p by auto
  then have "allocs zs = insert (q, z) (allocs xs - {(p, s)})" using m'(3) m1(2) by auto
  moreover have "same_place m m'" using m'(5) m1(6) by (simp add: same_place_def memcpy_def)
  moreover have "qm_data m' (q + i) = qm_data m (p + i)" if "i < s" for i using m'(4) m1(5) that by (simp add: memcpy_def)
  moreover have "qm_data m' (o' + i) = qm_data m (o' + i)" if o': "(o', t) \<in> allocs xs" "i < t" for o' t i
  proof -
    have "(o', t) \<in> allocs ys" "(q, z) \<in> allocs ys" "(o', t) \<noteq> (q, z)" using o' m1(2,3) by auto
    then have "o' + t \<le> q \<or> q + z \<le> o'" using allocs_apart(1) [OF m1(1)] by blast
    then have "\<not> (q \<le> o' + i \<and> o' + i < q + s)" using z o'(2) by auto
    then show ?thesis using m'(4) m1(5) by (auto simp: memcpy_def)
  qed
  ultimately show ?thesis unfolding resized_def using m'(1,2) m1(3,4) by auto
qed

text \<open>The branches of \<open>qm_realloc\<close> on a fragment in use.\<close>

lemma realloc_run:
  assumes S: "qm_st m (us @ (f, s, False) # vs) bk {} 0" and n: "siz \<noteq> 0" and r: "r = unat (ROUNDUP siz)"
  shows "qm_realloc m (f + 48) siz =
     (if s > r then do { m \<leftarrow> qm_split_frag m f r; Some (Returned (m, f + 48)) }
      else if s = r then Some (Returned (m, f + 48))
      else case vs of
        (g, t, True) # _ \<Rightarrow> if r - s \<le> t + 96 then do { m \<leftarrow> qm_realloc_join m f g s r; Some (Returned (m, f + 48)) }
                          else qm_realloc_move m (f + 48) s r
      | _ \<Rightarrow> qm_realloc_move m (f + 48) s r)"
proof -
  note D = qm_stD [OF S] and A = frag_addr [OF qm_stD(1) [OF S], of f s False] and N = next_addr [OF qm_stD(1) [OF S]]
  have Q: "QM_FRAG (f + 48) = f" by (simp add: QM_FRAG_def qm_sizes)
  have "f + 48 \<le> last_frag_end m" "first_frag m \<le> f + 48" using A(1,2) block_okD(4) [OF D(1)] by auto
  moreover have "qm_debug_frag m f = Some True" by (rule debug_frag_ok [OF D(1)]) auto
  moreover have "nxt_free m f = Some 0" using flag_of [OF S, of f s False] by auto
  ultimately have run: "qm_realloc m (f + 48) siz = (if s > r then do { m \<leftarrow> qm_split_frag m f r; Some (Returned (m, f + 48)) }
            else if s < r then do {
              join \<leftarrow> (if f + s + 96 < last_frag_end m then do {
                         free \<leftarrow> nxt_free m (f + s + 96);
                         if free \<noteq> 0 then do { t \<leftarrow> frag_size m (f + s + 96); Some (t + FRAG_OVERHEAD \<ge> r - s) } else Some False }
                       else Some False);
              if join then do { m \<leftarrow> qm_realloc_join m f (f + s + 96) s r; Some (Returned (m, f + 48)) }
              else qm_realloc_move m (f + 48) s r }
            else Some (Returned (m, f + 48)))"
    using A(4) N(1) n unfolding qm_realloc_def r [symmetric] Let_def Q by simp
  show ?thesis
  proof (cases vs)
    case Nil
    then show ?thesis using run N by auto
  next
    case (Cons v vs')
    then obtain t b where v: "v = (f + s + 96, t, b)" using N(3) by (cases v) auto
    have g: "(f + s + 96, t, b) \<in> set (us @ (f, s, False) # vs)" using Cons v by simp
    obtain n where "nxt_free m (f + s + 96) = Some n" "n \<noteq> 0 \<longleftrightarrow> b" using flag_of [OF S g] by auto
    then show ?thesis using run N Cons v frag_addr(4) [OF D(1) g] by (cases b) (auto simp: qm_sizes)
  qed
qed

definition realloc_done :: "qm_block \<Rightarrow> frag list \<Rightarrow> nat \<Rightarrow> nat \<Rightarrow> nat \<Rightarrow> (qm_block \<times> nat) outcome option \<Rightarrow> bool" where
  "realloc_done m xs p s r res \<longleftrightarrow>
     (\<exists>m' q z. res = Some (Returned (m', q)) \<and> resized m xs p s m' q z \<and> r \<le> z) \<or> res = Some (Returned (m, 0)) \<and> s < r \<and> \<not> fits xs r"

lemma realloc_moved:
  assumes I: "qm_inv m xs" and p: "(p, s) \<in> allocs xs" and r: "r = unat (ROUNDUP siz)" "s < r"
  shows "realloc_done m xs p s r (qm_realloc_move m p s r)"
proof (cases "fits xs r")
  case True
  have rr: "r = unat (ROUNDUP (of_nat r))" using ROUNDUP_idem [of siz] r by simp
  from malloc_allocs [OF I rr] True obtain m1 ys q z where m1: "qm_malloc m (of_nat r) = Some (Returned (m1, q))" "qm_inv m1 ys"
    "allocs ys = insert (q, z) (allocs xs)" "r \<le> z" "\<forall>t. (q, t) \<notin> allocs xs" "q \<noteq> 0" "qm_data m1 = qm_data m" "same_place m m1" by auto
  from resized_move [OF I p m1(2,3,5-8)] r(2) m1(4) obtain m' where m': "qm_free (memcpy m1 q p s) p = Some (Returned m')" "resized m xs p s m' q z"
    by auto
  then have "qm_realloc_move m p s r = Some (Returned (m', q))" using m1(1,6) by (simp add: qm_realloc_move_def)
  then show ?thesis using m'(2) m1(4) by (auto simp: realloc_done_def)
next
  case False
  have rr: "r = unat (ROUNDUP (of_nat r))" using ROUNDUP_idem [of siz] r by simp
  then have "qm_malloc m (of_nat r) = Some (Returned (m, 0))" using malloc_allocs [OF I rr] False by simp
  then show ?thesis using r(2) False by (simp add: realloc_done_def qm_realloc_move_def)
qed

lemma realloc_in_place:
  assumes I: "qm_inv m (us @ (f, s, False) # vs)" and S': "qm_st m' (us @ carve f t r @ vs') bk' {} 0" "same_env m m'"
    and v: "allocs vs' = allocs vs" "busy vs' = busy vs" and t: "r \<le> t"
  shows "realloc_done m (us @ (f, s, False) # vs) (f + 48) s r (Some (Returned (m', f + 48)))"
proof -
  let ?z = "if t - r > 104 then r else t"
  have "qm_inv m' (us @ carve f t r @ vs')" using I S' v(2) by (auto simp: qm_inv_def same_env_def carve_def)
  then have "resized m (us @ (f, s, False) # vs) (f + 48) s m' (f + 48) ?z"
    by (rule resized_in_place [OF I]) (use S'(2) v(1) in \<open>auto simp: same_env_def same_place_def\<close>)
  moreover have "r \<le> ?z" using t by simp
  ultimately show ?thesis unfolding realloc_done_def by blast
qed

lemma realloc_allocs:
  assumes I: "qm_inv m xs" and p: "(p, s) \<in> allocs xs" and n: "siz \<noteq> 0" and r: "r = unat (ROUNDUP siz)"
  shows "realloc_done m xs p s r (qm_realloc m p siz)"
proof -
  obtain f where f: "p = f + 48" "(f, s, False) \<in> set xs" using p by (auto simp: allocs_def)
  then obtain us vs where xs: "xs = us @ (f, s, False) # vs" using split_list by metis
  obtain bk where S: "qm_st m (us @ (f, s, False) # vs) bk {} 0" using I xs by (auto simp: qm_inv_def)
  note run = realloc_run [OF S n r] and I' = I [unfolded xs]
  have dr: "8 dvd r" by (simp add: r ROUNDUP_dvd)
  have move: "realloc_done m xs p s r (qm_realloc_move m p s r)" if "s < r" using realloc_moved [OF I p r that] .
  consider "r < s" | "r = s" | "s < r" by linarith
  then show ?thesis
  proof cases
    case 1
    then have "r \<le> s" by simp
    from split_ok [OF S this dr] obtain m' bk' where m': "qm_split_frag m f r = Some m'" "qm_st m' (us @ carve f s r @ vs) bk' {} 0" "same_env m m'" by blast
    then show ?thesis using realloc_in_place [OF I' m'(2,3)] run 1 f(1) xs by simp
  next
    case 2
    then have "qm_st m (us @ carve f s r @ vs) bk {} 0" using S by (simp add: carve_def)
    from realloc_in_place [OF I' this] show ?thesis using run 2 f(1) xs by simp
  next
    case 3
    show ?thesis
    proof (cases "\<exists>g t vs'. vs = (g, t, True) # vs' \<and> r - s \<le> t + 96")
      case True
      then obtain g t vs' where vs: "vs = (g, t, True) # vs'" "r \<le> s + t + 96" "r - s \<le> t + 96" by auto
      from realloc_join_ok [OF S [unfolded vs(1)] vs(2) dr] obtain m' bk' where
        m': "qm_realloc_join m f g s r = Some m'" "qm_st m' (us @ carve f (s + t + 96) r @ vs') bk' {} 0" "same_env m m'" by blast
      then show ?thesis using realloc_in_place [OF I' m'(2,3)] run 3 f(1) xs vs by simp
    next
      case False
      then have "qm_realloc m p siz = qm_realloc_move m p s r" using run 3 f(1) by (auto split: list.splits bool.splits)
      then show ?thesis using move 3 by simp
    qed
  qed
qed

subsection \<open>Initialisation\<close>

lemma map_of_inj: "inj_on g (set ks) \<Longrightarrow> k \<in> set ks \<Longrightarrow> map_of (map (\<lambda>k. (g k, c k)) ks) (g k) = Some (c k)"
  by (induction ks) (auto simp: inj_on_def)

definition qm_first :: "nat \<Rightarrow> nat \<Rightarrow> (nat \<Rightarrow> u8) \<Rightarrow> qm_block" where
  "qm_first a siz bytes =
     (let first = a + QM_BLOCK_SIZE; lst = a + siz - QM_FRAG_END_SIZE; s = siz - (QM_BLOCK_SIZE + FRAG_OVERHEAD);
          hs = map (\<lambda>h. a + QM_FREE_HASH + h * QM_FRAG_LNK_SIZE) [0..<QM_HASH_SIZE]
      in \<lparr>qm_addr = a, qm_size = int siz, qm_used = int s, real_used = int siz, max_real_used = 0, fragments = 0,
                     first_frag = first, last_frag_end = lst, free_no = (\<lambda>h. 0),
                     frag_size = (map_of (map (\<lambda>h. (h, 0)) hs))(first \<mapsto> s),
                     nxt_free = map_of (map (\<lambda>h. (h, h)) hs),
                     frag_check = (map_of (map (\<lambda>h. (h, 0)) hs))(first \<mapsto> ST_CHECK_PATTERN),
                     end_size = (map_of (map (\<lambda>h. (h + QM_FRAG_OVERHEAD, 0)) hs))(lst \<mapsto> s),
                     prev_free = map_of (map (\<lambda>h. (h + QM_FRAG_OVERHEAD, h)) hs),
                     end_check1 = (map_of (map (\<lambda>h. (h + QM_FRAG_OVERHEAD, 0)) hs))(lst \<mapsto> END_CHECK_PATTERN1),
                     end_check2 = (map_of (map (\<lambda>h. (h + QM_FRAG_OVERHEAD, 0)) hs))(lst \<mapsto> END_CHECK_PATTERN2),
                     qm_data = bytes\<rparr>)"

lemma qm_first_st:
  assumes a: "0 < a" "8 dvd a" and siz: "QM_BLOCK_SIZE + FRAG_OVERHEAD \<le> siz" "8 dvd siz" "a + siz \<le> 2 ^ 64"
  shows "qm_st (qm_first a siz bytes) [(a + QM_BLOCK_SIZE, siz - (QM_BLOCK_SIZE + FRAG_OVERHEAD), False)] (\<lambda>h. []) (insert (a + QM_BLOCK_SIZE) {}) 0"
    (is "qm_st ?m [(?f, ?s, False)] _ _ _")
proof -
  let ?hs = "map (\<lambda>h. a + QM_FREE_HASH + h * QM_FRAG_LNK_SIZE) [0..<QM_HASH_SIZE]"
  have head: "free_head ?m h = a + QM_FREE_HASH + h * QM_FRAG_LNK_SIZE" for h by (simp add: free_head_def qm_first_def Let_def)
  have mem: "free_head ?m h \<in> set ?hs" if "h < QM_HASH_SIZE" for h using that unfolding head by auto
  have addr: "qm_addr ?m = a" by (simp add: qm_first_def Let_def)
  have low: "free_head ?m h \<noteq> ?f" if "h < QM_HASH_SIZE" for h using head_addr(1) [OF that, of ?m] addr by simp
  have fs: "frag_size ?m (free_head ?m h) = Some 0" "nxt_free ?m (free_head ?m h) = Some (free_head ?m h)"
      "prev_free ?m (free_head ?m h + 48) = Some (free_head ?m h)" if h: "h < QM_HASH_SIZE" for h
  proof -
    note K = map_of_inj [OF _ mem [OF h]]
    show "frag_size ?m (free_head ?m h) = Some 0" using K [of "\<lambda>h. h" "\<lambda>h. 0"] low [OF h] by (simp add: qm_first_def Let_def)
    show "nxt_free ?m (free_head ?m h) = Some (free_head ?m h)" using K [of "\<lambda>h. h" "\<lambda>h. h"] by (simp add: qm_first_def Let_def)
    show "prev_free ?m (free_head ?m h + 48) = Some (free_head ?m h)"
      using K [of "\<lambda>h. h + 48" "\<lambda>h. h"] by (simp add: qm_first_def Let_def QM_FRAG_OVERHEAD_def)
  qed
  have "8 dvd ?s" using siz(2) by (simp add: dvd_diff_nat qm_sizes)
  then have "block_ok ?m [(?f, ?s, False)]" using a siz fs(1) addr
    by (simp add: block_ok_def frag_ok_def qm_first_def Let_def qm_sizes)
  moreover have "list_ok ?m [(?f, ?s, False)] h []" if h: "h < QM_HASH_SIZE" for h
    using fs [OF h] by (simp add: list_ok_def endp_def)
  moreover have "bytes_ok ?m [(?f, ?s, False)] 0" by (simp add: bytes_ok_def qm_first_def Let_def)
  moreover have "counts_ok ?m (\<lambda>h. [])" by (simp add: counts_ok_def qm_first_def Let_def)
  ultimately show ?thesis by (simp add: qm_st_def lists_ok_def flags_ok_def)
qed

lemma qm_first_ok:
  assumes "0 < a" "8 dvd a" "QM_BLOCK_SIZE + FRAG_OVERHEAD \<le> siz" "8 dvd siz" "a + siz \<le> 2 ^ 64"
  shows "\<exists>m. qm_insert_free (qm_first a siz bytes) (a + QM_BLOCK_SIZE) = Some m \<and> qm_addr m = a \<and> qm_size m = int siz \<and>
     qm_inv m [(a + QM_BLOCK_SIZE, siz - (QM_BLOCK_SIZE + FRAG_OVERHEAD), True)]"
proof -
  have "qm_st (qm_first a siz bytes) ([] @ (a + QM_BLOCK_SIZE, siz - (QM_BLOCK_SIZE + FRAG_OVERHEAD), False) # []) (\<lambda>h. []) (insert (a + QM_BLOCK_SIZE) {}) 0"
    using qm_first_st [OF assms] by simp
  from put_ok [OF this] show ?thesis by (auto simp: qm_inv_def same_env_def qm_first_def Let_def)
qed

lemma block_rounded: "unat (ROUNDUP (of_nat QM_BLOCK_SIZE)) = QM_BLOCK_SIZE"
  by (simp add: ROUNDUP_unat qm_sizes)

lemma ROUNDDOWN_unat: "unat (ROUNDDOWN x) = unat x div 8 * 8"
  unfolding ROUNDDOWN_def by (rule unat_and_not7)

lemma init_eq:
  assumes "start = ROUNDUP address" "rest = ROUNDDOWN (siz - (start - address))"
  shows "qm_malloc_init address siz bytes =
     (if siz < start - address \<or> siz - (start - address) < 104 \<or> unat rest < QM_BLOCK_SIZE + FRAG_OVERHEAD then Some None
      else map_option Some (qm_insert_free (qm_first (unat start) (unat rest) bytes) (unat start + QM_BLOCK_SIZE)))"
proof -
  have o: "QM_BLOCK_SIZE + QM_FRAG_OVERHEAD + QM_FRAG_END_SIZE = QM_BLOCK_SIZE + FRAG_OVERHEAD" "MIN_FRAG_SIZE + FRAG_OVERHEAD = 104"
    by (simp_all add: qm_sizes)
  show ?thesis unfolding qm_malloc_init_def qm_first_def block_rounded assms Let_def o by simp
qed

lemma init_ok:
  assumes a: "address \<noteq> 0" and e: "unat address + unat siz \<le> 2 ^ 64"
  shows "\<exists>r. qm_malloc_init address siz bytes = Some r \<and>
     (case r of None \<Rightarrow> unat siz < QM_BLOCK_SIZE + FRAG_OVERHEAD + 14
      | Some m \<Rightarrow> \<exists>f s. qm_inv m [(f, s, True)] \<and> unat address \<le> qm_addr m \<and> f + s + FRAG_OVERHEAD \<le> unat address + unat siz \<and>
                   unat siz < s + QM_BLOCK_SIZE + FRAG_OVERHEAD + 15)"
proof -
  define start rest where "start = ROUNDUP address" and "rest = ROUNDDOWN (siz - (start - address))"
  note eq = init_eq [OF start_def rest_def, of bytes]
  have rest: "unat rest = unat (siz - (start - address)) div 8 * 8" by (simp add: rest_def ROUNDDOWN_unat)
  show ?thesis
  proof (cases "unat address + 7 < 2 ^ 64")
    case False
    then have "unat siz < 8" using e by simp
    moreover have "siz < start - address \<or> siz - (start - address) < 104"
    proof -
      have "unat (siz - (start - address)) \<le> unat siz" if "start - address \<le> siz" using that by (simp add: unat_sub)
      then show ?thesis using \<open>unat siz < 8\<close> by (cases "start - address \<le> siz") (auto simp: word_less_nat_alt word_le_nat_alt)
    qed
    ultimately show ?thesis unfolding eq by (auto simp: qm_sizes)
  next
    case True
    have st: "unat address \<le> unat start" "unat start < unat address + 8" "8 dvd unat start" using ROUNDUP_ge [OF True] ROUNDUP_dvd [of address] by (auto simp: start_def)
    have "unat (start - address) = unat start - unat address" using st(1) by (simp add: unat_sub word_le_nat_alt)
    then have d: "unat (start - address) \<le> 7" "unat start = unat address + unat (start - address)" using st by auto
    show ?thesis
    proof (cases "siz < start - address \<or> siz - (start - address) < 104 \<or> unat rest < QM_BLOCK_SIZE + FRAG_OVERHEAD")
      case small: True
      have "unat siz < QM_BLOCK_SIZE + FRAG_OVERHEAD + 14"
      proof (cases "siz < start - address")
        case False
        then have u: "unat (siz - (start - address)) = unat siz - unat (start - address)" by (simp add: unat_sub not_less)
        have "unat (siz - (start - address)) < QM_BLOCK_SIZE + FRAG_OVERHEAD + 7 \<or> unat (siz - (start - address)) < 104"
          using small False unfolding rest by (auto simp: word_less_nat_alt qm_sizes)
        then show ?thesis using u d(1) by (auto simp: qm_sizes)
      qed (use d in \<open>auto simp: word_less_nat_alt qm_sizes\<close>)
      then show ?thesis unfolding eq using small by auto
    next
      case big: False
      then have u: "unat (siz - (start - address)) = unat siz - unat (start - address)" "unat (start - address) \<le> unat siz"
        by (auto simp: unat_sub not_less word_le_nat_alt)
      have r: "unat rest \<le> unat siz - unat (start - address)" "unat siz - unat (start - address) < unat rest + 8" "8 dvd unat rest"
        unfolding rest u(1) by presburger+
      have s0: "0 < unat start" using a d(2) by (simp add: unat_gt_0)
      have sr: "unat start + unat rest \<le> 2 ^ 64" using r(1) e d(2) u(2) by linarith
      from qm_first_ok [OF s0 st(3) _ r(3) sr, of bytes] big obtain m where m: "qm_insert_free (qm_first (unat start) (unat rest) bytes) (unat start + QM_BLOCK_SIZE) = Some m"
        "qm_addr m = unat start" "qm_inv m [(unat start + QM_BLOCK_SIZE, unat rest - (QM_BLOCK_SIZE + FRAG_OVERHEAD), True)]" by auto
      have "\<exists>f s. qm_inv m [(f, s, True)] \<and> unat address \<le> qm_addr m \<and> f + s + FRAG_OVERHEAD \<le> unat address + unat siz \<and>
                   unat siz < s + QM_BLOCK_SIZE + FRAG_OVERHEAD + 15"
        by (rule exI [of _ "unat start + QM_BLOCK_SIZE"], rule exI [of _ "unat rest - (QM_BLOCK_SIZE + FRAG_OVERHEAD)"]) (use m(2,3) big r d u st in auto)
      then show ?thesis unfolding eq using big m(1) by auto
    qed
  qed
qed

end
