(* ===== verification/Qm_Pool.thy ===== *)
theory Qm_Pool
  imports Qm_Laws
begin

text \<open>
  The contract of the allocator with its callers, the calls in any order as a state machine, and the
  errors it detects and does not detect.
\<close>

subsection \<open>The interface of an allocator\<close>

text \<open>
  \<open>rep m A\<close>: the regions \<open>A\<close> are allocated, each an address and a number of bytes. \<open>poke m p bs\<close> stores the
  bytes \<open>bs\<close> from the address \<open>p\<close> on.
\<close>

locale allocator =
  fixes rep :: "'m \<Rightarrow> (nat \<times> nat) set \<Rightarrow> bool"
    and bytes :: "'m \<Rightarrow> nat \<Rightarrow> u8"
    and malloc :: "'m \<Rightarrow> u64 \<Rightarrow> ('m \<times> nat) outcome option"
    and free :: "'m \<Rightarrow> nat \<Rightarrow> 'm outcome option"
    and realloc :: "'m \<Rightarrow> nat \<Rightarrow> u64 \<Rightarrow> ('m \<times> nat) outcome option"
    and poke :: "'m \<Rightarrow> nat \<Rightarrow> u8 list \<Rightarrow> 'm"
  assumes apart_law: "rep m A \<Longrightarrow> (p, s) \<in> A \<Longrightarrow> (q, t) \<in> A \<Longrightarrow> (p, s) = (q, t) \<or> p + s \<le> q \<or> q + t \<le> p"
    and null_law: "rep m A \<Longrightarrow> (p, s) \<in> A \<Longrightarrow> p \<noteq> 0"
    and malloc_law: "rep m A \<Longrightarrow> unat n + 7 < 2 ^ 64 \<Longrightarrow> \<exists>m' p. malloc m n = Some (Returned (m', p)) \<and>
        (p = 0 \<and> m' = m \<or> p \<noteq> 0 \<and> (\<exists>z \<ge> unat n. rep m' (insert (p, z) A) \<and> (\<forall>t. (p, t) \<notin> A)) \<and> bytes m' = bytes m)"
    and free_law: "rep m A \<Longrightarrow> (p, s) \<in> A \<Longrightarrow> \<exists>m'. free m p = Some (Returned m') \<and> rep m' (A - {(p, s)}) \<and> bytes m' = bytes m"
    and realloc_law: "rep m A \<Longrightarrow> (p, s) \<in> A \<Longrightarrow> n \<noteq> 0 \<Longrightarrow> unat n + 7 < 2 ^ 64 \<Longrightarrow> \<exists>m' q. realloc m p n = Some (Returned (m', q)) \<and>
        (q = 0 \<and> m' = m \<or> q \<noteq> 0 \<and> (\<exists>z \<ge> unat n. rep m' (insert (q, z) (A - {(p, s)})) \<and> (\<forall>t. (q, t) \<notin> A - {(p, s)}) \<and>
           (\<forall>i < min s z. bytes m' (q + i) = bytes m (p + i)) \<and> (\<forall>(o', t) \<in> A - {(p, s)}. \<forall>i < t. bytes m' (o' + i) = bytes m (o' + i))))"
    and realloc_null: "n \<noteq> 0 \<Longrightarrow> realloc m 0 n = malloc m n"
    and write_law: "rep m A \<Longrightarrow> rep (poke m p bs) A"
    and write_bytes: "bytes (poke m p bs) a = (if p \<le> a \<and> a < p + length bs then bs ! (a - p) else bytes m a)"
begin

text \<open>The bytes of a region, and of all regions together.\<close>

definition read :: "'m \<Rightarrow> nat \<Rightarrow> nat \<Rightarrow> u8 list" where
  "read m p n = map (\<lambda>i. bytes m (p + i)) [0..<n]"

definition unchanged :: "'m \<Rightarrow> 'm \<Rightarrow> (nat \<times> nat) set \<Rightarrow> bool" where
  "unchanged m m' A \<longleftrightarrow> (\<forall>(p, s) \<in> A. read m' p s = read m p s)"

lemma read_write: "length bs = n \<Longrightarrow> read (poke m p bs) p n = bs"
  by (auto simp: read_def write_bytes intro: nth_equalityI)

lemma unchanged_refl: "bytes m' = bytes m \<Longrightarrow> unchanged m m' A"
  by (simp add: unchanged_def read_def)

lemma unchanged_trans: "unchanged m m' A \<Longrightarrow> unchanged m' m'' A \<Longrightarrow> unchanged m m'' A"
  by (fastforce simp: unchanged_def)

text \<open>A write inside of a region is seen by no other.\<close>

lemma write_unchanged:
  assumes "rep m (insert (p, z) A)" "\<forall>t. (p, t) \<notin> A" "length bs \<le> z"
  shows "unchanged m (poke m p bs) A"
proof -
  have "read (poke m p bs) q t = read m q t" if "(q, t) \<in> A" for q t
  proof -
    have "(q, t) \<noteq> (p, z)" using assms(2) that by auto
    then have "q + t \<le> p \<or> p + z \<le> q" using apart_law [OF assms(1), of p z q t] that by auto
    then show ?thesis using assms(3) by (auto simp: read_def write_bytes)
  qed
  then show ?thesis by (auto simp: unchanged_def)
qed

text \<open>A copy of a string in a new region.\<close>

lemma malloc_copy:
  assumes "rep m A" "unat n + 7 < 2 ^ 64" "malloc m n = Some (Returned (m', p))" "p \<noteq> 0" "length bs \<le> unat n"
  shows "\<exists>z \<ge> unat n. rep (poke m' p bs) (insert (p, z) A) \<and> (\<forall>t. (p, t) \<notin> A) \<and> read (poke m' p bs) p (length bs) = bs \<and>
     unchanged m (poke m' p bs) A"
proof -
  obtain z where z: "unat n \<le> z" "rep m' (insert (p, z) A)" "\<forall>t. (p, t) \<notin> A" "bytes m' = bytes m"
    using malloc_law [OF assms(1,2)] assms(3,4) by auto
  have "unchanged m (poke m' p bs) A"
    by (rule unchanged_trans [OF unchanged_refl [OF z(4)] write_unchanged [OF z(2,3)]]) (use assms(5) z(1) in simp)
  then show ?thesis using z write_law [OF z(2)] read_write by blast
qed

end

definition memwrite :: "qm_block \<Rightarrow> nat \<Rightarrow> u8 list \<Rightarrow> qm_block" where
  "memwrite m p bs = m\<lparr>qm_data := (\<lambda>a. if p \<le> a \<and> a < p + length bs then bs ! (a - p) else qm_data m a)\<rparr>"

definition pool_rep :: "qm_block \<Rightarrow> (nat \<times> nat) set \<Rightarrow> bool" where
  "pool_rep m A \<longleftrightarrow> (\<exists>xs. qm_inv m xs \<and> allocs xs = A)"

lemma qm_inv_write: "qm_inv (memwrite m p bs) xs = qm_inv m xs"
  by (simp add: qm_inv_def memwrite_def)

interpretation qm: allocator pool_rep qm_data qm_malloc qm_free qm_realloc memwrite
proof
  fix m :: qm_block and A p s q t and n :: u64 and bs a
  show "pool_rep m A \<Longrightarrow> (p, s) \<in> A \<Longrightarrow> (q, t) \<in> A \<Longrightarrow> (p, s) = (q, t) \<or> p + s \<le> q \<or> q + t \<le> p"
    using allocs_apart(1) [of m _ p s q t] by (auto simp: pool_rep_def)
  show "pool_rep m A \<Longrightarrow> (p, s) \<in> A \<Longrightarrow> p \<noteq> 0" using allocs_apart(4) [of m _ p s p s] by (auto simp: pool_rep_def)
  show "pool_rep m A \<Longrightarrow> pool_rep (memwrite m p bs) A" by (simp add: pool_rep_def qm_inv_write)
  show "qm_data (memwrite m p bs) a = (if p \<le> a \<and> a < p + length bs then bs ! (a - p) else qm_data m a)" by (simp add: memwrite_def)
  show "n \<noteq> 0 \<Longrightarrow> qm_realloc m 0 n = qm_malloc m n" by (simp add: qm_realloc_def)
  assume "pool_rep m A"
  then obtain xs where I: "qm_inv m xs" "allocs xs = A" by (auto simp: pool_rep_def)
  show "(p, s) \<in> A \<Longrightarrow> \<exists>m'. qm_free m p = Some (Returned m') \<and> pool_rep m' (A - {(p, s)}) \<and> qm_data m' = qm_data m"
    using free_allocs [OF I(1), of p s] I(2) unfolding pool_rep_def by blast
  assume n: "unat n + 7 < 2 ^ 64"
  note R = ROUNDUP_ge [OF n, THEN conjunct1]
  show "\<exists>m' p. qm_malloc m n = Some (Returned (m', p)) \<and>
      (p = 0 \<and> m' = m \<or> p \<noteq> 0 \<and> (\<exists>z \<ge> unat n. pool_rep m' (insert (p, z) A) \<and> (\<forall>t. (p, t) \<notin> A)) \<and> qm_data m' = qm_data m)"
  proof (cases "fits xs (unat (ROUNDUP n))")
    case True
    then obtain m' ys p z where "qm_malloc m n = Some (Returned (m', p))" "qm_inv m' ys" "allocs ys = insert (p, z) (allocs xs)" "unat (ROUNDUP n) \<le> z"
      "\<forall>t. (p, t) \<notin> allocs xs" "p \<noteq> 0" "qm_data m' = qm_data m" using malloc_allocs [OF I(1) refl, of n] by auto
    then show ?thesis using I(2) R unfolding pool_rep_def by (meson le_trans)
  next
    case False
    then show ?thesis using malloc_allocs [OF I(1) refl, of n] by auto
  qed
  assume p: "(p, s) \<in> A" "n \<noteq> 0"
  from realloc_allocs [OF I(1) _ p(2) refl] p(1) I(2) have "realloc_done m xs p s (unat (ROUNDUP n)) (qm_realloc m p n)" by blast
  then show "\<exists>m' q. qm_realloc m p n = Some (Returned (m', q)) \<and>
        (q = 0 \<and> m' = m \<or> q \<noteq> 0 \<and> (\<exists>z \<ge> unat n. pool_rep m' (insert (q, z) (A - {(p, s)})) \<and> (\<forall>t. (q, t) \<notin> A - {(p, s)}) \<and>
           (\<forall>i < min s z. qm_data m' (q + i) = qm_data m (p + i)) \<and> (\<forall>(o', t) \<in> A - {(p, s)}. \<forall>i < t. qm_data m' (o' + i) = qm_data m (o' + i))))"
    unfolding realloc_done_def resized_def I(2)
  proof (elim disjE exE conjE)
    fix m' q z ys
    assume "qm_realloc m p n = Some (Returned (m', q))" "unat (ROUNDUP n) \<le> z" "qm_inv m' ys" "allocs ys = insert (q, z) (A - {(p, s)})"
      "\<forall>t. (q, t) \<notin> A - {(p, s)}" "q \<noteq> 0" "\<forall>i < min s z. qm_data m' (q + i) = qm_data m (p + i)"
      "\<forall>(o', t) \<in> A - {(p, s)}. \<forall>i < t. qm_data m' (o' + i) = qm_data m (o' + i)"
    then show ?thesis using R pool_rep_def [of m' "insert (q, z) (A - {(p, s)})"] by (intro exI [of _ m'] exI [of _ q]) (auto intro!: exI [of _ z])
  qed auto
qed

subsection \<open>Calls in any order\<close>

text \<open>
  The state is the block and what its callers hold: from the address of a region to the number of
  bytes they asked for. They write inside of their regions only, and they ask for less than
  \<open>2 ^ 64 - 7\<close> bytes.
\<close>

datatype pool_op = Malloc u64 | Free nat | Realloc nat u64 | Write nat nat u8

type_synonym pool = "qm_block \<times> (nat \<rightharpoonup> nat)"

inductive pool_step :: "pool \<Rightarrow> pool_op \<Rightarrow> pool \<Rightarrow> bool" where
  got: "unat n + 7 < 2 ^ 64 \<Longrightarrow> qm_malloc m n = Some (Returned (m', p)) \<Longrightarrow> p \<noteq> 0 \<Longrightarrow> pool_step (m, A) (Malloc n) (m', A(p \<mapsto> unat n))"
| full: "unat n + 7 < 2 ^ 64 \<Longrightarrow> qm_malloc m n = Some (Returned (m', 0)) \<Longrightarrow> pool_step (m, A) (Malloc n) (m', A)"
| freed: "A p = Some k \<Longrightarrow> qm_free m p = Some (Returned m') \<Longrightarrow> pool_step (m, A) (Free p) (m', A(p := None))"
| moved: "A p = Some k \<Longrightarrow> n \<noteq> 0 \<Longrightarrow> unat n + 7 < 2 ^ 64 \<Longrightarrow> qm_realloc m p n = Some (Returned (m', q)) \<Longrightarrow> q \<noteq> 0 \<Longrightarrow>
     pool_step (m, A) (Realloc p n) (m', A(p := None, q \<mapsto> unat n))"
| kept: "A p = Some k \<Longrightarrow> n \<noteq> 0 \<Longrightarrow> unat n + 7 < 2 ^ 64 \<Longrightarrow> qm_realloc m p n = Some (Returned (m', 0)) \<Longrightarrow>
     pool_step (m, A) (Realloc p n) (m', A)"
| wrote: "A p = Some k \<Longrightarrow> i < k \<Longrightarrow> pool_step (m, A) (Write p i v) (memwrite m (p + i) [v], A)"

definition pool_init :: "pool \<Rightarrow> bool" where
  "pool_init s \<longleftrightarrow> (\<exists>address siz bytes m. address \<noteq> 0 \<and> unat address + unat siz \<le> 2 ^ 64 \<and>
     qm_malloc_init address siz bytes = Some (Some m) \<and> s = (m, Map.empty))"

definition holds :: "(nat \<rightharpoonup> nat) \<Rightarrow> (nat \<times> nat) set \<Rightarrow> bool" where
  "holds A R \<longleftrightarrow> (\<forall>p k. A p = Some k \<longrightarrow> (\<exists>z \<ge> k. (p, z) \<in> R)) \<and> (\<forall>p z. (p, z) \<in> R \<longrightarrow> A p \<noteq> None)"

definition pool_inv :: "pool \<Rightarrow> bool" where
  "pool_inv s \<longleftrightarrow> (\<exists>R. pool_rep (fst s) R \<and> holds (snd s) R)"

lemma holdsD:
  assumes "holds A R"
  shows "A p = Some k \<Longrightarrow> \<exists>z \<ge> k. (p, z) \<in> R" "(p, z) \<in> R \<Longrightarrow> \<exists>k. A p = Some k"
  using assms by (auto simp: holds_def)

lemma rep_unique: "pool_rep m R \<Longrightarrow> (p, s) \<in> R \<Longrightarrow> (p, t) \<in> R \<Longrightarrow> s = t"
proof -
  assume R: "pool_rep m R" "(p, s) \<in> R" "(p, t) \<in> R"
  then obtain xs where xs: "qm_inv m xs" "allocs xs = R" by (auto simp: pool_rep_def)
  then obtain bk where S: "qm_st m xs bk {} 0" by (auto simp: qm_inv_def)
  show "s = t" using R(2,3) xs(2) contig_unique [OF block_okD(1) [OF qm_stD(1) [OF S]]] by (auto simp: allocs_def)
qed

lemma holdsI:
  "(\<And>p k. A p = Some k \<Longrightarrow> \<exists>z \<ge> k. (p, z) \<in> R) \<Longrightarrow> (\<And>p z. (p, z) \<in> R \<Longrightarrow> \<exists>k. A p = Some k) \<Longrightarrow> holds A R"
  unfolding holds_def by (metis option.distinct(1))

lemma holds_insert:
  assumes "holds A R" "k \<le> z" "\<forall>t. (p, t) \<notin> R"
  shows "holds (A(p \<mapsto> k)) (insert (p, z) R)"
proof (rule holdsI)
  show "\<exists>y \<ge> j. (q, y) \<in> insert (p, z) R" if "(A(p \<mapsto> k)) q = Some j" for q j
    using that assms(2) holdsD(1) [OF assms(1), of q j] by (cases "q = p") auto
  show "\<exists>j. (A(p \<mapsto> k)) q = Some j" if "(q, y) \<in> insert (p, z) R" for q y
    using that holdsD(2) [OF assms(1), of q y] by (cases "q = p") auto
qed

lemma holds_remove:
  assumes "pool_rep m R" "holds A R" "(p, s) \<in> R"
  shows "holds (A(p := None)) (R - {(p, s)})"
proof (rule holdsI)
  show "\<exists>y \<ge> j. (q, y) \<in> R - {(p, s)}" if "(A(p := None)) q = Some j" for q j
    using that holdsD(1) [OF assms(2), of q j] by (cases "q = p") auto
  show "\<exists>j. (A(p := None)) q = Some j" if "(q, y) \<in> R - {(p, s)}" for q y
    using that holdsD(2) [OF assms(2), of q y] rep_unique [OF assms(1,3), of y] by (cases "q = p") auto
qed

lemma pool_init_inv: "pool_init s \<Longrightarrow> pool_inv s"
proof -
  assume "pool_init s"
  then obtain address siz bytes m where m: "address \<noteq> 0" "unat address + unat siz \<le> 2 ^ 64" "qm_malloc_init address siz bytes = Some (Some m)" "s = (m, Map.empty)"
    by (auto simp: pool_init_def)
  obtain f z where "qm_inv m [(f, z, True)]" using init_ok [OF m(1,2), of bytes] m(3) by auto
  then have "pool_rep m {}" unfolding pool_rep_def by (intro exI [of _ "[(f, z, True)]"]) simp
  then show "pool_inv s" using m(4) by (auto simp: pool_inv_def holds_def)
qed

lemma pool_step_inv:
  assumes "pool_inv s" "pool_step s e s'"
  shows "pool_inv s'"
proof -
  obtain m A where s: "s = (m, A)" by (cases s)
  then obtain R where R: "pool_rep m R" "holds A R" using assms(1) by (auto simp: pool_inv_def)
  from assms(2) [unfolded s] show ?thesis
  proof (cases rule: pool_step.cases)
    case (got n m' p)
    then obtain z where "unat n \<le> z" "pool_rep m' (insert (p, z) R)" "\<forall>t. (p, t) \<notin> R" using qm.malloc_law [OF R(1) got(3)] by auto
    then show ?thesis using got(2) holds_insert [OF R(2), of "unat n" z p] by (auto simp: pool_inv_def)
  next
    case (full n m')
    then show ?thesis using qm.malloc_law [OF R(1) full(3)] R by (auto simp: pool_inv_def)
  next
    case (freed p k m')
    then obtain z where z: "(p, z) \<in> R" using holdsD(1) [OF R(2)] by blast
    then have "pool_rep m' (R - {(p, z)})" using qm.free_law [OF R(1) z] freed(4) by auto
    then show ?thesis using freed(2) holds_remove [OF R z] by (auto simp: pool_inv_def)
  next
    case (moved p k n m' q)
    then obtain s where s: "(p, s) \<in> R" using holdsD(1) [OF R(2)] by blast
    then obtain z where "unat n \<le> z" "pool_rep m' (insert (q, z) (R - {(p, s)}))" "\<forall>t. (q, t) \<notin> R - {(p, s)}"
      using qm.realloc_law [OF R(1) s moved(4,5)] moved(6,7) by auto
    then show ?thesis using moved(2) holds_insert [OF holds_remove [OF R s], of "unat n" z q] by (auto simp: pool_inv_def)
  next
    case (kept p k n m')
    then obtain s where s: "(p, s) \<in> R" using holdsD(1) [OF R(2)] by blast
    then show ?thesis using qm.realloc_law [OF R(1) s kept(4,5)] kept(2,6) R by (auto simp: pool_inv_def)
  next
    case (wrote p k i v)
    then show ?thesis using qm.write_law [OF R(1)] R(2) by (auto simp: pool_inv_def)
  qed
qed

interpretation pools: state_machine pool_init pool_step pool_inv
  by unfold_locales (auto intro: pool_init_inv pool_step_inv)

subsection \<open>The integrity check\<close>






subsection \<open>Fragmentation\<close>

fun coalesced :: "frag list \<Rightarrow> bool" where
  "coalesced ((f, s, a) # (g, t, b) # xs) \<longleftrightarrow> \<not> (a \<and> b) \<and> coalesced ((g, t, b) # xs)"
| "coalesced xs \<longleftrightarrow> True"

abbreviation is_free :: "frag \<Rightarrow> bool" where
  "is_free x \<equiv> snd (snd x)"

lemma coalesced_Cons: "coalesced (x # xs) \<longleftrightarrow> coalesced xs \<and> (xs \<noteq> [] \<longrightarrow> \<not> (is_free x \<and> is_free (hd xs)))"
  by (cases xs; cases x) auto

lemma coalesced_append:
  "coalesced (xs @ ys) \<longleftrightarrow> coalesced xs \<and> coalesced ys \<and> (xs \<noteq> [] \<longrightarrow> ys \<noteq> [] \<longrightarrow> \<not> (is_free (last xs) \<and> is_free (hd ys)))"
  by (induction xs) (auto simp: coalesced_Cons hd_append)

lemma coalesced_carve: "coalesced (us @ (f, t, True) # vs) \<Longrightarrow> coalesced (us @ carve f t s @ vs)"
  by (auto simp: coalesced_append coalesced_Cons carve_def)

lemma coalesced_release:
  assumes "coalesced (us @ (f, s, False) # vs)"
  shows "coalesced (release us f s vs)"
proof -
  obtain z vs' where jn: "join_next s vs = (z, vs')" by (cases "join_next s vs")
  obtain us' f' z' where jp: "join_prev us f z = (us', f', z')" by (cases "join_prev us f z") auto
  have "coalesced vs' \<and> (vs' \<noteq> [] \<longrightarrow> \<not> is_free (hd vs'))" using assms jn
    by (cases "(s, vs)" rule: join_next.cases) (auto simp: coalesced_append coalesced_Cons)
  moreover have "coalesced us' \<and> (us' \<noteq> [] \<longrightarrow> \<not> is_free (last us'))" using assms jp
    by (cases us rule: rev_cases) (auto simp: coalesced_append coalesced_Cons join_prev_def split: if_splits)
  ultimately show ?thesis using jn jp by (simp add: release_def coalesced_append coalesced_Cons)
qed


definition plain_step :: "pool \<Rightarrow> pool_op \<Rightarrow> pool \<Rightarrow> bool" where
  "plain_step s e s' \<longleftrightarrow> pool_step s e s' \<and> (\<forall>p n. e \<noteq> Realloc p n)"

definition pool_tight :: "pool \<Rightarrow> bool" where
  "pool_tight s \<longleftrightarrow> (\<exists>xs. qm_inv (fst s) xs \<and> coalesced xs \<and> holds (snd s) (allocs xs))"

lemma pool_init_tight: "pool_init s \<Longrightarrow> pool_tight s"
proof -
  assume "pool_init s"
  then obtain address siz bytes m where m: "address \<noteq> 0" "unat address + unat siz \<le> 2 ^ 64" "qm_malloc_init address siz bytes = Some (Some m)" "s = (m, Map.empty)"
    by (auto simp: pool_init_def)
  obtain f z where "qm_inv m [(f, z, True)]" using init_ok [OF m(1,2), of bytes] m(3) by auto
  then show "pool_tight s" unfolding pool_tight_def using m(4) by (intro exI [of _ "[(f, z, True)]"]) (simp add: holds_def)
qed

lemma malloc_row:
  assumes I: "qm_inv m xs" "coalesced xs" and run: "qm_malloc m n = Some (Returned (m', p))"
  shows "\<exists>ys. qm_inv m' ys \<and> coalesced ys \<and> (if p = 0 then m' = m \<and> ys = xs
     else (\<exists>z \<ge> unat (ROUNDUP n). allocs ys = insert (p, z) (allocs xs)) \<and> (\<forall>t. (p, t) \<notin> allocs xs))"
proof (cases "fits xs (unat (ROUNDUP n))")
  case True
  from malloc_ok [OF I(1) refl ROUNDUP_dvd, of n] True run obtain us f t vs where x: "xs = us @ (f, t, True) # vs" "unat (ROUNDUP n) \<le> t" "p = f + 48"
    "qm_inv m' (us @ carve f t (unat (ROUNDUP n)) @ vs)" by auto
  have "(p, u) \<notin> allocs xs" for u
  proof -
    obtain bk where S: "qm_st m xs bk {} 0" using I by (auto simp: qm_inv_def)
    have "(f, t, True) \<in> set xs" using x(1) by simp
    then show ?thesis using contig_unique [OF block_okD(1) [OF qm_stD(1) [OF S]]] x(3) by (fastforce simp: allocs_def)
  qed
  then show ?thesis using x coalesced_carve [of us f t vs "unat (ROUNDUP n)"] I(2)
    by (intro exI [of _ "us @ carve f t (unat (ROUNDUP n)) @ vs"]) (auto simp: allocs_carve)
next
  case False
  then show ?thesis using malloc_ok [OF I(1) refl ROUNDUP_dvd, of n] I run by auto
qed

lemma free_row:
  assumes I: "qm_inv m xs" "coalesced xs" and p: "(p, z) \<in> allocs xs" and run: "qm_free m p = Some (Returned m')"
  shows "\<exists>ys. qm_inv m' ys \<and> coalesced ys \<and> allocs ys = allocs xs - {(p, z)}"
proof -
  obtain f where f: "p = f + 48" "(f, z, False) \<in> set xs" using p by (auto simp: allocs_def)
  then obtain us vs where xs: "xs = us @ (f, z, False) # vs" using split_list by metis
  have "qm_inv m' (release us f z vs)" using free_ok [OF I(1) [unfolded xs]] f(1) run by auto
  moreover have "allocs (release us f z vs) = allocs xs - {(p, z)}"
    using allocs_distinct [OF I(1) [unfolded xs], of z] f(1) by (auto simp: xs allocs_release)
  ultimately show ?thesis using coalesced_release I(2) xs by blast
qed

lemma plain_step_tight:
  assumes "pool_tight s" "plain_step s e s'"
  shows "pool_tight s'"
proof -
  obtain m A where s: "s = (m, A)" by (cases s)
  obtain xs where xs: "qm_inv m xs" "coalesced xs" "holds A (allocs xs)" using assms(1) s by (auto simp: pool_tight_def)
  have rep: "pool_rep m (allocs xs)" using xs(1) by (auto simp: pool_rep_def)
  have step: "pool_step (m, A) e s'" "\<forall>p n. e \<noteq> Realloc p n" using assms(2) s by (auto simp: plain_step_def)
  from step(1) show ?thesis
  proof (cases rule: pool_step.cases)
    case (got n m' p)
    then obtain ys z where y: "qm_inv m' ys" "coalesced ys" "unat (ROUNDUP n) \<le> z" "allocs ys = insert (p, z) (allocs xs)" "\<forall>t. (p, t) \<notin> allocs xs"
      using malloc_row [OF xs(1,2) got(4)] by auto
    moreover have "unat n \<le> z" using ROUNDUP_ge [OF got(3)] y(3) by simp
    ultimately show ?thesis using got(2) holds_insert [OF xs(3), of "unat n" z p] by (auto simp: pool_tight_def)
  next
    case (full n m')
    then show ?thesis using malloc_row [OF xs(1,2) full(4)] xs by (auto simp: pool_tight_def)
  next
    case (freed p k m')
    then obtain z where z: "(p, z) \<in> allocs xs" using holdsD(1) [OF xs(3)] by blast
    then show ?thesis using free_row [OF xs(1,2) z freed(4)] holds_remove [OF rep xs(3) z] freed(2) by (auto simp: pool_tight_def)
  next
    case (wrote p k i v)
    then show ?thesis using xs by (auto simp: pool_tight_def qm_inv_write)
  qed (use step(2) in auto)
qed

interpretation plain: state_machine pool_init plain_step pool_tight
  by unfold_locales (auto intro: pool_init_tight plain_step_tight)

subsection \<open>Freeing twice\<close>





subsection \<open>A block to start from\<close>

lemma sample_pool:
  "\<exists>m f s. pool_init (m, Map.empty) \<and> qm_inv m [(f, s, True)] \<and> 700000 \<le> s \<and> last_frag_end m < 2 ^ 63"
proof -
  have u: "unat (8 :: u64) = 8" "unat (1000000 :: u64) = 1000000" by simp_all
  obtain r where r: "qm_malloc_init 8 1000000 (\<lambda>_. 0) = Some r"
    "case r of None \<Rightarrow> (1000000::nat) < QM_BLOCK_SIZE + FRAG_OVERHEAD + 14
      | Some m \<Rightarrow> \<exists>f s. qm_inv m [(f, s, True)] \<and> 8 \<le> qm_addr m \<and> f + s + FRAG_OVERHEAD \<le> 8 + 1000000 \<and> 1000000 < s + QM_BLOCK_SIZE + FRAG_OVERHEAD + 15"
    using init_ok [of 8 1000000 "\<lambda>_. 0"] unfolding u by auto
  then obtain m f s where m: "r = Some m" "qm_inv m [(f, s, True)]" "f + s + FRAG_OVERHEAD \<le> 8 + 1000000" "1000000 < s + QM_BLOCK_SIZE + FRAG_OVERHEAD + 15"
    by (cases r) (auto simp: qm_sizes)
  obtain bk where S: "qm_st m [(f, s, True)] bk {} 0" using m(2) by (auto simp: qm_inv_def)
  have "last_frag_end m + 48 = f + s + 96" using block_okD(1) [OF qm_stD(1) [OF S]] by auto
  then have "last_frag_end m < 2 ^ 63" using m(3) by (simp add: qm_sizes)
  moreover have "pool_init (m, Map.empty)" unfolding pool_init_def using r(1) m(1)
    by (intro exI [of _ 8] exI [of _ 1000000] exI [of _ "\<lambda>_. 0"] exI [of _ m]) simp
  ultimately show ?thesis using m(2,4) by (intro exI [of _ m] exI [of _ f] exI [of _ s]) (simp add: qm_sizes)
qed

lemma sample_held:
  "\<exists>m p f s. pools.reach (m, [p \<mapsto> 100]) \<and> plain.reach (m, [p \<mapsto> 100]) \<and> p = f + 48 \<and> qm_inv m [(f, 104, False), (f + 200, s, True)] \<and> 600000 \<le> s \<and>
     last_frag_end m < 2 ^ 63"
proof -
  obtain m f s where m: "pool_init (m, Map.empty)" "qm_inv m [(f, s, True)]" "700000 \<le> s" "last_frag_end m < 2 ^ 63" using sample_pool by blast
  have r: "unat (ROUNDUP 100) = 104" by (simp add: ROUNDUP_unat)
  have "fits [(f, s, True)] 104" using m(3) by (simp add: fits_def)
  with malloc_ok [OF m(2), of 104 100] r obtain m' where m': "qm_malloc m 100 = Some (Returned (m', f + 48))" "qm_inv m' (carve f s 104)" "same_place m m'"
    by (auto simp: Cons_eq_append_conv)
  have c: "carve f s 104 = [(f, 104, False), (f + 200, s - 200, True)]" using m(3) by (simp add: carve_def)
  have step: "pool_step (m, Map.empty) (Malloc 100) (m', Map.empty(f + 48 \<mapsto> unat (100 :: u64)))" by (rule pool_step.got [OF _ m'(1)]) simp_all
  then have "pools.reach (m', [f + 48 \<mapsto> 100])" using pools.more [OF pools.start [OF m(1)]] by simp
  moreover have "plain.reach (m', [f + 48 \<mapsto> 100])" using step plain.more [OF plain.start [OF m(1)], of "Malloc 100"] by (simp add: plain_step_def)
  ultimately show ?thesis using m'(2,3) c m(3,4) by (intro exI [of _ m'] exI [of _ "f + 48"] exI [of _ f] exI [of _ "s - 200"]) (simp add: same_place_def)
qed



subsection \<open>The properties\<close>

lemma pool_held:
  assumes "pools.reach (m, A)"
  obtains xs where "qm_inv m xs" "holds A (allocs xs)"
  using pools.reach_inv [OF assms] by (auto simp: pool_inv_def pool_rep_def)



text \<open>
  C10. \<open>qm_malloc\<close> fails exactly if no free fragment is large enough for the rounded size. Otherwise it
  takes a smallest one that is, splits it when the rest is large enough for a fragment of its own, and
  leaves all other fragments as they are.
\<close>

theorem qm_malloc_best_fit:
  assumes "qm_inv m xs" "s = unat (ROUNDUP siz)"
  shows "(\<not> fits xs s \<longrightarrow> qm_malloc m siz = Some (Returned (m, 0))) \<and>
    (fits xs s \<longrightarrow> (\<exists>m' us f t vs. xs = us @ (f, t, True) # vs \<and> s \<le> t \<and> (\<forall>(g, u, b) \<in> set xs. b \<longrightarrow> s \<le> u \<longrightarrow> t \<le> u) \<and>
       qm_malloc m siz = Some (Returned (m', f + QM_FRAG_OVERHEAD)) \<and> qm_inv m' (us @ carve f t s @ vs) \<and> qm_data m' = qm_data m))"
proof -
  have "8 dvd s" using ROUNDUP_dvd assms(2) by simp
  from malloc_ok [OF assms this] show ?thesis unfolding QM_FRAG_OVERHEAD_def by (simp split: if_splits) blast
qed

theorem qm_malloc_best_fit_witness:
  "\<exists>m f s m'. qm_inv m [(f, s, True)] \<and> qm_malloc m 100 = Some (Returned (m', f + QM_FRAG_OVERHEAD)) \<and>
     qm_inv m' [(f, 104, False), (f + 200, s - 200, True)]"
proof -
  obtain m f s where m: "qm_inv m [(f, s, True)]" "700000 \<le> s" using sample_pool by blast
  have r: "unat (ROUNDUP 100) = 104" by (simp add: ROUNDUP_unat)
  have "fits [(f, s, True)] 104" using m(2) by (simp add: fits_def)
  then obtain m' where "qm_malloc m 100 = Some (Returned (m', f + QM_FRAG_OVERHEAD))" "qm_inv m' (carve f s 104)"
    using qm_malloc_best_fit [OF m(1), of 104 100] r by (auto simp: Cons_eq_append_conv)
  moreover have "carve f s 104 = [(f, 104, False), (f + 200, s - 200, True)]" using m(2) by (simp add: carve_def)
  ultimately show ?thesis using m(1) by (intro exI [of _ m] exI [of _ f] exI [of _ s] exI [of _ m']) simp
qed

text \<open>
  C6. \<open>qm_realloc\<close> of an allocated region returns a region that is large enough, with the bytes of the
  old one as far as both reach, and leaves the bytes of all others alone; or it returns null and
  changes nothing, only when the region has to grow and no free fragment is large enough.
\<close>

theorem qm_realloc_contents:
  assumes "qm_inv m xs" "(p, s) \<in> allocs xs" "siz \<noteq> 0" "unat siz + 7 < 2 ^ 64"
  shows "(\<exists>m' q z ys. qm_realloc m p siz = Some (Returned (m', q)) \<and> q \<noteq> 0 \<and> unat siz \<le> z \<and> qm_inv m' ys \<and>
       allocs ys = insert (q, z) (allocs xs - {(p, s)}) \<and> (\<forall>i < min s z. qm_data m' (q + i) = qm_data m (p + i)) \<and>
       (\<forall>(o', t) \<in> allocs xs - {(p, s)}. \<forall>i < t. qm_data m' (o' + i) = qm_data m (o' + i))) \<or>
    qm_realloc m p siz = Some (Returned (m, 0)) \<and> s < unat (ROUNDUP siz) \<and> \<not> fits xs (unat (ROUNDUP siz))"
  using realloc_allocs [OF assms(1-3) refl] ROUNDUP_ge [OF assms(4)] unfolding realloc_done_def resized_def by (meson le_trans)

theorem qm_realloc_contents_witness:
  "\<exists>m p m' q z ys. qm_realloc m p 500 = Some (Returned (m', q)) \<and> q \<noteq> 0 \<and> 500 \<le> z \<and> qm_inv m' ys \<and> allocs ys = {(q, z)} \<and>
     (\<forall>i < min 104 z. qm_data m' (q + i) = qm_data m (p + i))"
proof -
  obtain m p f s where m: "p = f + 48" "qm_inv m [(f, 104, False), (f + 200, s, True)]" "600000 \<le> s" using sample_held by blast
  have r: "unat (ROUNDUP 500) = 504" by (simp add: ROUNDUP_unat)
  have "fits [(f, 104, False), (f + 200, s, True)] 504" using m(3) by (auto simp: fits_def)
  moreover have "allocs [(f, 104, False), (f + 200, s, True)] = {(p, 104)}" by (simp add: m(1))
  ultimately obtain m' q z ys where "qm_realloc m p 500 = Some (Returned (m', q))" "q \<noteq> 0" "500 \<le> z" "qm_inv m' ys" "allocs ys = {(q, z)}"
      "\<forall>i < min 104 z. qm_data m' (q + i) = qm_data m (p + i)" using qm_realloc_contents [OF m(2), of p 104 500] r by auto
  then show ?thesis by blast
qed

text \<open>
  C37. Memory that is given back can be had again: after a held region was freed, a request for no more
  bytes than it had succeeds.
\<close>

theorem qm_free_then_malloc:
  assumes "pools.reach (m, A)" "A p = Some k" "qm_free m p = Some (Returned m')" "unat n \<le> k" "unat n + 7 < 2 ^ 64"
  shows "\<exists>m'' q. qm_malloc m' n = Some (Returned (m'', q)) \<and> q \<noteq> 0"
proof -
  obtain xs where xs: "qm_inv m xs" "holds A (allocs xs)" using pool_held [OF assms(1)] by blast
  obtain z where z: "k \<le> z" "(p, z) \<in> allocs xs" using holdsD(1) [OF xs(2) assms(2)] by blast
  obtain f where f: "p = f + 48" "(f, z, False) \<in> set xs" using z(2) by (auto simp: allocs_def)
  then obtain us vs where x: "xs = us @ (f, z, False) # vs" using split_list by metis
  obtain bk where S: "qm_st m xs bk {} 0" using xs(1) by (auto simp: qm_inv_def)
  have "8 dvd z" using frag_okD(6) [OF block_okD(2) [OF qm_stD(1) [OF S] f(2)]] .
  then have "unat (ROUNDUP n) \<le> z" using ROUNDUP_unat [of n] assms(4,5) z(1) by (auto elim!: dvdE)
  moreover have "\<exists>g t. (g, t, True) \<in> set (release us f z vs) \<and> z \<le> t"
  proof -
    obtain y vs' where jn: "join_next z vs = (y, vs')" by (cases "join_next z vs")
    moreover obtain us' g t where jp: "join_prev us f y = (us', g, t)" by (cases "join_prev us f y") auto
    moreover have "z \<le> y" using jn by (cases "(z, vs)" rule: join_next.cases) auto
    moreover have "y \<le> t" using jp by (auto simp: join_prev_def split: if_splits)
    ultimately show ?thesis by (intro exI [of _ g] exI [of _ t]) (simp add: release_def)
  qed
  ultimately have "fits (release us f z vs) (unat (ROUNDUP n))" unfolding fits_def using le_trans by blast
  moreover have "qm_inv m' (release us f z vs)" using free_ok [OF xs(1) [unfolded x]] f(1) assms(3) by auto
  ultimately show ?thesis using malloc_allocs [OF _ refl, of m' "release us f z vs" n] by auto
qed

theorem qm_free_then_malloc_witness:
  "\<exists>m p m' m'' q. pools.reach (m, [p \<mapsto> 100]) \<and> qm_free m p = Some (Returned m') \<and> qm_malloc m' 100 = Some (Returned (m'', q)) \<and> q \<noteq> 0"
proof -
  obtain m p f s where r: "pools.reach (m, [p \<mapsto> 100])" "p = f + 48" "qm_inv m ([] @ (f, 104, False) # [(f + 200, s, True)])"
    using sample_held by auto
  obtain m' where m': "qm_free m p = Some (Returned m')" using free_ok [OF r(3)] r(2) by blast
  from qm_free_then_malloc [OF r(1) _ m', of 100 100] obtain m'' q where "qm_malloc m' 100 = Some (Returned (m'', q))" "q \<noteq> 0" by auto
  then show ?thesis using r(1) m' by blast
qed







end
