(* ===== verification/Spec2Isabelle.thy ===== *)
theory Spec2Isabelle
  imports Dlg_Timer Codec Ut Strcommon Core_Hash Dlg_Table Kv_Store Qm_Pool
begin

text \<open>
  A verification library for parts of the SIP server in this repository.

  \<^bold>\<open>The program.\<close> The server reads SIP messages from its sockets (\<^verbatim>\<open>net/\<close>, \<^verbatim>\<open>receive.c\<close>), parses
  them (\<^verbatim>\<open>parser/\<close>), runs the configuration script on them (\<^verbatim>\<open>route.c\<close>, \<^verbatim>\<open>action.c\<close>) and forwards or
  answers them. Modules add functions to the script. Processes share their state in shared
  memory: hash tables with linked lists, reference counts and timers. What they all build
  on is a small core of data structures and of functions on strings and numbers. The
  development covers a part of that core the allocator under it, and two components of modules that stand on it.

  \<^bold>\<open>Conventions.\<close> A \<^verbatim>\<open>str\<close> is the list of its bytes. Machine integers are words of their width where
  the code can wrap. A pointer is an address into a map of records. A definition that reads
  through a null or a freed pointer, reads behind a buffer, aborts or does not return has the
  value \<^verbatim>\<open>None\<close>; an operation that returns null or an error code returns it inside of \<^verbatim>\<open>Some\<close>. Loops
  along pointers are partial functions in the option monad, and every theorem that an operation is
  right includes that it returns. No fuel is used. What comes from outside of the code, such as
  the outcome of an allocation or the time, is an argument. Code between the two calls of a lock is
  one step.

  \<^bold>\<open>Theories.\<close>
  \<^item> \<open>Sip_Prelude\<close>: machine types, collections of rules, lemmas on lists, and the locale \<open>state_machine\<close>:
    initial states, steps and an invariant that all reachable states have.
  \<^item> \<open>Codec\<close> (\<^verbatim>\<open>ut.c\<close>): base64, base64url, word64 and base32. The locale \<open>radix64\<close> proves the three
    64-digit codecs once from laws on their tables. Shown: round trips, output lengths, and a read
    behind the input of the base64 decoder.
  \<^item> \<open>Ut\<close> (\<^verbatim>\<open>ut.h\<close>): decimal and hexadecimal numbers in both directions, unescaping in place,
    comparisons and searches. Shown: which strings are accepted and the value at the width of the
    result, round trips, that the unescaping equals a decoder in one pass, that the comparisons are the
    lexicographic order and the searches return the first occurrence.
  \<^item> \<open>Strcommon\<close> (\<^verbatim>\<open>strcommon.c\<close>, \<^verbatim>\<open>parser/parse_uri.h\<close>): backslash, XML and percent escapes, with the locale
    \<open>percent_code\<close> for the two percent escapes. Shown: round trips, output bounds, that escaped strings
    are valid in a URI, that passwords are masked, and a read behind an incomplete escape.
  \<^item> \<open>Core_Hash\<close> (\<^verbatim>\<open>hash_func.h\<close>): the string hashes. Shown: the result is an index of the table, and equal
    strings without case have the same index.
  \<^item> \<open>Dlg_Timer\<close> (\<^verbatim>\<open>modules/dialog/dlg_timer.c\<close>): the circular list of the links of dialogs. Shown: insertion,
    removal and update refine operations on a list sorted by timeout, and the routine calls the
    handler exactly for the links that are due.
  \<^item> \<open>Dll\<close>: doubly linked lists with null at both ends, for the entries of hash tables.
  \<^item> \<open>Dlg_Hash\<close> (\<^verbatim>\<open>modules/dialog/dlg_hash.c\<close>, \<^verbatim>\<open>dlg_hash.h\<close>, and the identifiers and the delete callback of
    \<^verbatim>\<open>dlg_handlers\<close>): the table of dialogs with both timers. The state is the record \<open>world\<close>: the cells by
    address, the hash entries, the two timers and the clock. \<open>Dlg_Table\<close> has the operations as an
    inductive step relation with the references that clients hold, an instance of \<open>state_machine\<close>.
    Shown: no use after free and no leak in any order of operations, how each event of the state machine
    of a dialog changes its references, that a dialog never goes back to an earlier state, that
    searches find the first dialog that matches, and that identifiers are read back.
  \<^item> \<open>Avl_Map\<close> (\<^verbatim>\<open>map.c\<close>, \<^verbatim>\<open>map.h\<close>): the ordered map, an AVL tree with parent pointers. \<open>Avl_Tree\<close> relates its heap to
    trees and their contexts, \<open>Avl_Rot\<close> has the rotations, \<open>Avl_Get\<close> lookup and insertion, \<open>Avl_Remove\<close>
    and \<open>Avl_Delete\<close> deletion, \<open>Avl_Walk\<close> iterators, visits and destruction. \<open>Avl_Laws\<close> has the locale
    \<open>ordered_map\<close>, what a client may rely on, and its interpretation by the tree. Shown: every operation
    refines the one on the sorted list of entries and keeps the tree balanced, with a bound on the
    comparisons of a search.
  \<^item> \<open>Kv_Store\<close> (\<^verbatim>\<open>modules/usrloc/kv_store.c\<close>): the key-value store of a user record, a client of the
    map that rests on the facts of \<open>ordered_map\<close> only. Shown: it is a finite map that owns its values, and
    what is written is read back.
  \<^item> \<open>Qm_Malloc\<close> (\<^verbatim>\<open>mem/q_malloc.h\<close>, \<^verbatim>\<open>q_malloc.c\<close>, \<^verbatim>\<open>q_malloc_dyn.h\<close>): the allocator, debug build, 64 bit. The record
    \<open>qm_block\<close> has one map for each field of the headers and end tags of the fragments. An abort is a
    result of its own. \<open>Qm_Lists\<close> has the size classes and the circular free lists, \<open>Qm_Heap\<close> the
    well-formed block as a row of fragments, \<open>Qm_Ops\<close> splitting, joining and searching, \<open>Qm_Run\<close>
    allocation and freeing, \<open>Qm_Laws\<close> reallocation and initialisation. \<open>Qm_Pool\<close> has the locale \<open>allocator\<close>,
    the laws of an allocator towards its clients, its interpretation, and two instances of
    \<open>state_machine\<close>: all sequences of calls, and those without reallocation. Shown: no invalid access and
    no abort as long as only held blocks are freed, held bytes are kept, allocation is best fit and
    complete, adjacent free fragments are joined, what is freed can be allocated again; and a double
    free and an overflow that are not detected.

  \<^bold>\<open>Not modelled.\<close> The message parser and everything that works on parsed messages (script engine,
  pseudo variables, transactions, most modules): its state is a graph of pointers into the
  message buffer, and a faithful model needs all header parsers first. Sockets, processes, locks and
  the drivers of databases and other services are system calls and libraries outside of the
  sources. Of the dialog module, the ping lists of the timers, the callbacks, profiles, persistence
  and replication are left out. The message digests and the other helpers of the core are
  independent of what is here.
\<close>

end
